(* ===== verification/Prelude.thy ===== *)
theory Prelude
  imports Main "HOL-Library.Word"
begin

text \<open>
  Shared vocabulary of the development: the C integer types of \<open>kernel/types.h\<close> as words, the
  outcome type of kernel code (a value, a \<open>panic\<close>, or going to sleep on a channel), the scan
  loop \<open>for (i = 0; i < n; i++) if (...) return i;\<close> that the kernel uses for every table, and
  the generic lemmas on words, functions and lists that the component theories share.
\<close>

unbundle bit_operations_syntax

section \<open>C integer types (kernel/types.h)\<close>

type_synonym uint8 = "8 word"
type_synonym uint16 = "16 word"
type_synonym uint32 = "32 word"
type_synonym uint64 = "64 word"

text \<open>A C array, indexed from 0; a byte array; a byte-addressed memory.\<close>

type_synonym 'a carr = "nat \<Rightarrow> 'a"
type_synonym bytes = "uint8 carr"
type_synonym mem = "uint64 \<Rightarrow> uint8"

named_theorems res_simps \<open>rewrite rules for outcomes of kernel code\<close>
named_theorems inv_intros \<open>operations keep their component's invariant\<close>

section \<open>Outcomes of kernel code\<close>

text \<open>
  Wait channels (the \<open>chan\<close> argument of \<open>sleep\<close> and \<open>wakeup\<close>, an address in the source).
\<close>

datatype chan =
    ChProc nat            \<comment> \<open>a \<open>struct proc\<close>, as in \<open>kwait\<close>\<close>
  | ChTicks               \<comment> \<open>\<open>&ticks\<close>\<close>
  | ChLog                 \<comment> \<open>\<open>&log\<close>\<close>
  | ChBufLock nat         \<comment> \<open>the sleep-lock of a cache buffer\<close>
  | ChInodeLock nat       \<comment> \<open>the sleep-lock of an inode\<close>
  | ChPipeRead uint64     \<comment> \<open>\<open>&pi->nread\<close>\<close>
  | ChPipeWrite uint64    \<comment> \<open>\<open>&pi->nwrite\<close>\<close>
  | ChConsR               \<comment> \<open>\<open>&cons.r\<close>\<close>
  | ChTx                  \<comment> \<open>\<open>&tx_chan\<close>\<close>
  | ChDisk nat            \<comment> \<open>the virtio driver's channels\<close>
  | ChSpin                \<comment> \<open>no channel: the loop of a spinlock held by another CPU\<close>

text \<open>
  \<open>Ok\<close> is a normal return, \<open>Panic\<close> a call of \<open>panic\<close> (the machine stops), \<open>Block\<close> a call of
  \<open>sleep\<close> that only another thread can end.
\<close>

datatype 'a res = Ok 'a | Panic string | Block chan

primrec bindr :: "'a res \<Rightarrow> ('a \<Rightarrow> 'b res) \<Rightarrow> 'b res" where
  "bindr (Ok x) f = f x"
| "bindr (Panic m) f = Panic m"
| "bindr (Block c) f = Block c"

definition is_ok :: "'a res \<Rightarrow> bool" where
  "is_ok r = (case r of Ok _ \<Rightarrow> True | _ \<Rightarrow> False)"

lemma bindr_eq_Ok [simp, res_simps]:
  "bindr m f = Ok y \<longleftrightarrow> (\<exists>x. m = Ok x \<and> f x = Ok y)"
  by (cases m) auto

lemma bindr_eq_Panic [res_simps]:
  "bindr m f = Panic e \<longleftrightarrow> m = Panic e \<or> (\<exists>x. m = Ok x \<and> f x = Panic e)"
  by (cases m) auto

lemma bindr_cong [fundef_cong]:
  "m = m' \<Longrightarrow> (\<And>x. m' = Ok x \<Longrightarrow> f x = g x) \<Longrightarrow> bindr m f = bindr m' g"
  by (cases m') auto

lemma bindr_assoc: "bindr (bindr m f) g = bindr m (\<lambda>x. bindr (f x) g)"
  by (cases m) auto

lemma is_ok_simps [simp, res_simps]:
  "is_ok (Ok x)" "\<not> is_ok (Panic e)" "\<not> is_ok (Block c)"
  by (simp_all add: is_ok_def)

lemma is_ok_iff: "is_ok r \<longleftrightarrow> (\<exists>x. r = Ok x)"
  by (cases r) auto

lemma is_okE: "is_ok r \<Longrightarrow> (\<And>x. r = Ok x \<Longrightarrow> P) \<Longrightarrow> P"
  by (auto simp: is_ok_iff)

section \<open>Table scans\<close>

text \<open>
  The loop \<open>for (i = 0; i < n; i++) if (P(i)) return i;\<close>: the first index in order that
  satisfies the test, \<open>None\<close> when the loop falls through.
\<close>

definition scan :: "(nat \<Rightarrow> bool) \<Rightarrow> nat \<Rightarrow> nat option" where
  "scan P n = find P [0..<n]"

lemma find_append: "find P (xs @ ys) = (case find P xs of Some x \<Rightarrow> Some x | None \<Rightarrow> find P ys)"
  by (induction xs) auto

lemma find_SomeD: "find P xs = Some x \<Longrightarrow> P x \<and> x \<in> set xs"
  by (auto simp: find_Some_iff)

lemma scan_Suc: "scan P (Suc n) = (case scan P n of Some i \<Rightarrow> Some i | None \<Rightarrow> if P n then Some n else None)"
  by (simp add: scan_def find_append split: option.split)

lemma scan_Some_iff: "scan P n = Some i \<longleftrightarrow> i < n \<and> P i \<and> (\<forall>j<i. \<not> P j)"
proof (induction n)
  case 0
  then show ?case by (simp add: scan_def)
next
  case (Suc n)
  have "scan P n = None \<longleftrightarrow> (\<forall>k<n. \<not> P k)"
    by (auto simp: scan_def find_None_iff)
  then show ?case
    using Suc by (auto simp: scan_Suc less_Suc_eq split: option.splits)
qed

lemma scan_None_iff: "scan P n = None \<longleftrightarrow> (\<forall>i<n. \<not> P i)"
  unfolding scan_def find_None_iff by auto

lemma scan_SomeD:
  assumes "scan P n = Some i"
  shows "i < n" and "P i" and "\<And>j. j < i \<Longrightarrow> \<not> P j"
  using assms by (auto simp: scan_Some_iff)

lemma scan_total: "i < n \<Longrightarrow> P i \<Longrightarrow> \<exists>j. scan P n = Some j"
  by (metis not_None_eq scan_None_iff)

lemma scan_cong: "(\<And>i. i < n \<Longrightarrow> P i = Q i) \<Longrightarrow> scan P n = scan Q n"
  unfolding scan_def by (rule find_cong) auto

section \<open>Counted loops\<close>

text \<open>\<open>for (i = 0; i < n; i++) s = f(i, s);\<close>, stopping at the first panic.\<close>

primrec for_upto :: "nat \<Rightarrow> (nat \<Rightarrow> 's \<Rightarrow> 's res) \<Rightarrow> 's \<Rightarrow> 's res" where
  "for_upto 0 f s = Ok s"
| "for_upto (Suc n) f s = bindr (for_upto n f s) (f n)"

lemma for_upto_inv:
  assumes "for_upto n f s = Ok s'" and "P 0 s"
    and "\<And>i t t'. i < n \<Longrightarrow> P i t \<Longrightarrow> f i t = Ok t' \<Longrightarrow> P (Suc i) t'"
  shows "P n s'"
  using assms by (induction n arbitrary: s') auto

text \<open>Total correctness: the body keeps the invariant and does not panic.\<close>

lemma for_upto_total:
  assumes "P 0 s" and "\<And>i t. i < n \<Longrightarrow> P i t \<Longrightarrow> \<exists>t'. f i t = Ok t' \<and> P (Suc i) t'"
  shows "\<exists>s'. for_upto n f s = Ok s' \<and> P n s'"
  using assms
proof (induction n)
  case (Suc n)
  then obtain t where "for_upto n f s = Ok t" "P n t" by auto
  moreover from this Suc.prems(2) [of n t] obtain t' where "f n t = Ok t'" "P (Suc n) t'" by auto
  ultimately show ?case by auto
qed simp

lemma for_upto_cong:
  "(\<And>i t. i < n \<Longrightarrow> f i t = g i t) \<Longrightarrow> for_upto n f s = for_upto n g s"
  by (induction n) (auto intro!: bindr_cong)

section \<open>Words\<close>

lemma unat_diff_lt_trans:
  fixes a b :: "'a::len word"
  shows "b \<le> a \<Longrightarrow> unat (a - b) = unat a - unat b"
  by (simp add: unat_sub)

text \<open>An address lies in the \<open>n\<close> bytes from \<open>a\<close> on when its distance from \<open>a\<close> is below \<open>n\<close>.\<close>

definition within :: "uint64 \<Rightarrow> uint64 \<Rightarrow> nat \<Rightarrow> bool" where
  "within x a n \<longleftrightarrow> unat (x - a) < n"

lemma within_0 [simp]: "\<not> within x a 0"
  by (simp add: within_def)

lemma within_self [simp]: "0 < n \<Longrightarrow> within a a n"
  by (simp add: within_def)

lemma unat_of_nat_small: "n < 2 ^ LENGTH('a) \<Longrightarrow> unat (of_nat n :: 'a::len word) = n"
  by (simp add: unat_of_nat take_bit_nat_eq_self)

lemma unat_eq_of_nat:
  fixes x :: "'a::len word"
  assumes "n < 2 ^ LENGTH('a)"
  shows "unat x = n \<longleftrightarrow> x = of_nat n"
  using unat_of_nat_small [OF assms] by auto

lemma within_Suc:
  assumes "n < 2 ^ 64"
  shows "within x a (Suc n) \<longleftrightarrow> within x a n \<or> x = a + of_nat n"
proof -
  have "unat (x - a) = n \<longleftrightarrow> x - a = of_nat n"
    using assms by (intro unat_eq_of_nat) simp
  also have "\<dots> \<longleftrightarrow> x = a + of_nat n"
    by (auto simp: algebra_simps)
  finally show ?thesis
    by (auto simp: within_def less_Suc_eq)
qed

lemma within_Suc_left:
  assumes "n < 2 ^ 64"
  shows "within x a (Suc n) \<longleftrightarrow> x = a \<or> within x (a + 1) n"
proof (cases "x = a")
  case False
  then have "x - a \<noteq> 0" by simp
  then have "unat (x - a - 1) = unat (x - a) - 1" and "0 < unat (x - a)"
    by (simp_all add: unat_minus_one unat_gt_0)
  moreover have e: "x - (a + 1) = x - a - 1" by (simp add: algebra_simps)
  ultimately show ?thesis
    using False unfolding within_def e by auto
qed simp

lemma not_within_pred:
  assumes "n < 2 ^ 64"
  shows "\<not> within a (a + 1) n"
proof -
  have "a - (a + 1) = (- 1 :: uint64)" by simp
  then have "unat (a - (a + 1)) = 2 ^ 64 - 1"
    by (simp add: unsigned_minus_1_eq_mask mask_eq_exp_minus_1)
  then show ?thesis using assms by (simp add: within_def)
qed

lemma within_offset:
  assumes "i < n" "n \<le> 2 ^ 64"
  shows "within (a + of_nat i) a n"
proof -
  have "unat (of_nat i :: uint64) = i"
    using assms by (intro unat_of_nat_small) simp
  then show ?thesis
    using assms by (simp add: within_def)
qed

lemma withinE:
  assumes "within x a n"
  obtains i where "i < n" and "x = a + of_nat i"
proof
  show "unat (x - a) < n"
    using assms by (simp add: within_def)
  show "x = a + of_nat (unat (x - a))"
    by simp
qed

lemma word_add_of_nat_Suc: "a + of_nat (Suc n) = (a + 1) + of_nat n"
  for a :: "'a::len word"
  by simp

lemma unat_add_of_nat:
  fixes a :: "'a::len word"
  assumes "unat a + k < 2 ^ LENGTH('a)"
  shows "unat (a + of_nat k) = unat a + k"
proof -
  have "unat (of_nat k :: 'a word) = k"
    using assms by (intro unat_of_nat_small) simp
  with assms show ?thesis
    using unat_add_lem [of a "of_nat k"] by simp
qed

lemma drop_bit_0_bits:
  fixes w :: "'a::len word"
  shows "drop_bit k w = 0 \<longleftrightarrow> (\<forall>n\<ge>k. \<not> bit w n)"
proof
  assume z: "drop_bit k w = 0"
  show "\<forall>n\<ge>k. \<not> bit w n"
  proof (intro allI impI)
    fix n assume "k \<le> n"
    then have "bit (drop_bit k w) (n - k) = bit w n" by (simp add: bit_drop_bit_eq)
    with z show "\<not> bit w n" by simp
  qed
next
  assume "\<forall>n\<ge>k. \<not> bit w n"
  then show "drop_bit k w = 0"
    by (intro bit_word_eqI) (simp add: bit_drop_bit_eq)
qed

lemma drop_bit_0_less:
  fixes w :: "'a::len word"
  shows "drop_bit k w = 0 \<longleftrightarrow> unat w < 2 ^ k"
proof -
  have "unat (drop_bit k w) = unat w div 2 ^ k"
    unfolding unat_drop_bit_eq by (simp add: drop_bit_eq_div)
  then show ?thesis
    unfolding word_unat_eq_iff by (simp add: div_eq_0_iff)
qed

lemma unat_add_1:
  fixes w :: "'a::len word"
  assumes "Suc (unat w) < 2 ^ LENGTH('a)"
  shows "unat (w + 1) = Suc (unat w)"
  using assms by (simp add: unat_word_ariths)

lemma unat_sub_1:
  fixes w :: "'a::len word"
  assumes "0 < unat w"
  shows "unat (w - 1) = unat w - 1"
  using assms by (subst unat_sub) (auto simp: word_le_nat_alt Suc_le_eq)

section \<open>Functions as arrays and as memories\<close>

lemma fun_upd_other: "x \<noteq> a \<Longrightarrow> (f(a := v)) x = f x"
  by simp

text \<open>The bytes of a memory seen from an address, as a C array.\<close>

definition view :: "mem \<Rightarrow> uint64 \<Rightarrow> bytes" where
  "view m a = (\<lambda>i. m (a + of_nat i))"

lemma view_apply [simp]: "view m a i = m (a + of_nat i)"
  by (simp add: view_def)

end
