(* ===== verification/Encoding.thy ===== *)
theory Encoding
  imports Prelude
begin

text \<open>
  Little-endian layout of C integers: how \<open>*(uint64 *)a\<close>, \<open>((uint *)bp->data)[i]\<close> and the fields
  of on-disk structures read and write bytes. The byte lists of a word, stores of byte lists into
  a memory and into a block, and the round trips between them.
\<close>

section \<open>Words as byte lists\<close>

primrec word_of_bytes :: "uint8 list \<Rightarrow> 'a::len word" where
  "word_of_bytes [] = 0"
| "word_of_bytes (b # bs) = ucast b OR push_bit 8 (word_of_bytes bs)"

primrec bytes_of_word :: "nat \<Rightarrow> 'a::len word \<Rightarrow> uint8 list" where
  "bytes_of_word 0 w = []"
| "bytes_of_word (Suc k) w = ucast w # bytes_of_word k (drop_bit 8 w)"

lemma length_bytes_of_word [simp]: "length (bytes_of_word k w) = k"
  by (induction k arbitrary: w) auto

lemma word_of_bytes_of_word:
  fixes w :: "'a::len word"
  shows "word_of_bytes (bytes_of_word k w) = take_bit (8 * k) w"
proof (induction k arbitrary: w)
  case 0
  then show ?case by simp
next
  case (Suc k)
  show ?case
  proof (rule bit_word_eqI)
    fix n assume n: "n < LENGTH('a)"
    show "bit (word_of_bytes (bytes_of_word (Suc k) w) :: 'a word) n = bit (take_bit (8 * Suc k) w) n"
    proof (cases "n < 8")
      case True
      with n show ?thesis by (auto simp: bit_simps)
    next
      case False
      with n show ?thesis
        by (auto simp: bit_simps Suc)
    qed
  qed
qed

lemma word_of_bytes_inverse:
  "LENGTH('a) \<le> 8 * k \<Longrightarrow> word_of_bytes (bytes_of_word k w) = (w :: 'a::len word)"
  by (simp add: word_of_bytes_of_word take_bit_word_eq_self)

section \<open>Stores into memories and blocks\<close>

definition mem_get :: "mem \<Rightarrow> uint64 \<Rightarrow> nat \<Rightarrow> uint8 list" where
  "mem_get m a n = map (\<lambda>i. m (a + of_nat i)) [0..<n]"

definition mem_put :: "mem \<Rightarrow> uint64 \<Rightarrow> uint8 list \<Rightarrow> mem" where
  "mem_put m a bs = (\<lambda>x. if within x a (length bs) then bs ! unat (x - a) else m x)"

definition blk_get :: "bytes \<Rightarrow> nat \<Rightarrow> nat \<Rightarrow> uint8 list" where
  "blk_get d off n = map (\<lambda>i. d (off + i)) [0..<n]"

definition blk_put :: "bytes \<Rightarrow> nat \<Rightarrow> uint8 list \<Rightarrow> bytes" where
  "blk_put d off bs = (\<lambda>i. if off \<le> i \<and> i < off + length bs then bs ! (i - off) else d i)"

lemma length_mem_get [simp]: "length (mem_get m a n) = n"
  by (simp add: mem_get_def)

lemma length_blk_get [simp]: "length (blk_get d off n) = n"
  by (simp add: blk_get_def)

lemma nth_mem_get [simp]: "i < n \<Longrightarrow> mem_get m a n ! i = m (a + of_nat i)"
  by (simp add: mem_get_def)

lemma nth_blk_get [simp]: "i < n \<Longrightarrow> blk_get d off n ! i = d (off + i)"
  by (simp add: blk_get_def)

lemma mem_get_put:
  assumes "length bs \<le> 2 ^ 64"
  shows "mem_get (mem_put m a bs) a (length bs) = bs"
proof (rule nth_equalityI)
  fix i assume "i < length (mem_get (mem_put m a bs) a (length bs))"
  then have i: "i < length bs" by simp
  then have "unat (of_nat i :: uint64) = i"
    using assms by (intro unat_of_nat_small) simp
  with i show "mem_get (mem_put m a bs) a (length bs) ! i = bs ! i"
    by (simp add: mem_put_def within_def)
qed simp

lemma blk_get_put [simp]: "blk_get (blk_put d off bs) off (length bs) = bs"
  by (auto simp: blk_put_def intro: nth_equalityI)

lemma blk_get_put_eq: "length bs = n \<Longrightarrow> blk_get (blk_put d off bs) off n = bs"
  by auto

lemma blk_get_put_disjoint:
  "off + length bs \<le> off' \<or> off' + n \<le> off \<Longrightarrow> blk_get (blk_put d off bs) off' n = blk_get d off' n"
  by (auto simp: blk_put_def intro!: nth_equalityI)

lemma blk_put_get [simp]: "blk_put d off (blk_get d off n) = d"
  by (rule ext) (auto simp: blk_put_def)

section \<open>Typed loads and stores\<close>

definition ld64 :: "mem \<Rightarrow> uint64 \<Rightarrow> uint64" where
  "ld64 m a = word_of_bytes (mem_get m a 8)"

definition sd64 :: "mem \<Rightarrow> uint64 \<Rightarrow> uint64 \<Rightarrow> mem" where
  "sd64 m a v = mem_put m a (bytes_of_word 8 v)"

lemma ld64_sd64_same [simp]: "ld64 (sd64 m a v) a = v"
  using mem_get_put [of "bytes_of_word 8 v" m a] by (simp add: ld64_def sd64_def word_of_bytes_inverse)

lemma sd64_other: "\<not> within x a 8 \<Longrightarrow> sd64 m a v x = m x"
  by (simp add: sd64_def mem_put_def)

lemma ld64_cong:
  assumes "\<And>x. within x a 8 \<Longrightarrow> m x = m' x"
  shows "ld64 m a = ld64 m' a"
proof -
  have "m (a + of_nat i) = m' (a + of_nat i)" if "i < 8" for i
    using that by (intro assms within_offset) auto
  then have "mem_get m a 8 = mem_get m' a 8" by (auto simp: mem_get_def)
  then show ?thesis by (simp add: ld64_def)
qed

text \<open>16- and 32-bit fields of a block.\<close>

definition ld16 :: "bytes \<Rightarrow> nat \<Rightarrow> uint16" where
  "ld16 d off = word_of_bytes (blk_get d off 2)"

definition sd16 :: "bytes \<Rightarrow> nat \<Rightarrow> uint16 \<Rightarrow> bytes" where
  "sd16 d off v = blk_put d off (bytes_of_word 2 v)"

definition ld32 :: "bytes \<Rightarrow> nat \<Rightarrow> uint32" where
  "ld32 d off = word_of_bytes (blk_get d off 4)"

definition sd32 :: "bytes \<Rightarrow> nat \<Rightarrow> uint32 \<Rightarrow> bytes" where
  "sd32 d off v = blk_put d off (bytes_of_word 4 v)"

lemma ld16_sd16_same [simp]: "ld16 (sd16 d off v) off = v"
  by (simp add: ld16_def sd16_def blk_get_put_eq word_of_bytes_inverse)

lemma ld32_sd32_same [simp]: "ld32 (sd32 d off v) off = v"
  by (simp add: ld32_def sd32_def blk_get_put_eq word_of_bytes_inverse)

lemma ld_sd_disjoint [simp]:
  "off + 2 \<le> off' \<or> off' + 2 \<le> off \<Longrightarrow> ld16 (sd16 d off v) off' = ld16 d off'"
  "off + 2 \<le> off' \<or> off' + 4 \<le> off \<Longrightarrow> ld32 (sd16 d off v) off' = ld32 d off'"
  "off + 4 \<le> off' \<or> off' + 2 \<le> off \<Longrightarrow> ld16 (sd32 d off w) off' = ld16 d off'"
  "off + 4 \<le> off' \<or> off' + 4 \<le> off \<Longrightarrow> ld32 (sd32 d off w) off' = ld32 d off'"
  by (simp_all add: ld16_def ld32_def sd16_def sd32_def blk_get_put_disjoint)

end
