(* ===== verification/Riscv.thy ===== *)
theory Riscv
  imports Encoding
begin

text \<open>
  The paging macros of \<open>kernel/riscv.h\<close> and the address-space constants of
  \<open>kernel/memlayout.h\<close>, with the arithmetic of pages, page-table entries and Sv39 indices.
\<close>

section \<open>kernel/riscv.h: paging macros\<close>

definition PGSIZE :: uint64 where "PGSIZE = 4096"

definition PGROUNDUP :: "uint64 \<Rightarrow> uint64" where
  "PGROUNDUP sz = (sz + PGSIZE - 1) AND NOT (PGSIZE - 1)"

definition PGROUNDDOWN :: "uint64 \<Rightarrow> uint64" where
  "PGROUNDDOWN a = a AND NOT (PGSIZE - 1)"

definition PTE_V :: uint64 where "PTE_V = push_bit 0 1"
definition PTE_R :: uint64 where "PTE_R = push_bit 1 1"
definition PTE_W :: uint64 where "PTE_W = push_bit 2 1"
definition PTE_X :: uint64 where "PTE_X = push_bit 3 1"
definition PTE_U :: uint64 where "PTE_U = push_bit 4 1"

definition PA2PTE :: "uint64 \<Rightarrow> uint64" where
  "PA2PTE pa = push_bit 10 (drop_bit 12 pa)"

definition PTE2PA :: "uint64 \<Rightarrow> uint64" where
  "PTE2PA pte = push_bit 12 (drop_bit 10 pte)"

definition PTE_FLAGS :: "uint64 \<Rightarrow> uint64" where
  "PTE_FLAGS pte = pte AND 0x3FF"

definition PXSHIFT :: "nat \<Rightarrow> nat" where
  "PXSHIFT level = 12 + 9 * level"

definition PX :: "nat \<Rightarrow> uint64 \<Rightarrow> uint64" where
  "PX level va = drop_bit (PXSHIFT level) va AND 0x1FF"

definition MAXVA :: uint64 where
  "MAXVA = push_bit (9 + 9 + 9 + 12 - 1) 1"

definition MAKE_SATP :: "uint64 \<Rightarrow> uint64" where
  "MAKE_SATP pagetable = push_bit 60 8 OR drop_bit 12 pagetable"

definition SSTATUS_SPP :: uint64 where "SSTATUS_SPP = push_bit 8 1"
definition SSTATUS_SPIE :: uint64 where "SSTATUS_SPIE = push_bit 5 1"
definition SSTATUS_SIE :: uint64 where "SSTATUS_SIE = push_bit 1 1"

section \<open>kernel/memlayout.h\<close>

definition UART0 :: uint64 where "UART0 = 0x10000000"
definition UART0_IRQ :: uint32 where "UART0_IRQ = 10"
definition VIRTIO0 :: uint64 where "VIRTIO0 = 0x10001000"
definition VIRTIO0_IRQ :: uint32 where "VIRTIO0_IRQ = 1"
definition PLIC :: uint64 where "PLIC = 0x0c000000"
definition KERNBASE :: uint64 where "KERNBASE = 0x80000000"
definition PHYSTOP :: uint64 where "PHYSTOP = KERNBASE + 128 * 1024 * 1024"
definition TRAMPOLINE :: uint64 where "TRAMPOLINE = MAXVA - PGSIZE"
definition TRAPFRAME :: uint64 where "TRAPFRAME = TRAMPOLINE - PGSIZE"

definition KSTACK :: "nat \<Rightarrow> uint64" where
  "KSTACK p = TRAMPOLINE - (of_nat p + 1) * 2 * PGSIZE"

lemmas pte_flag_defs = PTE_V_def PTE_R_def PTE_W_def PTE_X_def PTE_U_def
lemmas layout_defs = UART0_def VIRTIO0_def PLIC_def KERNBASE_def PHYSTOP_def
  TRAMPOLINE_def TRAPFRAME_def MAXVA_def PGSIZE_def

section \<open>Pages\<close>

text \<open>\<open>pa % PGSIZE == 0\<close>\<close>

definition aligned :: "uint64 \<Rightarrow> bool" where
  "aligned a \<longleftrightarrow> a mod PGSIZE = 0"

lemma aligned_iff_dvd: "aligned a \<longleftrightarrow> 4096 dvd unat a"
  by (simp add: aligned_def PGSIZE_def word_unat_eq_iff unat_mod_distrib dvd_eq_mod_eq_0)

lemma PGSIZE_mask: "PGSIZE - 1 = mask 12"
  by (simp add: PGSIZE_def mask_eq_exp_minus_1)

lemma aligned_iff_mask: "aligned a \<longleftrightarrow> a AND mask 12 = 0"
  using and_mask_dvd_nat [of 12 a] by (simp add: aligned_iff_dvd)

lemma aligned_iff_bits: "aligned a \<longleftrightarrow> (\<forall>n<12. \<not> bit a n)"
proof
  assume "aligned a"
  then have *: "bit (a AND mask 12) n = bit (0 :: uint64) n" for n
    by (simp add: aligned_iff_mask)
  show "\<forall>n<12. \<not> bit a n"
  proof (intro allI impI)
    fix n :: nat assume "n < 12"
    with * [of n] show "\<not> bit a n"
      by (simp add: bit_and_iff bit_mask_iff)
  qed
next
  assume "\<forall>n<12. \<not> bit a n"
  then show "aligned a"
    unfolding aligned_iff_mask by (intro bit_word_eqI) (auto simp: bit_and_iff bit_mask_iff)
qed

lemma PGROUNDDOWN_aligned [simp]: "aligned (PGROUNDDOWN a)"
  by (simp add: aligned_iff_bits PGROUNDDOWN_def PGSIZE_mask bit_simps)

lemma PGROUNDUP_aligned [simp]: "aligned (PGROUNDUP a)"
  by (simp add: aligned_iff_bits PGROUNDUP_def PGSIZE_mask bit_simps)

lemma PGROUNDDOWN_id: "aligned a \<Longrightarrow> PGROUNDDOWN a = a"
  unfolding PGROUNDDOWN_def PGSIZE_mask aligned_iff_bits
  by (rule bit_word_eqI) (auto simp: bit_simps)

lemma aligned_room: "aligned a \<Longrightarrow> unat a + 4096 \<le> 2 ^ 64"
proof -
  assume "aligned a"
  then obtain k where k: "unat a = 4096 * k" by (auto simp: aligned_iff_dvd)
  moreover have "unat a < 2 ^ 64" using unsigned_less [of a] by simp
  ultimately show ?thesis by auto
qed

lemma unat_PGROUNDDOWN: "unat (PGROUNDDOWN a) = unat a div 4096 * 4096"
proof -
  have "PGROUNDDOWN a = push_bit 12 (drop_bit 12 a)"
    unfolding PGROUNDDOWN_def PGSIZE_mask by (rule bit_word_eqI) (auto simp: bit_simps)
  then have "unat (PGROUNDDOWN a) = take_bit 64 (push_bit 12 (drop_bit 12 (unat a)))"
    by (simp only: unsigned_push_bit_eq unat_drop_bit_eq) simp
  moreover have "unat a div 4096 * 4096 < 2 ^ 64"
    using unsigned_less [of a, where ?'a = nat] by simp
  ultimately show ?thesis
    by (simp add: drop_bit_eq_div push_bit_eq_mult take_bit_nat_eq_self)
qed

lemma unat_PGROUNDUP:
  assumes "unat a + 4095 < 2 ^ 64"
  shows "unat (PGROUNDUP a) = (unat a + 4095) div 4096 * 4096"
proof -
  have "PGROUNDUP a = PGROUNDDOWN (a + 4095)"
    by (simp add: PGROUNDUP_def PGROUNDDOWN_def PGSIZE_def algebra_simps)
  moreover have "unat (a + 4095) = unat a + 4095"
    using assms unat_add_of_nat [of a 4095] by simp
  ultimately show ?thesis by (simp add: unat_PGROUNDDOWN)
qed

text \<open>The addresses of the page at \<open>p\<close>.\<close>

abbreviation in_page :: "uint64 \<Rightarrow> uint64 \<Rightarrow> bool" where
  "in_page x p \<equiv> within x p 4096"

lemma within_nowrap:
  assumes "unat a + n \<le> 2 ^ 64"
  shows "within x a n \<longleftrightarrow> unat a \<le> unat x \<and> unat x < unat a + n"
proof (cases "a \<le> x")
  case True
  then show ?thesis by (auto simp: within_def unat_sub word_le_nat_alt)
next
  case False
  then have lt: "unat x < unat a" by (simp add: word_le_nat_alt)
  then have "unat (x - a) = unat x + 2 ^ 64 - unat a"
    using unat_sub_if' [of x a] by simp
  with lt show ?thesis using assms by (simp add: within_def)
qed

lemma in_page_iff:
  assumes "aligned p"
  shows "in_page x p \<longleftrightarrow> PGROUNDDOWN x = p"
proof -
  from assms obtain k where k: "unat p = 4096 * k" by (auto simp: aligned_iff_dvd)
  have "in_page x p \<longleftrightarrow> unat p \<le> unat x \<and> unat x < unat p + 4096"
    using aligned_room [OF assms] by (rule within_nowrap)
  also have "\<dots> \<longleftrightarrow> unat x div 4096 * 4096 = unat p"
    unfolding k by auto
  also have "\<dots> \<longleftrightarrow> PGROUNDDOWN x = p"
    by (simp add: unat_PGROUNDDOWN word_unat_eq_iff)
  finally show ?thesis .
qed

lemma pages_disjoint: "aligned p \<Longrightarrow> aligned q \<Longrightarrow> in_page x p \<Longrightarrow> in_page x q \<Longrightarrow> p = q"
  by (simp add: in_page_iff)

lemma aligned_add:
  assumes "aligned a" "aligned b"
  shows "aligned (a + b)"
proof -
  have "unat (a + b) = (unat a + unat b) mod (4096 * 2 ^ 52)" by (simp add: unat_word_ariths)
  then show ?thesis using assms by (metis aligned_iff_dvd dvd_add dvd_mod dvd_triv_left)
qed

lemma aligned_diff:
  assumes "aligned a" "aligned b"
  shows "aligned (a - b)"
proof -
  have "unat (a - b) = (if unat b \<le> unat a then unat a - unat b else unat a + 4096 * 2 ^ 52 - unat b)"
    by (simp add: unat_sub_if')
  then show ?thesis
    using assms by (auto simp: aligned_iff_dvd intro!: dvd_diff_nat dvd_add)
qed

section \<open>Page-table entries\<close>

lemma PTE2PA_mk:
  assumes "aligned pa" and "drop_bit 56 pa = 0" and "drop_bit 10 fl = 0"
  shows "PTE2PA (PA2PTE pa OR fl) = pa"
proof (rule bit_word_eqI)
  fix n assume n: "n < LENGTH(64)"
  have lo: "\<not> bit pa n" if "n < 12" using assms(1) that by (simp add: aligned_iff_bits)
  have hi: "\<not> bit pa n" if "56 \<le> n" using assms(2) that by (simp add: drop_bit_0_bits)
  have fl: "\<not> bit fl (n - 2)" if "12 \<le> n" using assms(3) that by (simp add: drop_bit_0_bits)
  have "10 + (n - 12) = n - 2" if "12 \<le> n" using that by simp
  then show "bit (PTE2PA (PA2PTE pa OR fl)) n = bit pa n"
    using n lo hi fl by (cases "n < 12") (auto simp: PTE2PA_def PA2PTE_def bit_simps)
qed

lemma bit_PA2PTE_low: "n < 10 \<Longrightarrow> \<not> bit (PA2PTE pa) n"
  by (simp add: PA2PTE_def bit_simps)

lemma PTE_FLAGS_mk:
  assumes "drop_bit 10 fl = 0"
  shows "PTE_FLAGS (PA2PTE pa OR fl) = fl"
proof -
  have m: "(0x3FF :: uint64) = mask 10" by (simp add: mask_eq_exp_minus_1)
  show ?thesis
    unfolding PTE_FLAGS_def m
  proof (rule bit_word_eqI)
    fix n assume "n < LENGTH(64)"
    then show "bit ((PA2PTE pa OR fl) AND mask 10) n = bit fl n"
      using assms bit_PA2PTE_low [of n pa]
      by (cases "n < 10") (auto simp: bit_and_iff bit_or_iff bit_mask_iff drop_bit_0_bits)
  qed
qed

lemma bit_push_one: "bit (push_bit k 1 :: uint64) n \<longleftrightarrow> n = k \<and> k < 64"
  by (auto simp: bit_exp_iff possible_bit_word)

lemma bit_PTE_flags [simp]:
  "bit PTE_V n \<longleftrightarrow> n = 0" "bit PTE_R n \<longleftrightarrow> n = 1" "bit PTE_W n \<longleftrightarrow> n = 2"
  "bit PTE_X n \<longleftrightarrow> n = 3" "bit PTE_U n \<longleftrightarrow> n = 4"
  unfolding pte_flag_defs bit_push_one by auto

text \<open>\<open>pte & PTE_V\<close> and its kin as tests of one bit.\<close>

lemma and_single_bit:
  assumes "\<And>n. bit f n \<longleftrightarrow> n = k"
  shows "p AND f \<noteq> 0 \<longleftrightarrow> bit p k"
proof
  assume "p AND f \<noteq> 0"
  then obtain n where "bit (p AND f) n" by (auto simp: bit_eq_iff)
  then show "bit p k" using assms by (auto simp: bit_and_iff)
next
  assume "bit p k"
  then have "bit (p AND f) k" using assms by (simp add: bit_and_iff)
  then show "p AND f \<noteq> 0" by auto
qed

lemma and_PTE_iff:
  "p AND PTE_V \<noteq> 0 \<longleftrightarrow> bit p 0" "p AND PTE_R \<noteq> 0 \<longleftrightarrow> bit p 1" "p AND PTE_W \<noteq> 0 \<longleftrightarrow> bit p 2"
  "p AND PTE_X \<noteq> 0 \<longleftrightarrow> bit p 3" "p AND PTE_U \<noteq> 0 \<longleftrightarrow> bit p 4"
  by (rule and_single_bit; simp)+

lemma and_PTE_eq_0_iff:
  "p AND PTE_V = 0 \<longleftrightarrow> \<not> bit p 0" "p AND PTE_R = 0 \<longleftrightarrow> \<not> bit p 1" "p AND PTE_W = 0 \<longleftrightarrow> \<not> bit p 2"
  "p AND PTE_X = 0 \<longleftrightarrow> \<not> bit p 3" "p AND PTE_U = 0 \<longleftrightarrow> \<not> bit p 4"
  using and_PTE_iff by blast+

section \<open>Sv39 indices\<close>

lemma PX_mask: "PX l va = drop_bit (PXSHIFT l) va AND mask 9"
  by (simp add: PX_def mask_eq_exp_minus_1)

lemma bit_PX: "bit (PX l va) k \<longleftrightarrow> k < 9 \<and> bit va (12 + 9 * l + k)"
  by (auto simp: PX_mask PXSHIFT_def bit_and_iff bit_mask_iff bit_drop_bit_eq possible_bit_word)

lemma PX_less: "unat (PX l va) < 512"
proof -
  have "drop_bit 9 (PX l va) = 0" by (simp add: drop_bit_0_bits bit_PX)
  then show ?thesis by (simp add: drop_bit_0_less)
qed

lemma PX_inj:
  assumes "aligned va" "aligned va'" "va < MAXVA" "va' < MAXVA"
    and "\<And>l. l \<le> 2 \<Longrightarrow> PX l va = PX l va'"
  shows "va = va'"
proof (rule bit_word_eqI)
  fix n assume n: "n < LENGTH(64)"
  have max: "drop_bit 38 a = 0" if "a < MAXVA" for a :: uint64
    using that by (simp add: drop_bit_0_less MAXVA_def word_less_nat_alt)
  consider "n < 12" | "38 \<le> n" | "12 \<le> n" "n < 38" by linarith
  then show "bit va n = bit va' n"
  proof cases
    case 1
    with assms(1,2) show ?thesis by (simp add: aligned_iff_bits)
  next
    case 2
    with max assms(3,4) show ?thesis by (simp add: drop_bit_0_bits)
  next
    case 3
    let ?l = "(n - 12) div 9" and ?k = "(n - 12) mod 9"
    have "12 + 9 * ?l + ?k = n" using 3 by simp
    moreover have "?l \<le> 2" using 3 by simp
    then have "bit (PX ?l va) ?k = bit (PX ?l va') ?k" using assms(5) by simp
    ultimately show ?thesis by (simp add: bit_PX)
  qed
qed

end
