(* ===== verification/Cstring.thy ===== *)
theory Cstring
  imports Prelude
begin

text \<open>
  \<open>kernel/string.c\<close> and the string part of \<open>user/ulib.c\<close>. The routines that write through
  pointers which may overlap (\<open>memset\<close>, \<open>memmove\<close>) work on the byte-addressed memory; the
  routines on strings work on the bytes seen from a pointer (\<^typ>\<open>bytes\<close>), which covers both
  kernel arrays and memory (\<open>view m p\<close>). Each loop is a recursion on the count it decrements;
  \<open>strlen\<close>, whose loop has no count, is a partial function.
\<close>

section \<open>memset and memmove (kernel/string.c)\<close>

text \<open>\<open>memset_loop m dst c k\<close>: the memory after the first \<open>k\<close> rounds of the loop.\<close>

primrec memset_loop :: "mem \<Rightarrow> uint64 \<Rightarrow> uint8 \<Rightarrow> nat \<Rightarrow> mem" where
  "memset_loop m dst c 0 = m"
| "memset_loop m dst c (Suc i) = (memset_loop m dst c i)(dst + of_nat i := c)"

definition memset :: "mem \<Rightarrow> uint64 \<Rightarrow> uint32 \<Rightarrow> uint32 \<Rightarrow> mem" where
  "memset m dst c n = memset_loop m dst (ucast c) (unat n)"

text \<open>\<open>while(n-- > 0) *d++ = *s++;\<close> and \<open>while(n-- > 0) *--d = *--s;\<close>\<close>

primrec copy_up :: "nat \<Rightarrow> mem \<Rightarrow> uint64 \<Rightarrow> uint64 \<Rightarrow> mem" where
  "copy_up 0 m d s = m"
| "copy_up (Suc n) m d s = copy_up n (m(d := m s)) (d + 1) (s + 1)"

primrec copy_down :: "nat \<Rightarrow> mem \<Rightarrow> uint64 \<Rightarrow> uint64 \<Rightarrow> mem" where
  "copy_down 0 m d s = m"
| "copy_down (Suc n) m d s = copy_down n (m(d - 1 := m (s - 1))) (d - 1) (s - 1)"

definition memmove :: "mem \<Rightarrow> uint64 \<Rightarrow> uint64 \<Rightarrow> uint32 \<Rightarrow> mem" where
  "memmove m dst src n =
     (if n = 0 then m
      else if src < dst \<and> src + ucast n > dst
        then copy_down (unat n) m (dst + ucast n) (src + ucast n)
        else copy_up (unat n) m dst src)"

text \<open>\<open>memcpy exists to placate GCC.  Use memmove.\<close>\<close>

definition memcpy :: "mem \<Rightarrow> uint64 \<Rightarrow> uint64 \<Rightarrow> uint32 \<Rightarrow> mem" where
  "memcpy m dst src n = memmove m dst src n"

text \<open>The variant of \<open>user/ulib.c\<close>, with a signed count and another test for the direction.\<close>

definition user_memmove :: "mem \<Rightarrow> uint64 \<Rightarrow> uint64 \<Rightarrow> int \<Rightarrow> mem" where
  "user_memmove m vdst vsrc n =
     (if vsrc > vdst then copy_up (nat n) m vdst vsrc
      else copy_down (nat n) m (vdst + of_int n) (vsrc + of_int n))"

section \<open>Comparison and string routines (kernel/string.c)\<close>

text \<open>C promotes an unsigned char to int before it subtracts.\<close>

definition byte_diff :: "uint8 \<Rightarrow> uint8 \<Rightarrow> int" where
  "byte_diff a b = uint a - uint b"

fun memcmp_from :: "bytes \<Rightarrow> bytes \<Rightarrow> nat \<Rightarrow> nat \<Rightarrow> int" where
  "memcmp_from s1 s2 i 0 = 0"
| "memcmp_from s1 s2 i (Suc n) =
     (if s1 i \<noteq> s2 i then byte_diff (s1 i) (s2 i) else memcmp_from s1 s2 (Suc i) n)"

definition memcmp :: "bytes \<Rightarrow> bytes \<Rightarrow> nat \<Rightarrow> int" where
  "memcmp s1 s2 n = memcmp_from s1 s2 0 n"

fun strncmp_from :: "bytes \<Rightarrow> bytes \<Rightarrow> nat \<Rightarrow> nat \<Rightarrow> int" where
  "strncmp_from p q i 0 = 0"
| "strncmp_from p q i (Suc n) =
     (if p i \<noteq> 0 \<and> p i = q i then strncmp_from p q (Suc i) n else byte_diff (p i) (q i))"

definition strncmp :: "bytes \<Rightarrow> bytes \<Rightarrow> nat \<Rightarrow> int" where
  "strncmp p q n = strncmp_from p q 0 n"

text \<open>
  \<open>strncpy\<close>: the first loop copies up to and including the NUL, the second fills with zeroes.
  The counters \<open>i\<close> and \<open>n\<close> are the positions of \<open>s\<close>/\<open>t\<close> and the rounds that are left.
\<close>

primrec zero_fill :: "bytes \<Rightarrow> nat \<Rightarrow> nat \<Rightarrow> bytes" where
  "zero_fill s i 0 = s"
| "zero_fill s i (Suc n) = zero_fill (s(i := 0)) (Suc i) n"

fun strncpy_from :: "bytes \<Rightarrow> bytes \<Rightarrow> nat \<Rightarrow> nat \<Rightarrow> bytes" where
  "strncpy_from s t i 0 = s"
| "strncpy_from s t i (Suc n) =
     (let s' = s(i := t i) in
      if t i \<noteq> 0 then strncpy_from s' t (Suc i) n else zero_fill s' (Suc i) n)"

definition strncpy :: "bytes \<Rightarrow> bytes \<Rightarrow> int \<Rightarrow> bytes" where
  "strncpy s t n = strncpy_from s t 0 (nat n)"

text \<open>\<open>safestrcpy\<close>: \<open>safestrcpy_from\<close> is the loop, entered with \<open>n - 1\<close> rounds left.\<close>

fun safestrcpy_from :: "bytes \<Rightarrow> bytes \<Rightarrow> nat \<Rightarrow> nat \<Rightarrow> bytes" where
  "safestrcpy_from s t i 0 = s(i := 0)"
| "safestrcpy_from s t i (Suc n) =
     (let s' = s(i := t i) in
      if t i \<noteq> 0 then safestrcpy_from s' t (Suc i) n else s'(Suc i := 0))"

definition safestrcpy :: "bytes \<Rightarrow> bytes \<Rightarrow> int \<Rightarrow> bytes" where
  "safestrcpy s t n = (if n \<le> 0 then s else safestrcpy_from s t 0 (nat n - 1))"

partial_function (option) strlen_from :: "bytes \<Rightarrow> nat \<Rightarrow> nat option" where
  "strlen_from s n = (if s n = 0 then Some n else strlen_from s (Suc n))"

definition strlen :: "bytes \<Rightarrow> nat option" where
  "strlen s = strlen_from s 0"

section \<open>What the block routines do\<close>

lemma memset_loop_apply:
  "n \<le> 2 ^ 64 \<Longrightarrow> memset_loop m dst c n x = (if within x dst n then c else m x)"
  by (induction n) (auto simp: within_Suc)

lemma memset_apply: "memset m dst c n x = (if within x dst (unat n) then ucast c else m x)"
proof -
  have "unat n \<le> 2 ^ 64"
    using unsigned_less [of n, where ?'a = nat] by (simp add: less_imp_le)
  then show ?thesis
    by (simp add: memset_def memset_loop_apply)
qed

text \<open>
  One description of a copy for both directions: the destination holds the old bytes of the
  source, every other address is unchanged.
\<close>

definition copied :: "mem \<Rightarrow> uint64 \<Rightarrow> uint64 \<Rightarrow> nat \<Rightarrow> mem" where
  "copied m d s n = (\<lambda>x. if within x d n then m (s + (x - d)) else m x)"


lemma copy_up_apply:
  assumes "n < 2 ^ 64" and "\<And>k. 0 < k \<Longrightarrow> k < n \<Longrightarrow> d \<noteq> s + of_nat k"
  shows "copy_up n m d s = copied m d s n"
  using assms
proof (induction n arbitrary: m d s)
  case 0
  then show ?case by (simp add: copied_def)
next
  case (Suc n)
  have IH: "copy_up n (m(d := m s)) (d + 1) (s + 1) = copied (m(d := m s)) (d + 1) (s + 1) n"
  proof (rule Suc.IH)
    fix k :: nat assume "0 < k" "k < n"
    then have "d \<noteq> s + of_nat k" using Suc.prems(2) by simp
    then show "d + 1 \<noteq> s + 1 + of_nat k" by (simp add: algebra_simps)
  qed (use Suc.prems in simp)
  have "copied (m(d := m s)) (d + 1) (s + 1) n x = copied m d s (Suc n) x" for x
  proof (cases "within x (d + 1) n")
    case True
    then obtain k where k: "k < n" "x = d + 1 + of_nat k" by (rule withinE)
    then have "d \<noteq> s + of_nat (Suc k)" using Suc.prems(2) [of "Suc k"] by simp
    with k True Suc.prems(1) show ?thesis
      by (auto simp: copied_def within_Suc_left algebra_simps)
  next
    case False
    with Suc.prems(1) show ?thesis
      by (auto simp: copied_def within_Suc_left)
  qed
  with IH show ?case by auto
qed

lemma copy_down_apply:
  assumes "n < 2 ^ 64" and "\<And>k. 0 < k \<Longrightarrow> k < n \<Longrightarrow> s \<noteq> d + of_nat k"
  shows "copy_down n m (d + of_nat n) (s + of_nat n) = copied m d s n"
  using assms
proof (induction n arbitrary: m)
  case 0
  then show ?case by (simp add: copied_def)
next
  case (Suc n)
  let ?m = "m(d + of_nat n := m (s + of_nat n))"
  have "copy_down n ?m (d + of_nat n) (s + of_nat n) = copied ?m d s n"
    by (rule Suc.IH) (use Suc.prems in auto)
  moreover have "copied ?m d s n x = copied m d s (Suc n) x" for x
  proof (cases "within x d n")
    case True
    then obtain k where k: "k < n" "x = d + of_nat k" by (rule withinE)
    have "s \<noteq> d + of_nat (n - k)" using k Suc.prems(2) [of "n - k"] by simp
    then have "s + of_nat k \<noteq> d + of_nat n"
      using k by (auto simp: of_nat_diff algebra_simps)
    with k True Suc.prems(1) show ?thesis
      by (auto simp: copied_def within_Suc)
  next
    case False
    with Suc.prems(1) show ?thesis by (auto simp: copied_def within_Suc)
  qed
  ultimately show ?case by auto
qed

lemma add_of_nat_neq:
  fixes a b :: uint64
  assumes "unat a + n < 2 ^ 64" and "k < n" and "b \<le> a \<or> unat a + n \<le> unat b" and "0 < k"
  shows "b \<noteq> a + of_nat k"
proof -
  have "unat (a + of_nat k) = unat a + k"
    using assms by (intro unat_add_of_nat) simp
  then have "unat b \<noteq> unat (a + of_nat k)"
    using assms by (auto simp: word_le_nat_alt)
  then show ?thesis by auto
qed

text \<open>
  C31. For regions that do not run off the end of the address space, the kernel's \<open>memmove\<close> leaves in
  the destination exactly the bytes the source held before the call and changes nothing else,
  however the two regions overlap; the user library's version gives the same memory.
\<close>

theorem memmove_correct:
  assumes src: "unat src + unat n < 2 ^ 64" and dst: "unat dst + unat n < 2 ^ 64"
  shows "memmove m dst src n = copied m dst src (unat n) \<and>
         user_memmove m dst src (uint n) = copied m dst src (unat n)"
proof -
  have n: "unat n < 2 ^ 64" using src by simp
  have send: "unat (src + of_nat (unat n)) = unat src + unat n"
    using src by (intro unat_add_of_nat) simp
  have up: "copy_up (unat n) m dst src = copied m dst src (unat n)"
    if "dst \<le> src \<or> unat src + unat n \<le> unat dst"
    by (rule copy_up_apply [OF n], rule add_of_nat_neq [OF src]) (use that in auto)
  have down: "copy_down (unat n) m (dst + of_nat (unat n)) (src + of_nat (unat n)) =
              copied m dst src (unat n)" if "src \<le> dst"
    by (rule copy_down_apply [OF n], rule add_of_nat_neq [OF dst]) (use that in auto)
  have dir: "src < dst \<and> src + ucast n > dst \<longleftrightarrow>
             unat src < unat dst \<and> unat dst < unat src + unat n"
    unfolding word_less_nat_alt using send by (simp add: of_nat_unat)
  have "memmove m dst src n = copied m dst src (unat n)"
  proof (cases "src < dst \<and> src + ucast n > dst")
    case True
    then have "n \<noteq> 0" and "src \<le> dst" by auto
    with True show ?thesis
      using down by (simp add: memmove_def)
  next
    case False
    then have "dst \<le> src \<or> unat src + unat n \<le> unat dst"
      unfolding dir by (simp add: word_le_nat_alt) linarith
    from up [OF this] False show ?thesis
      by (auto simp: memmove_def)
  qed
  moreover have "user_memmove m dst src (uint n) = copied m dst src (unat n)"
  proof (cases "src > dst")
    case True
    then show ?thesis using up by (simp add: user_memmove_def less_imp_le)
  next
    case False
    with down [OF leI [OF False]] show ?thesis
      by (simp add: user_memmove_def)
  qed
  ultimately show ?thesis ..
qed


theorem memmove_correct_witness:
  "unat (100 :: uint64) + unat (8 :: uint32) < 2 ^ 64 \<and> unat (104 :: uint64) + unat (8 :: uint32) < 2 ^ 64 \<and>
   memmove (\<lambda>x. ucast x) 104 100 8 = copied (\<lambda>x. ucast x) 104 100 8 \<and>
   user_memmove (\<lambda>x. ucast x) 104 100 8 = copied (\<lambda>x. ucast x) 104 100 8"
  using memmove_correct [of 100 8 104 "\<lambda>x. ucast x"] by simp

section \<open>What the string routines do\<close>

text \<open>\<open>live t i\<close>: no NUL before position \<open>i\<close>, so the copy and compare loops reach it.\<close>

definition live :: "bytes \<Rightarrow> nat \<Rightarrow> bool" where
  "live t i \<longleftrightarrow> (\<forall>j<i. t j \<noteq> 0)"

lemma live_0 [simp]: "live t 0"
  by (simp add: live_def)

lemma live_Suc [simp]: "live t (Suc i) \<longleftrightarrow> live t i \<and> t i \<noteq> 0"
  by (auto simp: live_def less_Suc_eq)

lemma byte_diff_0 [simp]: "byte_diff a b = 0 \<longleftrightarrow> a = b"
  by (auto simp: byte_diff_def word_uint_eq_iff)

lemma memcmp_eq_0: "memcmp s t n = 0 \<longleftrightarrow> (\<forall>i<n. s i = t i)"
proof -
  have "memcmp_from s t k n = 0 \<longleftrightarrow> (\<forall>i. k \<le> i \<and> i < k + n \<longrightarrow> s i = t i)" for k
  proof (induction n arbitrary: k)
    case (Suc n)
    have "(\<forall>i. k \<le> i \<and> i < k + Suc n \<longrightarrow> s i = t i) \<longleftrightarrow>
          s k = t k \<and> (\<forall>i. Suc k \<le> i \<and> i < Suc k + n \<longrightarrow> s i = t i)"
      by (metis Suc_leI add_Suc_right add_Suc_shift le_add1 le_eq_less_or_eq less_add_Suc1 Suc_le_lessD)
    with Suc show ?case by simp
  qed auto
  from this [of 0] show ?thesis by (simp add: memcmp_def)
qed

lemma strncmp_from_eq_0:
  "live p k \<Longrightarrow> strncmp_from p q k n = 0 \<longleftrightarrow> (\<forall>i. k \<le> i \<and> i < k + n \<and> live p i \<longrightarrow> p i = q i)"
proof (induction n arbitrary: k)
  case (Suc n)
  have split: "(\<forall>i. k \<le> i \<and> i < k + Suc n \<and> live p i \<longrightarrow> p i = q i) \<longleftrightarrow>
        p k = q k \<and> (\<forall>i. Suc k \<le> i \<and> i < Suc k + n \<and> live p i \<longrightarrow> p i = q i)" (is "?L \<longleftrightarrow> ?R")
  proof
    assume ?L with Suc.prems show ?R by auto
  next
    assume r: ?R show ?L
    proof (intro allI impI)
      fix i assume "k \<le> i \<and> i < k + Suc n \<and> live p i"
      with r show "p i = q i" by (cases "i = k") auto
    qed
  qed
  show ?case
  proof (cases "p k \<noteq> 0 \<and> p k = q k")
    case True
    with Suc.IH [of "Suc k"] Suc.prems split show ?thesis by auto
  next
    case False
    have "live p i \<Longrightarrow> \<not> Suc k \<le> i" if "p k = 0" for i
      using that by (auto simp: live_def Suc_le_eq)
    with False split show ?thesis by auto
  qed
qed auto

text \<open>
  \<open>strncmp\<close> returns 0 exactly when the two strings agree at every position below \<open>n\<close> that the
  first string's NUL has not cut off: bytes after the NUL, and after \<open>n\<close>, play no part.
\<close>

theorem strncmp_eq_0_iff: "strncmp p q n = 0 \<longleftrightarrow> (\<forall>i<n. live p i \<longrightarrow> p i = q i)"
  using strncmp_from_eq_0 [of p 0 q n] by (auto simp: strncmp_def)

theorem strncmp_eq_0_iff_witness: "strncmp (\<lambda>i. if i = 2 then 0 else 65) (\<lambda>i. if i = 2 then 0 else if i < 2 then 65 else 66) 14 = 0"
  using strncmp_eq_0_iff [of "\<lambda>i. if i = 2 then 0 else 65" "\<lambda>i. if i = 2 then 0 else if i < 2 then 65 else 66" 14]
  by (auto simp: live_def)

lemma zero_fill_apply: "zero_fill s i n k = (if i \<le> k \<and> k < i + n then 0 else s k)"
  by (induction n arbitrary: s i) auto

lemma strncpy_from_apply:
  "live t i \<Longrightarrow> strncpy_from s t i n k =
     (if i \<le> k \<and> k < i + n then (if live t k then t k else 0) else s k)"
proof (induction n arbitrary: s i)
  case (Suc n)
  show ?case
  proof (cases "t i = 0")
    case True
    then have "\<not> live t k" if "i < k" using that by (auto simp: live_def)
    with True Suc.prems show ?thesis
      by (auto simp: zero_fill_apply Let_def le_less)
  next
    case False
    with Suc show ?thesis by (auto simp: Let_def le_less)
  qed
qed auto

text \<open>\<open>strncpy\<close> fills exactly \<open>n\<close> bytes: the string and then zeroes, with no NUL if it is too long.\<close>

lemma strncpy_apply:
  "strncpy s t n k = (if k < nat n then (if live t k then t k else 0) else s k)"
  by (simp add: strncpy_def strncpy_from_apply)

text \<open>
  \<open>stops t r i k n\<close>: the copy \<open>r\<close> of \<open>t\<close> that started at \<open>i\<close> with room for \<open>n\<close> more bytes ends with
  its NUL at \<open>k\<close>, either because \<open>t\<close> ends there or because the room is used up.
\<close>

definition stops :: "bytes \<Rightarrow> bytes \<Rightarrow> nat \<Rightarrow> nat \<Rightarrow> nat \<Rightarrow> bool" where
  "stops t r i k n \<longleftrightarrow> i \<le> k \<and> k \<le> i + n \<and> r k = 0 \<and> (k < i + n \<longrightarrow> t k = 0) \<and>
     (\<forall>j. i \<le> j \<and> j < k \<longrightarrow> r j = t j \<and> t j \<noteq> 0)"

lemma safestrcpy_from_frame:
  "k < i \<or> i + n < k \<Longrightarrow> safestrcpy_from s t i n k = s k"
  by (induction s t i n rule: safestrcpy_from.induct) (auto simp: Let_def)

lemma safestrcpy_from_stops: "\<exists>k. stops t (safestrcpy_from s t i n) i k n"
proof (induction s t i n rule: safestrcpy_from.induct)
  case (1 s t i)
  then show ?case by (intro exI [of _ i]) (simp add: stops_def)
next
  case (2 s t i n)
  show ?case
  proof (cases "t i = 0")
    case True
    then show ?thesis
      by (intro exI [of _ i]) (simp add: stops_def)
  next
    case False
    let ?s = "s(i := t i)"
    from "2.IH" [OF refl False]
    obtain k where k: "stops t (safestrcpy_from ?s t (Suc i) n) (Suc i) k n" ..
    have "safestrcpy_from ?s t (Suc i) n i = t i"
      by (subst safestrcpy_from_frame) auto
    with k False have "stops t (safestrcpy_from s t i (Suc n)) i k (Suc n)"
      by (auto simp: stops_def Let_def) (metis le_antisym not_less_eq_eq)+
    then show ?thesis ..
  qed
qed

text \<open>
  \<open>safestrcpy\<close> with room for \<open>n > 0\<close> bytes always leaves a NUL-terminated string in the buffer: the
  longest prefix of the source that fits in \<open>n - 1\<close> bytes, then a NUL; it never writes at or
  beyond \<open>n\<close>.
\<close>

theorem safestrcpy_terminates_string:
  assumes "0 < n"
  shows "(\<exists>k. stops t (safestrcpy s t n) 0 k (nat n - 1)) \<and>
         (\<forall>k. nat n \<le> k \<longrightarrow> safestrcpy s t n k = s k)"
  using assms safestrcpy_from_stops [of t s 0 "nat n - 1"]
  by (auto simp: safestrcpy_def safestrcpy_from_frame)

theorem safestrcpy_terminates_string_witness:
  "0 < (16 :: int) \<and> (\<exists>k. stops (\<lambda>_. 65) (safestrcpy (\<lambda>_. 1) (\<lambda>_. 65) 16) 0 k 15)"
  using safestrcpy_terminates_string [of 16 "\<lambda>_. 65" "\<lambda>_. 1"] by simp

lemma strlen_from_Some:
  assumes "i \<le> k" and "s k = 0" and "\<And>j. i \<le> j \<Longrightarrow> j < k \<Longrightarrow> s j \<noteq> 0"
  shows "strlen_from s i = Some k"
  using assms
proof (induction "k - i" arbitrary: i)
  case 0
  then show ?case by (subst strlen_from.simps) simp
next
  case (Suc d)
  then have "s i \<noteq> 0" and "strlen_from s (Suc i) = Some k" by simp_all
  then show ?case by (subst strlen_from.simps) simp
qed

text \<open>
  \<open>strlen\<close> returns the position of the first NUL of a string that has one.
\<close>

lemma strlen_Some: "s k = 0 \<Longrightarrow> live s k \<Longrightarrow> strlen s = Some k"
  by (auto simp: strlen_def live_def intro: strlen_from_Some)

end
