(* ===== verification/Kalloc.thy ===== *)
theory Kalloc
  imports Riscv Cstring
begin

text \<open>
  \<open>kernel/kalloc.c\<close>: the physical page allocator. The free list is threaded through the free pages
  themselves (\<open>struct run\<close> in their first eight bytes), so the state is the physical memory and the
  head pointer. \<open>kmem.lock\<close> makes \<open>kalloc\<close> and \<open>kfree\<close> atomic; each is one function of the state.
  The abstraction is the list of free pages; the interface its clients rely on is the locale
  \<open>page_allocator\<close>.
\<close>

section \<open>State and operations\<close>

text \<open>
  \<open>phys\<close> is the RAM, \<open>freelist\<close> is \<open>kmem.freelist\<close>, \<open>kend\<close> is the linker's \<open>end\<close>, the first
  address after the kernel.
\<close>

record kmem =
  phys :: mem
  freelist :: uint64
  kend :: uint64

definition kfree :: "'a kmem_scheme \<Rightarrow> uint64 \<Rightarrow> 'a kmem_scheme res" where
  "kfree s pa =
     (if pa mod PGSIZE \<noteq> 0 \<or> pa < kend s \<or> pa \<ge> PHYSTOP then Panic ''kfree''
      else let m = memset (phys s) pa 1 4096
           in Ok (s\<lparr>phys := sd64 m pa (freelist s), freelist := pa\<rparr>))"

definition kalloc :: "'a kmem_scheme \<Rightarrow> uint64 \<times> 'a kmem_scheme" where
  "kalloc s =
     (let r = freelist s in
      if r \<noteq> 0
      then (r, s\<lparr>freelist := ld64 (phys s) r, phys := memset (phys s) r 5 4096\<rparr>)
      else (0, s))"

lemma kfree_OkD: "kfree s pa = Ok s' \<Longrightarrow> aligned pa \<and> kend s \<le> pa \<and> pa < PHYSTOP"
  by (auto simp: kfree_def aligned_def split: if_splits)

text \<open>
  The loop of \<open>freerange\<close>. A page at or above \<open>PHYSTOP\<close> makes \<open>kfree\<close> panic, so \<open>p\<close> cannot wrap
  around and the loop ends.
\<close>

function freerange_from :: "'a kmem_scheme \<Rightarrow> uint64 \<Rightarrow> uint64 \<Rightarrow> 'a kmem_scheme res" where
  "freerange_from s p pa_end =
     (if p + PGSIZE \<le> pa_end
      then bindr (kfree s p) (\<lambda>s'. freerange_from s' (p + PGSIZE) pa_end)
      else Ok s)"
  by pat_completeness auto
termination
proof (relation "measure (\<lambda>(s, p, pa_end). unat PHYSTOP + 4096 - unat p)")
  fix s s' :: "'a kmem_scheme" and p pa_end :: uint64
  assume "kfree s p = Ok s'"
  then have "unat p < unat PHYSTOP" by (auto dest: kfree_OkD simp: word_less_nat_alt)
  moreover from this have "unat (p + PGSIZE) = unat p + 4096"
    using unat_add_of_nat [of p 4096] by (simp add: layout_defs)
  ultimately show "((s', p + PGSIZE, pa_end), (s, p, pa_end))
      \<in> measure (\<lambda>(s, p, pa_end). unat PHYSTOP + 4096 - unat p)"
    by simp
qed simp

declare freerange_from.simps [simp del]

definition freerange :: "'a kmem_scheme \<Rightarrow> uint64 \<Rightarrow> uint64 \<Rightarrow> 'a kmem_scheme res" where
  "freerange s pa_start pa_end = freerange_from s (PGROUNDUP pa_start) pa_end"

definition kinit :: "'a kmem_scheme \<Rightarrow> 'a kmem_scheme res" where
  "kinit s = freerange s (kend s) PHYSTOP"

section \<open>The free list as a list of pages\<close>

text \<open>\<open>run_list m p ps\<close>: following \<open>r->next\<close> from \<open>p\<close> visits the pages \<open>ps\<close> and ends at the null pointer.\<close>

primrec run_list :: "mem \<Rightarrow> uint64 \<Rightarrow> uint64 list \<Rightarrow> bool" where
  "run_list m p [] \<longleftrightarrow> p = 0"
| "run_list m p (q # qs) \<longleftrightarrow> p = q \<and> q \<noteq> 0 \<and> run_list m (ld64 m q) qs"

text \<open>A page the allocator may hand out: page-aligned RAM above the kernel.\<close>

definition ram_page :: "'a kmem_scheme \<Rightarrow> uint64 \<Rightarrow> bool" where
  "ram_page s p \<longleftrightarrow> aligned p \<and> kend s \<le> p \<and> p < PHYSTOP"

text \<open>The allocator's invariant, with the free pages in list order.\<close>

definition free_pages :: "'a kmem_scheme \<Rightarrow> uint64 list \<Rightarrow> bool" where
  "free_pages s ps \<longleftrightarrow> 0 < kend s \<and> run_list (phys s) (freelist s) ps \<and> distinct ps \<and>
     (\<forall>p\<in>set ps. ram_page s p)"

lemma ram_page_nonzero: "0 < kend s \<Longrightarrow> ram_page s p \<Longrightarrow> p \<noteq> 0"
  by (auto simp: ram_page_def)

lemma run_list_cong:
  assumes "\<And>p x. p \<in> set ps \<Longrightarrow> in_page x p \<Longrightarrow> m x = m' x"
  shows "run_list m q ps = run_list m' q ps"
  using assms
proof (induction ps arbitrary: q)
  case (Cons p ps)
  have "ld64 m p = ld64 m' p"
    by (rule ld64_cong, rule Cons.prems) (auto simp: within_def)
  with Cons show ?case by (metis list.set_intros(2) run_list.simps(2))
qed simp

lemma run_list_inj: "run_list m q ps \<Longrightarrow> run_list m q qs \<Longrightarrow> ps = qs"
proof (induction ps arbitrary: q qs)
  case Nil
  then show ?case by (cases qs) auto
next
  case (Cons p ps)
  then show ?case by (cases qs) auto
qed

text \<open>The allocator does not look at, or depend on, any page it has handed out.\<close>

lemma free_pages_frame:
  assumes "free_pages s ps" and "\<And>p x. p \<in> set ps \<Longrightarrow> in_page x p \<Longrightarrow> m x = phys s x"
  shows "free_pages (s\<lparr>phys := m\<rparr>) ps"
  using assms run_list_cong [of ps m "phys s"] by (auto simp: free_pages_def ram_page_def)

lemma kalloc_empty: "free_pages s [] \<Longrightarrow> kalloc s = (0, s)"
  by (simp add: free_pages_def kalloc_def)

lemma memset_page [simp]: "memset m p c 4096 x = (if in_page x p then ucast c else m x)"
  by (simp add: memset_apply)

lemma kalloc_Cons:
  assumes "free_pages s (p # ps)"
  shows "\<exists>s'. kalloc s = (p, s') \<and> free_pages s' ps \<and> kend s' = kend s \<and>
           (\<forall>x. \<not> in_page x p \<longrightarrow> phys s' x = phys s x)"
proof -
  let ?m = "memset (phys s) p 5 4096"
  let ?s = "s\<lparr>freelist := ld64 (phys s) p, phys := ?m\<rparr>"
  have f: "run_list (phys s) (ld64 (phys s) p) ps" "freelist s = p" "p \<noteq> 0" "distinct (p # ps)"
    and r: "\<forall>q\<in>set (p # ps). ram_page s q" "0 < kend s"
    using assms by (auto simp: free_pages_def)
  have "?m x = phys s x" if "q \<in> set ps" "in_page x q" for q x
  proof -
    have "\<not> in_page x p"
      using that r f(4) pages_disjoint [of p q x] by (auto simp: ram_page_def)
    then show ?thesis by simp
  qed
  then have "run_list ?m (ld64 (phys s) p) ps"
    using f(1) run_list_cong [of ps ?m "phys s"] by simp
  then have "free_pages ?s ps"
    using f r by (simp add: free_pages_def ram_page_def)
  moreover have "kalloc s = (p, ?s)"
    using f by (simp add: kalloc_def)
  ultimately show ?thesis by auto
qed

lemma kfree_Ok:
  assumes "free_pages s ps" and "ram_page s p" and "p \<notin> set ps"
  shows "\<exists>s'. kfree s p = Ok s' \<and> free_pages s' (p # ps) \<and> kend s' = kend s \<and>
           (\<forall>x. \<not> in_page x p \<longrightarrow> phys s' x = phys s x)"
proof -
  let ?m = "sd64 (memset (phys s) p 1 4096) p (freelist s)"
  let ?s = "s\<lparr>phys := ?m, freelist := p\<rparr>"
  have other: "?m x = phys s x" if "\<not> in_page x p" for x
    using that by (subst sd64_other) (auto simp: within_def)
  have "?m x = phys s x" if "q \<in> set ps" "in_page x q" for q x
  proof (rule other)
    show "\<not> in_page x p"
      using that assms pages_disjoint [of p q x] by (auto simp: free_pages_def ram_page_def)
  qed
  then have "run_list ?m (freelist s) ps"
    using assms(1) run_list_cong [of ps ?m "phys s"] by (simp add: free_pages_def)
  then have "free_pages ?s (p # ps)"
    using assms ram_page_nonzero [of s p] by (auto simp: free_pages_def ram_page_def)
  moreover have "kfree s p = Ok ?s"
    using assms(2) by (auto simp: kfree_def ram_page_def aligned_def Let_def not_le)
  ultimately show ?thesis using other by auto
qed

section \<open>The interface of the allocator\<close>

text \<open>
  What the virtual-memory code relies on: allocation takes the first free page or returns the null
  pointer, release puts a page back, and neither touches the contents of any other page.
\<close>

locale page_allocator =
  fixes alloc :: "'s \<Rightarrow> uint64 \<times> 's"
    and release :: "'s \<Rightarrow> uint64 \<Rightarrow> 's res"
    and frees :: "'s \<Rightarrow> uint64 list \<Rightarrow> bool"
    and usable :: "'s \<Rightarrow> uint64 \<Rightarrow> bool"
    and memory :: "'s \<Rightarrow> mem"
  assumes alloc_Nil: "frees s [] \<Longrightarrow> alloc s = (0, s)"
    and alloc_Cons: "frees s (p # ps) \<Longrightarrow>
          \<exists>s'. alloc s = (p, s') \<and> frees s' ps \<and> usable s' = usable s \<and>
               (\<forall>x. \<not> in_page x p \<longrightarrow> memory s' x = memory s x)"
    and release_Ok: "frees s ps \<Longrightarrow> usable s p \<Longrightarrow> p \<notin> set ps \<Longrightarrow>
          \<exists>s'. release s p = Ok s' \<and> frees s' (p # ps) \<and> usable s' = usable s \<and>
               (\<forall>x. \<not> in_page x p \<longrightarrow> memory s' x = memory s x)"
    and frees_usable: "frees s ps \<Longrightarrow> p \<in> set ps \<Longrightarrow> usable s p"
    and frees_distinct: "frees s ps \<Longrightarrow> distinct ps"
    and usable_aligned: "frees s ps \<Longrightarrow> usable s p \<Longrightarrow> aligned p \<and> p \<noteq> 0"
begin

text \<open>Allocation succeeds exactly when a page is free.\<close>

lemma alloc_zero_iff:
  assumes "frees s ps"
  shows "fst (alloc s) = 0 \<longleftrightarrow> ps = []"
proof (cases ps)
  case Nil
  with assms show ?thesis by (simp add: alloc_Nil)
next
  case (Cons p qs)
  with assms alloc_Cons obtain s' where "alloc s = (p, s')" by blast
  moreover have "p \<noteq> 0"
    using assms Cons usable_aligned frees_usable by (metis list.set_intros(1))
  ultimately show ?thesis using Cons by simp
qed

text \<open>An allocated page is usable and no longer free.\<close>

lemma alloc_fresh:
  assumes "frees s ps" and "alloc s = (p, s')" and "p \<noteq> 0"
  obtains qs where "ps = p # qs" and "frees s' qs" and "usable s' = usable s" and "usable s p"
    and "p \<notin> set qs" and "\<And>x. \<not> in_page x p \<Longrightarrow> memory s' x = memory s x"
proof (cases ps)
  case Nil
  with assms alloc_Nil [of s] that show ?thesis by simp
next
  case (Cons q qs)
  with assms(1) alloc_Cons [of s q qs] obtain t where t: "alloc s = (q, t)" "frees t qs" "usable t = usable s"
      "\<forall>x. \<not> in_page x q \<longrightarrow> memory t x = memory s x" by auto
  moreover have "distinct (q # qs)" and "usable s q"
    using frees_distinct [OF assms(1)] frees_usable [OF assms(1), of q] Cons by auto
  ultimately show ?thesis using assms(2) Cons that by auto
qed

text \<open>A page that was just allocated can be released, and is then the next to be allocated.\<close>

lemma alloc_release:
  assumes "frees s ps" and "alloc s = (p, s')" and "p \<noteq> 0"
  shows "\<exists>t. release s' p = Ok t \<and> frees t ps \<and> fst (alloc t) = p \<and>
             (\<forall>x. \<not> in_page x p \<longrightarrow> memory t x = memory s x)"
proof -
  from assms obtain qs where q: "ps = p # qs" "frees s' qs" "usable s' = usable s" "usable s p" "p \<notin> set qs"
      "\<And>x. \<not> in_page x p \<Longrightarrow> memory s' x = memory s x"
    by (rule alloc_fresh) auto
  with release_Ok [of s' qs p] obtain t where t: "release s' p = Ok t" "frees t (p # qs)"
      "\<forall>x. \<not> in_page x p \<longrightarrow> memory t x = memory s' x" by auto
  moreover have "fst (alloc t) = p"
    using alloc_Cons [OF t(2)] by auto
  ultimately show ?thesis using q by auto
qed

end

interpretation ka: page_allocator kalloc kfree free_pages ram_page phys
proof unfold_locales
  fix s p ps assume "free_pages s (p # ps)"
  from kalloc_Cons [OF this] show "\<exists>s'. kalloc s = (p, s') \<and> free_pages s' ps \<and> ram_page s' = ram_page s \<and>
      (\<forall>x. \<not> in_page x p \<longrightarrow> phys s' x = phys s x)"
    by (auto simp: ram_page_def fun_eq_iff)
next
  fix s ps p assume "free_pages s ps" "ram_page s p" "p \<notin> set ps"
  from kfree_Ok [OF this] show "\<exists>s'. kfree s p = Ok s' \<and> free_pages s' (p # ps) \<and> ram_page s' = ram_page s \<and>
      (\<forall>x. \<not> in_page x p \<longrightarrow> phys s' x = phys s x)"
    by (auto simp: ram_page_def fun_eq_iff)
qed (auto simp: kalloc_empty free_pages_def ram_page_nonzero ram_page_def)

section \<open>Properties\<close>

text \<open>
  C13. Whenever \<open>kalloc\<close> returns a page, that page comes off the free list, is page-aligned RAM above the
  kernel, every other page keeps its contents, and \<open>kfree\<close> of that page succeeds, restores the
  same free list and makes it the next page to be handed out.
\<close>

theorem kalloc_kfree_roundtrip:
  assumes "free_pages s ps" and "kalloc s = (p, s')" and "p \<noteq> 0"
  shows "ps = p # tl ps \<and> free_pages s' (tl ps) \<and> ram_page s p \<and> p \<notin> set (tl ps) \<and>
         (\<forall>x. \<not> in_page x p \<longrightarrow> phys s' x = phys s x) \<and>
         (\<exists>t. kfree s' p = Ok t \<and> free_pages t ps \<and> fst (kalloc t) = p)"
proof -
  from assms obtain qs where "ps = p # qs" "free_pages s' qs" "ram_page s p" "p \<notin> set qs"
      "\<And>x. \<not> in_page x p \<Longrightarrow> phys s' x = phys s x"
    by (rule ka.alloc_fresh) auto
  moreover obtain t where "kfree s' p = Ok t" "free_pages t ps" "fst (kalloc t) = p"
    using ka.alloc_release [OF assms] by blast
  ultimately show ?thesis by auto
qed

text \<open>A one-page free list, for concrete instances.\<close>

definition one_free :: kmem where
  "one_free = \<lparr>phys = (\<lambda>_. 0), freelist = 0x80022000, kend = 0x80022000\<rparr>"

lemma one_free_pages: "free_pages one_free [0x80022000]"
proof -
  have "ld64 (\<lambda>_. 0) 0x80022000 = 0" by (simp add: ld64_def mem_get_def numeral_eq_Suc)
  then show ?thesis
    by (simp add: free_pages_def one_free_def ram_page_def aligned_def layout_defs)
qed

theorem kalloc_kfree_roundtrip_witness:
  "\<exists>t. kfree (snd (kalloc one_free)) 0x80022000 = Ok t \<and> free_pages t [0x80022000]"
proof -
  have "kalloc one_free = (0x80022000, snd (kalloc one_free))"
    by (simp add: kalloc_def one_free_def Let_def)
  from kalloc_kfree_roundtrip [OF one_free_pages this] show ?thesis by auto
qed

text \<open>
  \<open>kalloc\<close> reports exhaustion (the null pointer) exactly when no page is free.
\<close>

theorem kalloc_null_iff: "free_pages s ps \<Longrightarrow> fst (kalloc s) = 0 \<longleftrightarrow> ps = []"
  by (rule ka.alloc_zero_iff)

theorem kalloc_null_iff_witness: "fst (kalloc one_free) \<noteq> 0"
  using kalloc_null_iff [OF one_free_pages] by simp

text \<open>The \<open>n\<close> pages from \<open>p\<close> upwards.\<close>

definition page_run :: "uint64 \<Rightarrow> nat \<Rightarrow> uint64 list" where
  "page_run p n = map (\<lambda>i. p + of_nat i * PGSIZE) [0..<n]"

lemma page_run_Suc: "page_run p (Suc n) = p # page_run (p + PGSIZE) n"
  unfolding page_run_def by (subst upt_conv_Cons) (auto simp: map_Suc_upt [symmetric] algebra_simps simp del: upt_Suc)

lemma freerange_from_pages:
  assumes "free_pages s qs" and "aligned p" and "kend s \<le> p"
    and "unat p + 4096 * n \<le> unat PHYSTOP" and "unat PHYSTOP < unat p + 4096 * Suc n"
    and "\<And>q. q \<in> set qs \<Longrightarrow> q < p"
  shows "\<exists>s'. freerange_from s p PHYSTOP = Ok s' \<and> free_pages s' (rev (page_run p n) @ qs) \<and> kend s' = kend s"
  using assms
proof (induction n arbitrary: s qs p)
  case 0
  have "unat (p + PGSIZE) = unat p + 4096"
    using aligned_room [OF 0(2)] 0(4) unat_add_of_nat [of p 4096] by (simp add: layout_defs)
  with 0 show ?case
    by (subst freerange_from.simps) (simp add: word_le_nat_alt page_run_def)
next
  case (Suc n)
  have u: "unat (p + PGSIZE) = unat p + 4096"
    using Suc.prems(4) unat_add_of_nat [of p 4096] by (simp add: layout_defs)
  have "ram_page s p" "p \<notin> set qs"
    using Suc.prems by (auto simp: ram_page_def word_less_nat_alt)
  then obtain t where t: "kfree s p = Ok t" "free_pages t (p # qs)" "kend t = kend s"
    using kfree_Ok [OF Suc.prems(1)] by blast
  have "\<exists>s'. freerange_from t (p + PGSIZE) PHYSTOP = Ok s' \<and>
          free_pages s' (rev (page_run (p + PGSIZE) n) @ p # qs) \<and> kend s' = kend t"
  proof (rule Suc.IH)
    show "aligned (p + PGSIZE)" using Suc.prems(2) u by (simp add: aligned_iff_dvd)
    show "kend t \<le> p + PGSIZE" using t(3) Suc.prems(3) u by (simp add: word_le_nat_alt)
    show "q < p + PGSIZE" if "q \<in> set (p # qs)" for q
      using that Suc.prems(6) u by (fastforce simp: word_less_nat_alt)
  qed (use t u Suc.prems in auto)
  moreover have "p + PGSIZE \<le> PHYSTOP" using u Suc.prems(4) by (simp add: word_le_nat_alt)
  ultimately show ?case
    using t by (subst freerange_from.simps) (simp add: page_run_Suc)
qed

text \<open>
  C37. After \<open>kinit\<close> the free list holds exactly the whole pages between the end of the kernel and
  \<open>PHYSTOP\<close>, highest address first, and the initialisation does not panic.
\<close>

theorem kinit_frees_all_ram:
  assumes "freelist s = 0" and "0 < kend s" and "kend s \<le> PHYSTOP"
  shows "\<exists>s'. kinit s = Ok s' \<and> kend s' = kend s \<and>
           free_pages s' (rev (page_run (PGROUNDUP (kend s))
              ((unat PHYSTOP - unat (PGROUNDUP (kend s))) div 4096)))"
proof -
  let ?p = "PGROUNDUP (kend s)" and ?n = "(unat PHYSTOP - unat (PGROUNDUP (kend s))) div 4096"
  have top: "unat PHYSTOP = 4096 * 557056" by (simp add: layout_defs)
  have k: "unat (kend s) \<le> unat PHYSTOP" using assms(3) by (simp add: word_le_nat_alt)
  have p: "unat ?p = (unat (kend s) + 4095) div 4096 * 4096"
    using k top by (intro unat_PGROUNDUP) simp
  have "free_pages s []" using assms by (simp add: free_pages_def)
  moreover have "kend s \<le> ?p" unfolding word_le_nat_alt p by linarith
  moreover have "unat ?p + 4096 * ?n \<le> unat PHYSTOP" and "unat PHYSTOP < unat ?p + 4096 * Suc ?n"
    using k top p by auto
  ultimately show ?thesis
    using freerange_from_pages [of s "[]" ?p ?n] by (auto simp: kinit_def freerange_def)
qed

theorem kinit_frees_all_ram_witness:
  "\<exists>s'. kinit \<lparr>phys = (\<lambda>_. 0), freelist = 0, kend = 0x80022000\<rparr> = Ok s' \<and>
        free_pages s' (rev (page_run 0x80022000 32734))"
  using kinit_frees_all_ram [of "\<lparr>phys = (\<lambda>_. 0), freelist = 0, kend = 0x80022000\<rparr>"]
  by (simp add: PGROUNDUP_def layout_defs) blast

end
