(* ===== verification/Pagetable.thy ===== *)
theory Pagetable
  imports Kalloc "HOL-Library.Multiset"
begin

text \<open>
  The page-table half of \<open>kernel/vm.c\<close> and the page-table routines of \<open>kernel/proc.c\<close>, on the
  physical memory and the page allocator alone: \<open>walk\<close> to \<open>uvmclear\<close>, \<open>ismapped\<close>,
  \<open>kvmmake\<close>, \<open>proc_mapstacks\<close>, \<open>proc_pagetable\<close> and \<open>proc_freepagetable\<close>. A page table is the address of
  a page of 512 entries in the physical memory, as in the source. Every loop over virtual
  addresses ends because \<open>walk\<close> panics at \<open>MAXVA\<close>, which is also its termination measure here.
\<close>

section \<open>Walking a page table (vm.c)\<close>

text \<open>\<open>&pagetable[i]\<close>\<close>

definition pte_addr :: "uint64 \<Rightarrow> uint64 \<Rightarrow> uint64" where
  "pte_addr pagetable i = pagetable + 8 * i"

text \<open>\<open>walk_from level\<close> is the loop of \<open>walk\<close>, entered at \<open>level\<close>.\<close>

fun walk_from :: "nat \<Rightarrow> 'a kmem_scheme \<Rightarrow> uint64 \<Rightarrow> uint64 \<Rightarrow> bool \<Rightarrow> uint64 \<times> 'a kmem_scheme" where
  "walk_from 0 s pagetable va alloc = (pte_addr pagetable (PX 0 va), s)"
| "walk_from (Suc level) s pagetable va alloc =
     (let a = pte_addr pagetable (PX (Suc level) va); pte = ld64 (phys s) a in
      if pte AND PTE_V \<noteq> 0 then walk_from level s (PTE2PA pte) va alloc
      else if \<not> alloc then (0, s)
      else let (r, s1) = kalloc s in
        if r = 0 then (0, s1)
        else walk_from level
               (s1\<lparr>phys := sd64 (memset (phys s1) r 0 4096) a (PA2PTE r OR PTE_V)\<rparr>) r va alloc)"

definition walk :: "'a kmem_scheme \<Rightarrow> uint64 \<Rightarrow> uint64 \<Rightarrow> bool \<Rightarrow> (uint64 \<times> 'a kmem_scheme) res" where
  "walk s pagetable va alloc =
     (if va \<ge> MAXVA then Panic ''walk'' else Ok (walk_from 2 s pagetable va alloc))"

definition walkaddr :: "'a kmem_scheme \<Rightarrow> uint64 \<Rightarrow> uint64 \<Rightarrow> uint64 res" where
  "walkaddr s pagetable va =
     (if va \<ge> MAXVA then Ok 0
      else bindr (walk s pagetable va False) (\<lambda>(pte, _).
        if pte = 0 then Ok 0
        else let e = ld64 (phys s) pte in
          if e AND PTE_V = 0 then Ok 0
          else if e AND PTE_U = 0 then Ok 0
          else Ok (PTE2PA e)))"

definition ismapped :: "'a kmem_scheme \<Rightarrow> uint64 \<Rightarrow> uint64 \<Rightarrow> bool res" where
  "ismapped s pagetable va =
     bindr (walk s pagetable va False) (\<lambda>(pte, _).
       if pte = 0 then Ok False
       else Ok (ld64 (phys s) pte AND PTE_V \<noteq> 0))"

lemma walk_OkD: "walk s pt va al = Ok r \<Longrightarrow> va < MAXVA"
  by (auto simp: walk_def split: if_splits)

text \<open>Below \<open>MAXVA\<close>, stepping by a page does not wrap around; the measure of every loop over pages.\<close>

lemma unat_next_page: "a < MAXVA \<Longrightarrow> unat (a + PGSIZE) = unat a + 4096"
  using unat_add_of_nat [of a 4096] by (simp add: layout_defs word_less_nat_alt)

lemma page_step_measure:
  assumes "a < MAXVA"
  shows "unat MAXVA + 4096 - unat (a + PGSIZE) < unat MAXVA + 4096 - unat a"
  using assms by (simp add: unat_next_page word_less_nat_alt)

section \<open>Mapping and unmapping (vm.c)\<close>

function mappages_from :: "'a kmem_scheme \<Rightarrow> uint64 \<Rightarrow> uint64 \<Rightarrow> uint64 \<Rightarrow> uint64 \<Rightarrow> uint64 \<Rightarrow> (bool \<times> 'a kmem_scheme) res" where
  "mappages_from s pagetable a lastva pa perm =
     bindr (walk s pagetable a True) (\<lambda>(pte, s1).
       if pte = 0 then Ok (False, s1)
       else if ld64 (phys s1) pte AND PTE_V \<noteq> 0 then Panic ''mappages: remap''
       else let s2 = s1\<lparr>phys := sd64 (phys s1) pte (PA2PTE pa OR perm OR PTE_V)\<rparr> in
         if a = lastva then Ok (True, s2)
         else mappages_from s2 pagetable (a + PGSIZE) lastva (pa + PGSIZE) perm)"
  by pat_completeness auto
termination
  by (relation "measure (\<lambda>(s, pt, a, lastva, pa, perm). unat MAXVA + 4096 - unat a)")
    (auto dest!: walk_OkD intro!: page_step_measure)

declare mappages_from.simps [simp del]

text \<open>Returns \<open>True\<close> for the source's 0 and \<open>False\<close> for its -1.\<close>

definition mappages :: "'a kmem_scheme \<Rightarrow> uint64 \<Rightarrow> uint64 \<Rightarrow> uint64 \<Rightarrow> uint64 \<Rightarrow> uint64 \<Rightarrow> (bool \<times> 'a kmem_scheme) res" where
  "mappages s pagetable va sz pa perm =
     (if va mod PGSIZE \<noteq> 0 then Panic ''mappages: va not aligned''
      else if sz mod PGSIZE \<noteq> 0 then Panic ''mappages: size not aligned''
      else if sz = 0 then Panic ''mappages: size''
      else mappages_from s pagetable va (va + sz - PGSIZE) pa perm)"

text \<open>An empty user page table; 0 if out of memory.\<close>

definition uvmcreate :: "'a kmem_scheme \<Rightarrow> uint64 \<times> 'a kmem_scheme" where
  "uvmcreate s =
     (let (pagetable, s1) = kalloc s in
      if pagetable = 0 then (0, s1)
      else (pagetable, s1\<lparr>phys := memset (phys s1) pagetable 0 4096\<rparr>))"

function uvmunmap_from :: "'a kmem_scheme \<Rightarrow> uint64 \<Rightarrow> uint64 \<Rightarrow> uint64 \<Rightarrow> bool \<Rightarrow> 'a kmem_scheme res" where
  "uvmunmap_from s pagetable a stop do_free =
     (if a < stop
      then bindr (walk s pagetable a False) (\<lambda>(pte, _).
        if pte = 0 \<or> ld64 (phys s) pte AND PTE_V = 0
        then uvmunmap_from s pagetable (a + PGSIZE) stop do_free
        else bindr (if do_free then kfree s (PTE2PA (ld64 (phys s) pte)) else Ok s) (\<lambda>s1.
          uvmunmap_from (s1\<lparr>phys := sd64 (phys s1) pte 0\<rparr>) pagetable (a + PGSIZE) stop do_free))
      else Ok s)"
  by pat_completeness auto
termination
  by (relation "measure (\<lambda>(s, pt, a, stop, do_free). unat MAXVA + 4096 - unat a)")
    (auto dest!: walk_OkD intro!: page_step_measure)

declare uvmunmap_from.simps [simp del]

definition uvmunmap :: "'a kmem_scheme \<Rightarrow> uint64 \<Rightarrow> uint64 \<Rightarrow> uint64 \<Rightarrow> bool \<Rightarrow> 'a kmem_scheme res" where
  "uvmunmap s pagetable va npages do_free =
     (if va mod PGSIZE \<noteq> 0 then Panic ''uvmunmap: not aligned''
      else uvmunmap_from s pagetable va (va + npages * PGSIZE) do_free)"

definition uvmdealloc :: "'a kmem_scheme \<Rightarrow> uint64 \<Rightarrow> uint64 \<Rightarrow> uint64 \<Rightarrow> (uint64 \<times> 'a kmem_scheme) res" where
  "uvmdealloc s pagetable oldsz newsz =
     (if newsz \<ge> oldsz then Ok (oldsz, s)
      else bindr
        (if PGROUNDUP newsz < PGROUNDUP oldsz
         then let npages = scast (ucast ((PGROUNDUP oldsz - PGROUNDUP newsz) div PGSIZE) :: uint32)
              in uvmunmap s pagetable (PGROUNDUP newsz) npages True
         else Ok s)
        (\<lambda>s1. Ok (newsz, s1)))"

lemma mappages_from_OkD: "mappages_from s pt a lastva pa perm = Ok r \<Longrightarrow> a < MAXVA"
  by (subst (asm) mappages_from.simps) (auto dest: walk_OkD)

lemma mappages_OkD: "mappages s pt a sz pa perm = Ok r \<Longrightarrow> a < MAXVA"
  by (auto simp: mappages_def split: if_splits dest: mappages_from_OkD)

function uvmalloc_from :: "'a kmem_scheme \<Rightarrow> uint64 \<Rightarrow> uint64 \<Rightarrow> uint64 \<Rightarrow> uint64 \<Rightarrow> uint64 \<Rightarrow> (uint64 \<times> 'a kmem_scheme) res" where
  "uvmalloc_from s pagetable a oldsz newsz xperm =
     (if a < newsz
      then let (mem, s1) = kalloc s in
        if mem = 0 then bindr (uvmdealloc s1 pagetable a oldsz) (\<lambda>(_, s2). Ok (0, s2))
        else let s2 = s1\<lparr>phys := memset (phys s1) mem 0 4096\<rparr> in
          bindr (mappages s2 pagetable a PGSIZE mem (PTE_R OR PTE_U OR xperm)) (\<lambda>(ok, s3).
            if \<not> ok
            then bindr (kfree s3 mem) (\<lambda>s4.
                   bindr (uvmdealloc s4 pagetable a oldsz) (\<lambda>(_, s5). Ok (0, s5)))
            else uvmalloc_from s3 pagetable (a + PGSIZE) oldsz newsz xperm)
      else Ok (newsz, s))"
  by pat_completeness auto
termination
  by (relation "measure (\<lambda>(s, pt, a, oldsz, newsz, xperm). unat MAXVA + 4096 - unat a)")
    (auto dest!: mappages_OkD intro!: page_step_measure)

declare uvmalloc_from.simps [simp del]

definition uvmalloc :: "'a kmem_scheme \<Rightarrow> uint64 \<Rightarrow> uint64 \<Rightarrow> uint64 \<Rightarrow> uint64 \<Rightarrow> (uint64 \<times> 'a kmem_scheme) res" where
  "uvmalloc s pagetable oldsz newsz xperm =
     (if newsz < oldsz then Ok (oldsz, s)
      else let oldsz = PGROUNDUP oldsz in uvmalloc_from s pagetable oldsz oldsz newsz xperm)"

text \<open>
  \<open>freewalk\<close> calls itself for every lower-level table. The first argument bounds the depth of the
  calls: running out of it is running out of the kernel stack, where the guard page turns the
  next call into \<open>panic("kerneltrap")\<close>.
\<close>

primrec freewalk :: "nat \<Rightarrow> 'a kmem_scheme \<Rightarrow> uint64 \<Rightarrow> 'a kmem_scheme res" where
  "freewalk 0 s pagetable = Panic ''kerneltrap''"
| "freewalk (Suc d) s pagetable =
     bindr (for_upto 512 (\<lambda>i s.
         let a = pte_addr pagetable (of_nat i); pte = ld64 (phys s) a in
         if pte AND PTE_V \<noteq> 0 \<and> pte AND (PTE_R OR PTE_W OR PTE_X) = 0
         then bindr (freewalk d s (PTE2PA pte)) (\<lambda>s1. Ok (s1\<lparr>phys := sd64 (phys s1) a 0\<rparr>))
         else if pte AND PTE_V \<noteq> 0
         then if PTE_FLAGS pte = PTE_V then Panic ''freewalk: not a leaf''
              else bindr (kfree s (PTE2PA pte)) (\<lambda>s1. Ok (s1\<lparr>phys := sd64 (phys s1) a 0\<rparr>))
         else Ok s) s)
       (\<lambda>s. kfree s pagetable)"

text \<open>The kernel stack is one page; \<open>KSTACK_DEPTH\<close> nested calls of \<open>freewalk\<close> fit.\<close>

definition KSTACK_DEPTH :: nat where "KSTACK_DEPTH = 16"

definition uvmfree :: "'a kmem_scheme \<Rightarrow> uint64 \<Rightarrow> uint64 \<Rightarrow> 'a kmem_scheme res" where
  "uvmfree s pagetable sz =
     bindr (if sz > 0 then uvmunmap s pagetable 0 (PGROUNDUP sz div PGSIZE) True else Ok s)
       (\<lambda>s1. freewalk KSTACK_DEPTH s1 pagetable)"

function uvmcopy_from :: "'a kmem_scheme \<Rightarrow> uint64 \<Rightarrow> uint64 \<Rightarrow> uint64 \<Rightarrow> uint64 \<Rightarrow> (bool \<times> 'a kmem_scheme) res" where
  "uvmcopy_from s old new i sz =
     (if i < sz
      then bindr (walk s old i False) (\<lambda>(pte, _).
        if pte = 0 \<or> ld64 (phys s) pte AND PTE_V = 0
        then uvmcopy_from s old new (i + PGSIZE) sz
        else
          let e = ld64 (phys s) pte; pa = PTE2PA e; flags = PTE_FLAGS e; (mem, s1) = kalloc s in
          if mem = 0 then bindr (uvmunmap s1 new 0 (i div PGSIZE) True) (\<lambda>s2. Ok (False, s2))
          else
            let s2 = s1\<lparr>phys := memmove (phys s1) mem pa 4096\<rparr> in
            bindr (mappages s2 new i PGSIZE mem flags) (\<lambda>(ok, s3).
              if \<not> ok
              then bindr (kfree s3 mem) (\<lambda>s4.
                     bindr (uvmunmap s4 new 0 (i div PGSIZE) True) (\<lambda>s5. Ok (False, s5)))
              else uvmcopy_from s3 old new (i + PGSIZE) sz))
      else Ok (True, s))"
  by pat_completeness auto
termination
  by (relation "measure (\<lambda>(s, old, new, i, sz). unat MAXVA + 4096 - unat i)")
    (auto dest!: walk_OkD intro!: page_step_measure)

declare uvmcopy_from.simps [simp del]

definition uvmcopy :: "'a kmem_scheme \<Rightarrow> uint64 \<Rightarrow> uint64 \<Rightarrow> uint64 \<Rightarrow> (bool \<times> 'a kmem_scheme) res" where
  "uvmcopy s old new sz = uvmcopy_from s old new 0 sz"

definition uvmclear :: "'a kmem_scheme \<Rightarrow> uint64 \<Rightarrow> uint64 \<Rightarrow> 'a kmem_scheme res" where
  "uvmclear s pagetable va =
     bindr (walk s pagetable va False) (\<lambda>(pte, _).
       if pte = 0 then Panic ''uvmclear''
       else Ok (s\<lparr>phys := sd64 (phys s) pte (ld64 (phys s) pte AND NOT PTE_U)\<rparr>))"

section \<open>Kernel and process page tables (vm.c, proc.c)\<close>

definition NPROC :: nat where "NPROC = 64"

definition kvmmap :: "'a kmem_scheme \<Rightarrow> uint64 \<Rightarrow> uint64 \<Rightarrow> uint64 \<Rightarrow> uint64 \<Rightarrow> uint64 \<Rightarrow> 'a kmem_scheme res" where
  "kvmmap s kpgtbl va pa sz perm =
     bindr (mappages s kpgtbl va sz pa perm) (\<lambda>(ok, s1). if \<not> ok then Panic ''kvmmap'' else Ok s1)"

definition proc_mapstacks :: "'a kmem_scheme \<Rightarrow> uint64 \<Rightarrow> 'a kmem_scheme res" where
  "proc_mapstacks s kpgtbl =
     for_upto NPROC (\<lambda>p s.
       let (pa, s1) = kalloc s in
       if pa = 0 then Panic ''kalloc''
       else kvmmap s1 kpgtbl (KSTACK p) pa PGSIZE (PTE_R OR PTE_W)) s"

text \<open>\<open>etext\<close> and \<open>trampoline\<close> are the linker symbols of \<open>kernel.ld\<close> and \<open>trampoline.S\<close>.\<close>

definition kvmmake :: "'a kmem_scheme \<Rightarrow> uint64 \<Rightarrow> uint64 \<Rightarrow> (uint64 \<times> 'a kmem_scheme) res" where
  "kvmmake s etext trampoline =
     (let (kpgtbl, s0) = kalloc s; s1 = s0\<lparr>phys := memset (phys s0) kpgtbl 0 4096\<rparr> in
      bindr (kvmmap s1 kpgtbl UART0 UART0 PGSIZE (PTE_R OR PTE_W)) (\<lambda>s2.
      bindr (kvmmap s2 kpgtbl VIRTIO0 VIRTIO0 PGSIZE (PTE_R OR PTE_W)) (\<lambda>s3.
      bindr (kvmmap s3 kpgtbl PLIC PLIC 0x4000000 (PTE_R OR PTE_W)) (\<lambda>s4.
      bindr (kvmmap s4 kpgtbl KERNBASE KERNBASE (etext - KERNBASE) (PTE_R OR PTE_X)) (\<lambda>s5.
      bindr (kvmmap s5 kpgtbl etext etext (PHYSTOP - etext) (PTE_R OR PTE_W)) (\<lambda>s6.
      bindr (kvmmap s6 kpgtbl TRAMPOLINE trampoline PGSIZE (PTE_R OR PTE_X)) (\<lambda>s7.
      bindr (proc_mapstacks s7 kpgtbl) (\<lambda>s8. Ok (kpgtbl, s8)))))))))"

text \<open>The page table of a new process; \<open>trapframe\<close> is \<open>p->trapframe\<close>. 0 if out of memory.\<close>

definition proc_pagetable :: "'a kmem_scheme \<Rightarrow> uint64 \<Rightarrow> uint64 \<Rightarrow> (uint64 \<times> 'a kmem_scheme) res" where
  "proc_pagetable s trampoline trapframe =
     (let (pagetable, s1) = uvmcreate s in
      if pagetable = 0 then Ok (0, s1)
      else bindr (mappages s1 pagetable TRAMPOLINE PGSIZE trampoline (PTE_R OR PTE_X)) (\<lambda>(ok, s2).
        if \<not> ok then bindr (uvmfree s2 pagetable 0) (\<lambda>s3. Ok (0, s3))
        else bindr (mappages s2 pagetable TRAPFRAME PGSIZE trapframe (PTE_R OR PTE_W)) (\<lambda>(ok, s3).
          if \<not> ok
          then bindr (uvmunmap s3 pagetable TRAMPOLINE 1 False) (\<lambda>s4.
               bindr (uvmfree s4 pagetable 0) (\<lambda>s5. Ok (0, s5)))
          else Ok (pagetable, s3))))"

definition proc_freepagetable :: "'a kmem_scheme \<Rightarrow> uint64 \<Rightarrow> uint64 \<Rightarrow> 'a kmem_scheme res" where
  "proc_freepagetable s pagetable sz =
     bindr (uvmunmap s pagetable TRAMPOLINE 1 False) (\<lambda>s1.
     bindr (uvmunmap s1 pagetable TRAPFRAME 1 False) (\<lambda>s2.
       uvmfree s2 pagetable sz))"

end
