(* ===== verification/Pagetable_Correct.thy ===== *)
theory Pagetable_Correct
  imports Pagetable
begin

text \<open>
  Correctness of the page-table code. A page table is abstracted in two ways: to the multiset of
  the physical pages that hold its tables (\<open>pt_pages\<close>), which must have no repetition and be disjoint
  from the free list, and to the map from virtual pages to leaf entries (\<open>pte_of\<close>). \<open>walk\<close> with
  allocation moves pages from the free list into the tree and changes no leaf entry; a store through
  the pointer it returns changes exactly the leaf entries of that virtual page; \<open>mappages\<close>,
  \<open>uvmunmap\<close> and their clients are built on these facts.
\<close>

section \<open>Entries of one table page\<close>

lemma unat_pte_addr:
  assumes "aligned pt" and "unat i < 512"
  shows "unat (pte_addr pt i) = unat pt + 8 * unat i"
proof -
  have "unat pt + 8 * unat i < 2 ^ 64" using aligned_room [OF assms(1)] assms(2) by simp
  moreover have "pte_addr pt i = pt + of_nat (8 * unat i)" by (simp add: pte_addr_def)
  ultimately show ?thesis using unat_add_of_nat [of pt "8 * unat i"] by simp
qed

lemma within_pte:
  assumes "aligned pt" and "unat i < 512"
  shows "within x (pte_addr pt i) 8 \<longleftrightarrow>
         unat pt + 8 * unat i \<le> unat x \<and> unat x < unat pt + 8 * unat i + 8"
proof -
  have "unat (pte_addr pt i) + 8 \<le> 2 ^ 64"
    using aligned_room [OF assms(1)] assms by (simp add: unat_pte_addr)
  from within_nowrap [OF this] show ?thesis using assms by (simp add: unat_pte_addr)
qed

lemma within_pte_page:
  assumes "aligned pt" and "unat i < 512" and "within x (pte_addr pt i) 8"
  shows "in_page x pt"
  using assms aligned_room [OF assms(1)] by (simp add: within_pte within_nowrap)

lemma pte_addr_nonzero: "aligned pt \<Longrightarrow> pt \<noteq> 0 \<Longrightarrow> unat i < 512 \<Longrightarrow> pte_addr pt i \<noteq> 0"
  by (metis add_is_0 unat_0 unat_0_iff unat_pte_addr)

lemma ld64_pte_cong:
  assumes "aligned pt" and "unat i < 512" and "\<And>x. in_page x pt \<Longrightarrow> m x = m' x"
  shows "ld64 m (pte_addr pt i) = ld64 m' (pte_addr pt i)"
  using assms by (intro ld64_cong) (auto dest: within_pte_page)

lemma ld64_sd64_pte:
  assumes "aligned p" "aligned q" "unat i < 512" "unat j < 512"
  shows "ld64 (sd64 m (pte_addr p i) v) (pte_addr q j) =
         (if p = q \<and> i = j then v else ld64 m (pte_addr q j))"
proof (cases "p = q \<and> i = j")
  case True
  then show ?thesis by simp
next
  case False
  have "sd64 m (pte_addr p i) v x = m x" if x: "within x (pte_addr q j) 8" for x
  proof (rule sd64_other)
    show "\<not> within x (pte_addr p i) 8"
    proof
      assume y: "within x (pte_addr p i) 8"
      then have "in_page x p" "in_page x q" using x assms by (auto dest: within_pte_page)
      then have "p = q" using assms pages_disjoint by blast
      moreover have "unat i = unat j"
        using x y assms calculation by (simp add: within_pte)
      ultimately show False using False by (simp add: word_unat_eq_iff)
    qed
  qed
  then show ?thesis using False by (auto intro: ld64_cong)
qed

lemma ld64_zero: "(\<And>x. within x a 8 \<Longrightarrow> m x = 0) \<Longrightarrow> ld64 m a = 0"
proof -
  assume "\<And>x. within x a 8 \<Longrightarrow> m x = 0"
  then have "ld64 m a = ld64 (\<lambda>_. 0) a" by (intro ld64_cong) simp
  also have "\<dots> = 0" by (simp add: ld64_def mem_get_def numeral_eq_Suc)
  finally show ?thesis .
qed

section \<open>The tree of table pages\<close>

fun pt_pages :: "nat \<Rightarrow> mem \<Rightarrow> uint64 \<Rightarrow> uint64 multiset" where
  "pt_pages 0 m pt = {#pt#}"
| "pt_pages (Suc l) m pt = {#pt#} + (\<Sum>i<512.
     if bit (ld64 m (pte_addr pt (of_nat i))) 0
     then pt_pages l m (PTE2PA (ld64 m (pte_addr pt (of_nat i)))) else {#})"

fun leaf :: "nat \<Rightarrow> mem \<Rightarrow> uint64 \<Rightarrow> uint64 \<Rightarrow> uint64 option" where
  "leaf 0 m pt va = Some (pte_addr pt (PX 0 va))"
| "leaf (Suc l) m pt va =
     (let e = ld64 m (pte_addr pt (PX (Suc l) va)) in
      if bit e 0 then leaf l m (PTE2PA e) va else None)"

text \<open>The leaf entry that translates \<open>va\<close>; 0 (not valid) when a table on the way is missing.\<close>

definition pte_of :: "nat \<Rightarrow> mem \<Rightarrow> uint64 \<Rightarrow> uint64 \<Rightarrow> uint64" where
  "pte_of l m pt va = (case leaf l m pt va of None \<Rightarrow> 0 | Some a \<Rightarrow> ld64 m a)"

lemma pte_of_Suc:
  "pte_of (Suc l) m pt va =
     (let e = ld64 m (pte_addr pt (PX (Suc l) va)) in if bit e 0 then pte_of l m (PTE2PA e) va else 0)"
  by (simp add: pte_of_def Let_def)

text \<open>No page occurs twice.\<close>

definition msdistinct :: "'a multiset \<Rightarrow> bool" where
  "msdistinct M \<longleftrightarrow> (\<forall>x. count M x \<le> 1)"

lemma msdistinct_union:
  "msdistinct (A + B) \<Longrightarrow> msdistinct A \<and> msdistinct B \<and> set_mset A \<inter> set_mset B = {}"
proof -
  assume d: "msdistinct (A + B)"
  have c: "count A x + count B x \<le> 1" for x
    using d [unfolded msdistinct_def, rule_format, of x] by simp
  have "x \<notin># B" if "x \<in># A" for x
    using c [of x] that by (metis add_le_same_cancel1 count_greater_eq_one_iff count_inI le_trans not_one_le_zero)
  moreover have "count A x \<le> 1" "count B x \<le> 1" for x
    using c [of x] by linarith+
  ultimately show ?thesis by (auto simp: msdistinct_def)
qed

lemma msdistinct_add: "msdistinct (add_mset x A) \<longleftrightarrow> x \<notin># A \<and> msdistinct A"
proof
  assume d: "msdistinct (add_mset x A)"
  then have "msdistinct ({#x#} + A)" by simp
  from msdistinct_union [OF this] show "x \<notin># A \<and> msdistinct A" by auto
next
  assume "x \<notin># A \<and> msdistinct A"
  then show "msdistinct (add_mset x A)" by (auto simp: msdistinct_def not_in_iff)
qed

lemma msdistinct_subset: "msdistinct B \<Longrightarrow> A \<subseteq># B \<Longrightarrow> msdistinct A"
  unfolding msdistinct_def by (meson le_trans mset_subset_eq_count)

lemma unat_of_nat_lt512: "i < 512 \<Longrightarrow> unat (of_nat i :: uint64) = i"
  by (rule unat_of_nat_small) simp

lemma root_in_pt_pages [simp]: "pt \<in># pt_pages l m pt"
  by (cases l) auto

text \<open>The subtree below entry \<open>i\<close>.\<close>

definition subtree :: "nat \<Rightarrow> mem \<Rightarrow> uint64 \<Rightarrow> nat \<Rightarrow> uint64 multiset" where
  "subtree l m pt i = (if bit (ld64 m (pte_addr pt (of_nat i))) 0
     then pt_pages l m (PTE2PA (ld64 m (pte_addr pt (of_nat i)))) else {#})"

lemma pt_pages_Suc: "pt_pages (Suc l) m pt = {#pt#} + (\<Sum>i<512. subtree l m pt i)"
  by (simp add: subtree_def)

declare pt_pages.simps(2) [simp del]

lemma pt_pages_split:
  assumes "i < 512"
  shows "pt_pages (Suc l) m pt = {#pt#} + subtree l m pt i + (\<Sum>j\<in>{..<512} - {i}. subtree l m pt j)"
  unfolding pt_pages_Suc by (subst sum.remove [of _ i]) (use assms in auto)

lemma subtree_subset: "i < 512 \<Longrightarrow> subtree l m pt i \<subseteq># pt_pages (Suc l) m pt"
  by (simp add: pt_pages_split [of i] mset_subset_eq_add_left ac_simps)

lemma subtree_PX:
  "bit (ld64 m (pte_addr pt (PX k va))) 0 \<Longrightarrow>
   subtree l m pt (unat (PX k va)) = pt_pages l m (PTE2PA (ld64 m (pte_addr pt (PX k va))))"
  by (simp add: subtree_def)

text \<open>Everything about a tree is determined by the contents of its own pages.\<close>

lemma pt_frame:
  assumes "\<And>p x. p \<in># pt_pages l m pt \<Longrightarrow> in_page x p \<Longrightarrow> m' x = m x"
    and "\<And>p. p \<in># pt_pages l m pt \<Longrightarrow> aligned p"
  shows "pt_pages l m' pt = pt_pages l m pt \<and> (\<forall>va. leaf l m' pt va = leaf l m pt va) \<and>
         (\<forall>va. pte_of l m' pt va = pte_of l m pt va)"
  using assms
proof (induction l arbitrary: pt)
  case 0
  have "ld64 m' (pte_addr pt (PX 0 va)) = ld64 m (pte_addr pt (PX 0 va))" for va
    using 0 by (intro ld64_pte_cong PX_less) auto
  then show ?case by (simp add: pte_of_def)
next
  case (Suc l)
  have e: "ld64 m' (pte_addr pt i) = ld64 m (pte_addr pt i)" if "unat i < 512" for i
    using that Suc.prems(2) Suc.prems(1) [OF root_in_pt_pages] by (intro ld64_pte_cong) auto
  have IH: "pt_pages l m' (PTE2PA (ld64 m (pte_addr pt i))) = pt_pages l m (PTE2PA (ld64 m (pte_addr pt i))) \<and>
      (\<forall>va. leaf l m' (PTE2PA (ld64 m (pte_addr pt i))) va = leaf l m (PTE2PA (ld64 m (pte_addr pt i))) va) \<and>
      (\<forall>va. pte_of l m' (PTE2PA (ld64 m (pte_addr pt i))) va = pte_of l m (PTE2PA (ld64 m (pte_addr pt i))) va)"
    if "unat i < 512" "bit (ld64 m (pte_addr pt i)) 0" for i
  proof -
    have "subtree l m pt (unat i) = pt_pages l m (PTE2PA (ld64 m (pte_addr pt i)))"
      using that by (simp add: subtree_def)
    then have "pt_pages l m (PTE2PA (ld64 m (pte_addr pt i))) \<subseteq># pt_pages (Suc l) m pt"
      using subtree_subset [of "unat i" l m pt] that by simp
    then show ?thesis using Suc.prems by (intro Suc.IH) (auto dest: mset_subset_eqD)
  qed
  have "subtree l m' pt i = subtree l m pt i" if "i < 512" for i
    using that IH [of "of_nat i"] e [of "of_nat i"] by (simp add: subtree_def unat_of_nat_lt512)
  then have "pt_pages (Suc l) m' pt = pt_pages (Suc l) m pt"
    by (simp add: pt_pages_Suc)
  moreover have "leaf (Suc l) m' pt va = leaf (Suc l) m pt va" for va
    using e [OF PX_less] IH [OF PX_less] by (simp add: Let_def)
  moreover have "pte_of (Suc l) m' pt va = pte_of (Suc l) m pt va" for va
    using e [OF PX_less] IH [OF PX_less, of "Suc l" va] by (simp add: pte_of_Suc Let_def)
  ultimately show ?case by blast
qed

section \<open>Changing one subtree\<close>

text \<open>
  If only the pages below entry \<open>i\<close> (and free pages) change, the rest of the tree stays what it was:
  the pages are conserved when the subtree conserves them, and only addresses below entry \<open>i\<close> can
  be translated differently.
\<close>

lemma subtree_lift:
  assumes d: "msdistinct (pt_pages (Suc l) m pt + F)"
    and al: "\<And>p. p \<in># pt_pages (Suc l) m pt + F \<Longrightarrow> aligned p"
    and i: "unat i < 512" and v: "bit (ld64 m (pte_addr pt i)) 0"
    and c: "c = PTE2PA (ld64 m (pte_addr pt i))"
    and same: "\<And>x. (\<And>p. p \<in># pt_pages l m c + F \<Longrightarrow> \<not> in_page x p) \<Longrightarrow> m' x = m x"
    and cons: "pt_pages l m' c + F' = pt_pages l m c + F"
  shows "pt_pages (Suc l) m' pt + F' = pt_pages (Suc l) m pt + F"
    and "\<And>va. PX (Suc l) va = i \<Longrightarrow> leaf (Suc l) m' pt va = leaf l m' c va \<and>
             pte_of (Suc l) m' pt va = pte_of l m' c va"
    and "\<And>va. PX (Suc l) va \<noteq> i \<Longrightarrow> leaf (Suc l) m' pt va = leaf (Suc l) m pt va \<and>
             pte_of (Suc l) m' pt va = pte_of (Suc l) m pt va"
proof -
  let ?rest = "\<Sum>j\<in>{..<512} - {unat i}. subtree l m pt j"
  have sub: "subtree l m pt (unat i) = pt_pages l m c" using v c by (simp add: subtree_def)
  have split: "pt_pages (Suc l) m pt + F = {#pt#} + ?rest + (pt_pages l m c + F)"
    using pt_pages_split [OF i, of l m pt] sub by (simp add: ac_simps)
  have dj: "set_mset ({#pt#} + ?rest) \<inter> set_mset (pt_pages l m c + F) = {}"
    using msdistinct_union d split by metis
  have unch: "m' x = m x" if "p \<in># {#pt#} + ?rest" "in_page x p" for p x
  proof (rule same)
    fix q assume q: "q \<in># pt_pages l m c + F"
    then have "p \<noteq> q" using that(1) dj by blast
    moreover have "aligned p" "aligned q"
      using that(1) q al by (simp_all only: split union_iff) auto
    ultimately show "\<not> in_page x q" using that(2) pages_disjoint by blast
  qed
  have e: "ld64 m' (pte_addr pt j) = ld64 m (pte_addr pt j)" if "unat j < 512" for j
    using that al [of pt] unch [of pt] by (intro ld64_pte_cong) auto
  have other: "subtree l m' pt j = subtree l m pt j \<and>
      (bit (ld64 m (pte_addr pt (of_nat j))) 0 \<longrightarrow>
       (\<forall>va. leaf l m' (PTE2PA (ld64 m (pte_addr pt (of_nat j)))) va = leaf l m (PTE2PA (ld64 m (pte_addr pt (of_nat j)))) va) \<and>
       (\<forall>va. pte_of l m' (PTE2PA (ld64 m (pte_addr pt (of_nat j)))) va = pte_of l m (PTE2PA (ld64 m (pte_addr pt (of_nat j)))) va))"
    if j: "j < 512" "j \<noteq> unat i" for j
  proof (cases "bit (ld64 m (pte_addr pt (of_nat j))) 0")
    case True
    have "subtree l m pt j \<subseteq># ?rest"
      using j by (subst sum.remove [of _ j]) auto
    then have in_rest: "p \<in># ?rest" if "p \<in># pt_pages l m (PTE2PA (ld64 m (pte_addr pt (of_nat j))))" for p
      using that True by (auto simp: subtree_def dest: mset_subset_eqD)
    have "pt_pages l m' (PTE2PA (ld64 m (pte_addr pt (of_nat j)))) = pt_pages l m (PTE2PA (ld64 m (pte_addr pt (of_nat j)))) \<and>
       (\<forall>va. leaf l m' (PTE2PA (ld64 m (pte_addr pt (of_nat j)))) va = leaf l m (PTE2PA (ld64 m (pte_addr pt (of_nat j)))) va) \<and>
       (\<forall>va. pte_of l m' (PTE2PA (ld64 m (pte_addr pt (of_nat j)))) va = pte_of l m (PTE2PA (ld64 m (pte_addr pt (of_nat j)))) va)"
    proof (rule pt_frame)
      fix p x assume p: "p \<in># pt_pages l m (PTE2PA (ld64 m (pte_addr pt (of_nat j))))"
      show "in_page x p \<Longrightarrow> m' x = m x" using unch in_rest [OF p] by auto
      show "aligned p" using al in_rest [OF p] by (simp only: split union_iff) auto
    qed
    with True e [of "of_nat j"] j show ?thesis by (simp add: subtree_def unat_of_nat_lt512)
  next
    case False
    with e [of "of_nat j"] j show ?thesis by (simp add: subtree_def unat_of_nat_lt512)
  qed
  have "(\<Sum>j\<in>{..<512} - {unat i}. subtree l m' pt j) = ?rest"
    using other by (intro sum.cong) auto
  moreover have "subtree l m' pt (unat i) = pt_pages l m' c"
    using e [OF i] v c by (simp add: subtree_def)
  ultimately have "pt_pages (Suc l) m' pt + F' = {#pt#} + ?rest + (pt_pages l m' c + F')"
    using pt_pages_split [OF i, of l m' pt] by (simp add: ac_simps)
  then show "pt_pages (Suc l) m' pt + F' = pt_pages (Suc l) m pt + F"
    by (simp only: cons split)
  show "leaf (Suc l) m' pt va = leaf l m' c va \<and> pte_of (Suc l) m' pt va = pte_of l m' c va"
    if "PX (Suc l) va = i" for va
    using that e [OF i] v c by (simp add: pte_of_Suc Let_def)
  show "leaf (Suc l) m' pt va = leaf (Suc l) m pt va \<and> pte_of (Suc l) m' pt va = pte_of (Suc l) m pt va"
    if "PX (Suc l) va \<noteq> i" for va
  proof -
    have "unat (PX (Suc l) va) \<noteq> unat i" using that word_unat_eq_iff by blast
    from e [OF PX_less] other [OF PX_less this] show ?thesis by (simp add: pte_of_Suc Let_def)
  qed
qed

section \<open>Linking a new table\<close>

lemma zero_table:
  assumes "aligned r" and "\<And>x. in_page x r \<Longrightarrow> m x = 0"
  shows "pt_pages l m r = {#r#}" and "pte_of l m r va = 0"
proof -
  have z: "ld64 m (pte_addr r i) = 0" if "unat i < 512" for i
    using assms that by (intro ld64_zero) (auto dest: within_pte_page)
  have s: "subtree k m r i = {#}" if "i < 512" for k i
    using z [of "of_nat i"] that by (simp add: subtree_def unat_of_nat_lt512)
  show "pt_pages l m r = {#r#}"
    by (cases l) (simp_all add: pt_pages_Suc s)
  show "pte_of l m r va = 0"
    using z [OF PX_less] by (cases l) (simp_all add: pte_of_Suc pte_of_def)
qed

text \<open>RAM pages survive the trip through a page-table entry.\<close>

lemma PTE2PA_ram:
  assumes "ram_page s p" and "drop_bit 10 fl = 0"
  shows "PTE2PA (PA2PTE p OR fl) = p"
proof (rule PTE2PA_mk)
  have "unat p < 2 ^ 56" using assms(1) by (simp add: ram_page_def layout_defs word_less_nat_alt)
  then show "drop_bit 56 p = 0" by (simp add: drop_bit_0_less)
qed (use assms in \<open>auto simp: ram_page_def\<close>)

lemma link_table:
  assumes d: "msdistinct (pt_pages (Suc l) m pt + {#r#})"
    and al: "\<And>p. p \<in># pt_pages (Suc l) m pt \<Longrightarrow> aligned p"
    and i: "unat i < 512" and v: "\<not> bit (ld64 m (pte_addr pt i)) 0"
    and r: "aligned r" "PTE2PA e = r" "bit e 0"
    and m1: "\<And>x. \<not> in_page x r \<Longrightarrow> m1 x = m x"
    and m': "m' = sd64 (memset m1 r 0 4096) (pte_addr pt i) e"
  shows "ld64 m' (pte_addr pt i) = e"
    and "pt_pages l m' r = {#r#}"
    and "pt_pages (Suc l) m' pt = pt_pages (Suc l) m pt + {#r#}"
    and "pte_of (Suc l) m' pt va = pte_of (Suc l) m pt va"
    and "\<not> in_page x pt \<Longrightarrow> \<not> in_page x r \<Longrightarrow> m' x = m x"
proof -
  have ptal: "aligned pt" by (rule al) simp
  have "r \<notin># pt_pages (Suc l) m pt" using msdistinct_union [OF d] by auto
  then have rpt: "r \<noteq> pt" by auto
  have out: "m' x = memset m1 r 0 4096 x" if "\<not> in_page x pt" for x
    unfolding m' using that i ptal by (intro sd64_other) (auto dest: within_pte_page)
  show frame: "m' x = m x" if "\<not> in_page x pt" "\<not> in_page x r" for x
    using that out m1 by simp
  have zero: "m' x = 0" if "in_page x r" for x
    using that out [of x] pages_disjoint [OF ptal r(1)] rpt by auto
  show "pt_pages l m' r = {#r#}" by (rule zero_table) (use r zero in auto)
  have e: "ld64 m' (pte_addr pt j) = (if j = i then e else ld64 m (pte_addr pt j))" if j: "unat j < 512" for j
  proof -
    have "ld64 (memset m1 r 0 4096) (pte_addr pt j) = ld64 m (pte_addr pt j)"
    proof (intro ld64_pte_cong ptal j)
      fix x assume "in_page x pt"
      then have "\<not> in_page x r" using pages_disjoint [OF ptal r(1)] rpt by blast
      then show "memset m1 r 0 4096 x = m x" by (simp add: m1)
    qed
    then show ?thesis using ld64_sd64_pte [OF ptal ptal i j] by (auto simp: m')
  qed
  show "ld64 m' (pte_addr pt i) = e" using e [OF i] by simp
  have other: "subtree l m' pt (unat j) = subtree l m pt (unat j) \<and>
      (bit (ld64 m (pte_addr pt j)) 0 \<longrightarrow>
       (\<forall>va. pte_of l m' (PTE2PA (ld64 m (pte_addr pt j))) va = pte_of l m (PTE2PA (ld64 m (pte_addr pt j))) va))"
    if j: "unat j < 512" "j \<noteq> i" for j
  proof (cases "bit (ld64 m (pte_addr pt j)) 0")
    case True
    let ?c = "PTE2PA (ld64 m (pte_addr pt j))"
    have sub: "subtree l m pt (unat j) = pt_pages l m ?c" using True by (simp add: subtree_def)
    have "pt_pages l m' ?c = pt_pages l m ?c \<and> (\<forall>va. leaf l m' ?c va = leaf l m ?c va) \<and>
          (\<forall>va. pte_of l m' ?c va = pte_of l m ?c va)"
    proof (rule pt_frame)
      fix p assume p: "p \<in># pt_pages l m ?c"
      have p': "p \<in># pt_pages (Suc l) m pt"
        using p sub subtree_subset [OF j(1), of l m pt] by (auto dest: mset_subset_eqD)
      then show "aligned p" by (rule al)
      have "msdistinct ({#pt#} + subtree l m pt (unat j))"
        using msdistinct_union [OF d] pt_pages_split [OF j(1), of l m pt]
        by (metis msdistinct_union union_assoc)
      then have "p \<noteq> pt" using p sub msdistinct_union by fastforce
      moreover have "p \<noteq> r" using p' \<open>r \<notin># pt_pages (Suc l) m pt\<close> by auto
      ultimately show "m' x = m x" if "in_page x p" for x
        using that frame pages_disjoint \<open>aligned p\<close> ptal r(1) by blast
    qed
    with True e [OF j(1)] j(2) show ?thesis by (simp add: subtree_def)
  next
    case False
    with e [OF j(1)] j(2) show ?thesis by (simp add: subtree_def)
  qed
  have "(\<Sum>j\<in>{..<512} - {unat i}. subtree l m' pt j) = (\<Sum>j\<in>{..<512} - {unat i}. subtree l m pt j)"
  proof (rule sum.cong)
    fix j assume j: "j \<in> {..<512} - {unat i}"
    then have "of_nat j \<noteq> i" by (auto simp: unat_of_nat_lt512)
    with j show "subtree l m' pt j = subtree l m pt j"
      using other [of "of_nat j"] by (simp add: unat_of_nat_lt512)
  qed simp
  moreover have "subtree l m pt (unat i) = {#}" "subtree l m' pt (unat i) = {#r#}"
    using v e [OF i] r \<open>pt_pages l m' r = {#r#}\<close> by (auto simp: subtree_def)
  ultimately show "pt_pages (Suc l) m' pt = pt_pages (Suc l) m pt + {#r#}"
    by (simp add: pt_pages_split [OF i])
  show "pte_of (Suc l) m' pt va = pte_of (Suc l) m pt va"
  proof (cases "PX (Suc l) va = i")
    case True
    then show ?thesis using e [OF i] v r zero_table(2) [OF r(1) zero] by (simp add: pte_of_Suc Let_def)
  next
    case False
    then show ?thesis using e [OF PX_less] other [OF PX_less False] by (simp add: pte_of_Suc Let_def)
  qed
qed

section \<open>The invariant, and walk\<close>

text \<open>
  \<open>pt_inv l s pt ps\<close>: the tables below \<open>pt\<close> are pairwise different RAM pages, none of them on the
  free list \<open>ps\<close>.
\<close>

definition pt_inv :: "nat \<Rightarrow> 'a kmem_scheme \<Rightarrow> uint64 \<Rightarrow> uint64 list \<Rightarrow> bool" where
  "pt_inv l s pt ps \<longleftrightarrow> free_pages s ps \<and> msdistinct (pt_pages l (phys s) pt + mset ps) \<and>
     (\<forall>p. p \<in># pt_pages l (phys s) pt \<longrightarrow> ram_page s p)"

lemma ram_page_kend: "kend s' = kend s \<Longrightarrow> ram_page s' p = ram_page s p"
  by (simp add: ram_page_def)

lemma pt_invD:
  assumes "pt_inv l s pt ps"
  shows "free_pages s ps" and "msdistinct (pt_pages l (phys s) pt + mset ps)"
    and "p \<in># pt_pages l (phys s) pt \<Longrightarrow> ram_page s p" and "p \<in> set ps \<Longrightarrow> ram_page s p"
    and "p \<in># pt_pages l (phys s) pt + mset ps \<Longrightarrow> aligned p" and "ram_page s p \<Longrightarrow> p \<noteq> 0"
proof -
  show r1: "p \<in># pt_pages l (phys s) pt \<Longrightarrow> ram_page s p"
    and r2: "p \<in> set ps \<Longrightarrow> ram_page s p" for p
    using assms by (auto simp: pt_inv_def free_pages_def)
  show "aligned p" if "p \<in># pt_pages l (phys s) pt + mset ps"
    using that r1 r2 by (auto simp: ram_page_def)
  show "ram_page s p \<Longrightarrow> p \<noteq> 0"
    using assms ram_page_nonzero by (auto simp: pt_inv_def free_pages_def)
qed (use assms in \<open>auto simp: pt_inv_def\<close>)

text \<open>The invariant only depends on how many table and free pages there are in total.\<close>

lemma pt_inv_conserve:
  assumes "pt_inv l s pt ps" and "free_pages s' ps'" and "kend s' = kend s"
    and "pt_pages l (phys s') pt + mset ps' = pt_pages l (phys s) pt + mset ps"
  shows "pt_inv l s' pt ps'"
proof -
  have "ram_page s p" if "p \<in># pt_pages l (phys s') pt" for p
  proof -
    have "p \<in># pt_pages l (phys s) pt + mset ps" using that assms(4) by (metis union_iff)
    then show ?thesis using pt_invD(3,4) [OF assms(1)] by auto
  qed
  then show ?thesis
    using assms by (auto simp: pt_inv_def ram_page_def)
qed

lemma pt_inv_child:
  assumes inv: "pt_inv (Suc l) s pt ps" and i: "unat i < 512" and v: "bit (ld64 (phys s) (pte_addr pt i)) 0"
  shows "pt_inv l s (PTE2PA (ld64 (phys s) (pte_addr pt i))) ps"
proof -
  have "subtree l (phys s) pt (unat i) = pt_pages l (phys s) (PTE2PA (ld64 (phys s) (pte_addr pt i)))"
    using v by (simp add: subtree_def)
  then have sub: "pt_pages l (phys s) (PTE2PA (ld64 (phys s) (pte_addr pt i))) \<subseteq># pt_pages (Suc l) (phys s) pt"
    using subtree_subset [OF i] by metis
  then have "msdistinct (pt_pages l (phys s) (PTE2PA (ld64 (phys s) (pte_addr pt i))) + mset ps)"
    using pt_invD(2) [OF inv] msdistinct_subset by (metis mset_subset_eq_mono_add_right_cancel)
  then show ?thesis
    using inv sub by (auto simp: pt_inv_def dest: mset_subset_eqD)
qed

text \<open>Looking up does not change anything and finds the leaf entry.\<close>

lemma walk_from_lookup:
  "walk_from l s pt va False = (case leaf l (phys s) pt va of None \<Rightarrow> 0 | Some a \<Rightarrow> a, s)"
  by (induction l arbitrary: pt) (auto simp: Let_def and_PTE_iff)

text \<open>
  Walking with allocation: pages move from the free list into the tree, no translation changes, and
  nothing outside the tables and the free pages is written.
\<close>

definition walk_post :: "nat \<Rightarrow> 'a kmem_scheme \<Rightarrow> uint64 \<Rightarrow> uint64 list \<Rightarrow> uint64 \<Rightarrow> uint64 \<Rightarrow> 'a kmem_scheme \<Rightarrow> uint64 list \<Rightarrow> bool" where
  "walk_post l s pt ps va a s' ps' \<longleftrightarrow> free_pages s' ps' \<and> kend s' = kend s \<and>
     pt_pages l (phys s') pt + mset ps' = pt_pages l (phys s) pt + mset ps \<and>
     (\<forall>va'. pte_of l (phys s') pt va' = pte_of l (phys s) pt va') \<and>
     (\<forall>x. (\<forall>p. p \<in># pt_pages l (phys s) pt + mset ps \<longrightarrow> \<not> in_page x p) \<longrightarrow> phys s' x = phys s x) \<and>
     (if a = 0 then ps' = [] else leaf l (phys s') pt va = Some a)"

lemma walk_post_up:
  assumes inv: "pt_inv (Suc l) s pt ps" and v: "bit (ld64 (phys s) (pte_addr pt (PX (Suc l) va))) 0"
    and c: "c = PTE2PA (ld64 (phys s) (pte_addr pt (PX (Suc l) va)))"
    and post: "walk_post l s c ps va a s' ps'"
  shows "walk_post (Suc l) s pt ps va a s' ps'"
proof -
  let ?i = "PX (Suc l) va"
  have same: "phys s' x = phys s x"
    if "\<And>p. p \<in># pt_pages l (phys s) c + mset ps \<Longrightarrow> \<not> in_page x p" for x
    using post that unfolding walk_post_def by blast
  have cons: "pt_pages l (phys s') c + mset ps' = pt_pages l (phys s) c + mset ps"
    using post by (simp add: walk_post_def)
  note lift = subtree_lift [OF pt_invD(2) [OF inv] pt_invD(5) [OF inv] PX_less v c same cons]
  have sub: "pt_pages l (phys s) c \<subseteq># pt_pages (Suc l) (phys s) pt"
    using subtree_subset [OF PX_less] subtree_PX [OF v] c by metis
  have old: "pte_of (Suc l) (phys s) pt va' = pte_of l (phys s) c va'" if "PX (Suc l) va' = ?i" for va'
    using that v c by (simp add: pte_of_Suc)
  have "pte_of (Suc l) (phys s') pt va' = pte_of (Suc l) (phys s) pt va'" for va'
    using lift(2,3) old post by (cases "PX (Suc l) va' = ?i") (auto simp: walk_post_def)
  moreover have "leaf (Suc l) (phys s') pt va = leaf l (phys s') c va"
    using lift(2) by blast
  moreover have "phys s' x = phys s x"
    if "\<forall>p. p \<in># pt_pages (Suc l) (phys s) pt + mset ps \<longrightarrow> \<not> in_page x p" for x
    using that sub by (intro same) (auto dest: mset_subset_eqD)
  ultimately show ?thesis
    using post lift(1) unfolding walk_post_def by (simp del: leaf.simps)
qed

lemma walk_post_trans:
  assumes "free_pages s1 ps1" "kend s1 = kend s"
    and "pt_pages l (phys s1) pt + mset ps1 = pt_pages l (phys s) pt + mset ps"
    and "\<And>va'. pte_of l (phys s1) pt va' = pte_of l (phys s) pt va'"
    and "\<And>x. (\<And>p. p \<in># pt_pages l (phys s) pt + mset ps \<Longrightarrow> \<not> in_page x p) \<Longrightarrow> phys s1 x = phys s x"
    and "walk_post l s1 pt ps1 va a s' ps'"
  shows "walk_post l s pt ps va a s' ps'"
proof -
  have "phys s' x = phys s x" if "\<forall>p. p \<in># pt_pages l (phys s) pt + mset ps \<longrightarrow> \<not> in_page x p" for x
    using assms(3,6) assms(5) [of x] that by (simp add: walk_post_def)
  then show ?thesis using assms(1-4,6) by (simp add: walk_post_def)
qed

text \<open>The step that links a new table into the tree.\<close>

lemma walk_link:
  fixes l va
  defines "i \<equiv> PX (Suc l) va"
  assumes inv: "pt_inv (Suc l) s pt ps" and v: "\<not> bit (ld64 (phys s) (pte_addr pt i)) 0"
    and r: "kalloc s = (r, s1)" "r \<noteq> 0"
    and s2: "s2 = s1\<lparr>phys := sd64 (memset (phys s1) r 0 4096) (pte_addr pt i) (PA2PTE r OR PTE_V)\<rparr>"
  shows "\<exists>qs. ps = r # qs \<and> free_pages s2 qs \<and> kend s2 = kend s \<and>
     ld64 (phys s2) (pte_addr pt i) = PA2PTE r OR PTE_V \<and> PTE2PA (PA2PTE r OR PTE_V) = r \<and>
     pt_pages (Suc l) (phys s2) pt + mset qs = pt_pages (Suc l) (phys s) pt + mset ps \<and>
     (\<forall>va'. pte_of (Suc l) (phys s2) pt va' = pte_of (Suc l) (phys s) pt va') \<and>
     (\<forall>x. \<not> in_page x pt \<longrightarrow> \<not> in_page x r \<longrightarrow> phys s2 x = phys s x)"
proof -
  from ka.alloc_fresh [OF pt_invD(1) [OF inv] r] obtain qs where
    qs: "ps = r # qs" "free_pages s1 qs" "ram_page s r" "r \<notin> set qs"
    and s1: "\<And>x. \<not> in_page x r \<Longrightarrow> phys s1 x = phys s x" by blast
  have d: "msdistinct (pt_pages (Suc l) (phys s) pt + {#r#} + mset qs)"
    using pt_invD(2) [OF inv] qs(1) by simp
  have pa: "PTE2PA (PA2PTE r OR PTE_V) = r"
    by (rule PTE2PA_ram [OF qs(3)]) (simp add: drop_bit_0_bits)
  have valid: "bit (PA2PTE r OR PTE_V) 0" by (simp add: bit_simps)
  have al: "aligned p" if "p \<in># pt_pages (Suc l) (phys s) pt" for p
    using that pt_invD(5) [OF inv] by simp
  have "aligned r" using qs(3) by (simp add: ram_page_def)
  have i: "unat i < 512" unfolding i_def by (rule PX_less)
  note link = link_table [OF conjunct1 [OF msdistinct_union [OF d]] al i v \<open>aligned r\<close> pa valid, of "phys s1" "phys s2"]
  have m2: "phys s2 = sd64 (memset (phys s1) r 0 4096) (pte_addr pt i) (PA2PTE r OR PTE_V)"
    by (simp add: s2)
  have "free_pages (s1\<lparr>phys := phys s2\<rparr>) qs"
  proof (rule free_pages_frame [OF qs(2)])
    fix p x assume p: "p \<in> set qs" and x: "in_page x p"
    have "set_mset (pt_pages (Suc l) (phys s) pt) \<inter> set qs = {}"
      using msdistinct_union [OF d] by auto
    then have "pt \<notin> set qs" using root_in_pt_pages by fast
    with p have "p \<noteq> pt" "p \<noteq> r" "aligned p" "aligned pt"
      using qs(1,4) al [of pt] pt_invD(5) [OF inv, of p] by auto
    then have "\<not> in_page x pt" "\<not> in_page x r"
      using x \<open>aligned r\<close> pages_disjoint by blast+
    then show "phys s2 x = phys s1 x" using link(5) s1 m2 by auto
  qed
  moreover have "kend s2 = kend s" using r by (auto simp: s2 kalloc_def Let_def split: if_splits)
  ultimately show ?thesis
    using qs(1) pa link(1,3,4,5) s1 m2 by (auto simp: s2)
qed

lemma walk_from_alloc:
  assumes "pt_inv l s pt ps" and "walk_from l s pt va True = (a, s')"
  shows "\<exists>ps'. walk_post l s pt ps va a s' ps' \<and> length ps \<le> length ps' + l"
  using assms
proof (induction l arbitrary: s pt ps)
  case 0
  have "a \<noteq> 0"
    using 0 pt_invD(3,5,6) [OF 0(1), of pt] pte_addr_nonzero [OF _ _ PX_less] by auto
  then show ?case using 0 by (auto simp: walk_post_def pt_inv_def intro: exI [of _ ps])
next
  case (Suc l)
  let ?i = "PX (Suc l) va"
  let ?a = "pte_addr pt ?i"
  show ?case
  proof (cases "bit (ld64 (phys s) ?a) 0")
    case True
    with Suc.prems(2) have "walk_from l s (PTE2PA (ld64 (phys s) ?a)) va True = (a, s')"
      by (simp add: Let_def and_PTE_iff)
    from Suc.IH [OF pt_inv_child [OF Suc.prems(1) PX_less True] this] show ?thesis
      using walk_post_up [OF Suc.prems(1) True refl] by fastforce
  next
    case False
    obtain r s1 where r: "kalloc s = (r, s1)" by fastforce
    show ?thesis
    proof (cases "r = 0")
      case True
      with False r Suc.prems(2) have "a = 0" "s' = s1" by (auto simp: Let_def and_PTE_iff)
      moreover have "ps = []" using ka.alloc_zero_iff [OF pt_invD(1) [OF Suc.prems(1)]] r True by simp
      moreover have "s1 = s" using kalloc_empty [of s] pt_invD(1) [OF Suc.prems(1)] r \<open>ps = []\<close> by auto
      ultimately show ?thesis using Suc.prems(1) by (auto simp: walk_post_def pt_inv_def)
    next
      case rn0: False
      define s2 where "s2 = s1\<lparr>phys := sd64 (memset (phys s1) r 0 4096) ?a (PA2PTE r OR PTE_V)\<rparr>"
      from walk_link [OF Suc.prems(1) False r rn0 s2_def] obtain qs where
        qs: "ps = r # qs" "free_pages s2 qs" "kend s2 = kend s" "ld64 (phys s2) ?a = PA2PTE r OR PTE_V"
          "PTE2PA (PA2PTE r OR PTE_V) = r"
        and cons: "pt_pages (Suc l) (phys s2) pt + mset qs = pt_pages (Suc l) (phys s) pt + mset ps"
        and same: "\<And>va'. pte_of (Suc l) (phys s2) pt va' = pte_of (Suc l) (phys s) pt va'"
        and frame: "\<And>x. \<not> in_page x pt \<Longrightarrow> \<not> in_page x r \<Longrightarrow> phys s2 x = phys s x"
        by auto
      have inv2: "pt_inv (Suc l) s2 pt qs"
        by (rule pt_inv_conserve [OF Suc.prems(1) qs(2,3) cons])
      have v2: "bit (ld64 (phys s2) ?a) 0" using qs(4) by (simp add: bit_simps)
      have "walk_from l s2 r va True = (a, s')"
        using Suc.prems(2) False r rn0 by (simp add: Let_def and_PTE_iff s2_def)
      then obtain ps' where "walk_post l s2 r qs va a s' ps'" and len: "length qs \<le> length ps' + l"
        using Suc.IH [of s2 r qs] pt_inv_child [OF inv2 PX_less v2] qs(4,5) by auto
      then have "walk_post (Suc l) s2 pt qs va a s' ps'"
        using walk_post_up [OF inv2 v2] qs(4,5) by auto
      moreover have "phys s2 x = phys s x"
        if "\<And>p. p \<in># pt_pages (Suc l) (phys s) pt + mset ps \<Longrightarrow> \<not> in_page x p" for x
        using that [of pt] that [of r] qs(1) by (intro frame) auto
      ultimately show ?thesis
        using walk_post_trans [OF qs(2,3) cons same] len qs(1) by fastforce
    qed
  qed
qed

section \<open>Storing a leaf entry\<close>

lemma store_leaf:
  assumes "leaf l m pt va = Some a" and "msdistinct (pt_pages l m pt)"
    and "\<And>p. p \<in># pt_pages l m pt \<Longrightarrow> aligned p"
  shows "pt_pages l (sd64 m a v) pt = pt_pages l m pt \<and>
     (\<forall>va'. leaf l (sd64 m a v) pt va' = leaf l m pt va') \<and>
     (\<forall>va'. pte_of l (sd64 m a v) pt va' =
        (if \<forall>k\<le>l. PX k va' = PX k va then v else pte_of l m pt va')) \<and>
     (\<forall>x. (\<forall>p. p \<in># pt_pages l m pt \<longrightarrow> \<not> in_page x p) \<longrightarrow> sd64 m a v x = m x)"
  using assms
proof (induction l arbitrary: pt)
  case 0
  then have a: "a = pte_addr pt (PX 0 va)" and al: "aligned pt" by simp_all
  have "sd64 m a v x = m x" if "\<not> in_page x pt" for x
    using that al unfolding a by (intro sd64_other) (auto dest: within_pte_page [OF _ PX_less])
  moreover have "ld64 (sd64 m a v) (pte_addr pt (PX 0 va')) =
      (if PX 0 va' = PX 0 va then v else ld64 m (pte_addr pt (PX 0 va')))" for va'
    unfolding a using ld64_sd64_pte [OF al al PX_less PX_less, of m 0 va v 0 va'] by auto
  ultimately show ?case by (simp add: pte_of_def)
next
  case (Suc l)
  let ?i = "PX (Suc l) va" and ?m' = "sd64 m a v"
  let ?c = "PTE2PA (ld64 m (pte_addr pt ?i))"
  have v: "bit (ld64 m (pte_addr pt ?i)) 0" and la: "leaf l m ?c va = Some a"
    using Suc.prems(1) by (auto simp: Let_def split: if_splits)
  have sub: "pt_pages l m ?c \<subseteq># pt_pages (Suc l) m pt"
    using subtree_subset [OF PX_less] subtree_PX [OF v] by metis
  have alc: "aligned p" if "p \<in># pt_pages l m ?c" for p
    using that sub Suc.prems(3) by (auto dest: mset_subset_eqD)
  note I = Suc.IH [OF la msdistinct_subset [OF Suc.prems(2) sub] alc]
  then have IH: "pt_pages l ?m' ?c = pt_pages l m ?c"
      "\<And>va'. leaf l ?m' ?c va' = leaf l m ?c va'"
      "\<And>va'. pte_of l ?m' ?c va' = (if \<forall>k\<le>l. PX k va' = PX k va then v else pte_of l m ?c va')"
      "\<And>x. (\<And>p. p \<in># pt_pages l m ?c \<Longrightarrow> \<not> in_page x p) \<Longrightarrow> ?m' x = m x"
    by (simp_all add: I)
  have d: "msdistinct (pt_pages (Suc l) m pt + {#})" using Suc.prems(2) by simp
  have al: "aligned p" if "p \<in># pt_pages (Suc l) m pt + {#}" for p
    using that Suc.prems(3) by simp
  have frame: "?m' x = m x" if "\<And>p. p \<in># pt_pages l m ?c + {#} \<Longrightarrow> \<not> in_page x p" for x
    using that by (intro IH(4)) simp
  have cons: "pt_pages l ?m' ?c + {#} = pt_pages l m ?c + {#}" by (simp add: IH(1))
  note lift = subtree_lift [OF d al PX_less v refl frame cons]
  have old: "leaf (Suc l) m pt va' = leaf l m ?c va' \<and> pte_of (Suc l) m pt va' = pte_of l m ?c va'"
    if "PX (Suc l) va' = ?i" for va'
    using that v by (simp add: pte_of_Suc)
  have "leaf (Suc l) ?m' pt va' = leaf (Suc l) m pt va'" for va'
    using lift(2,3) [of va'] old [of va'] IH(2) by (cases "PX (Suc l) va' = ?i") (metis, blast)
  moreover have "pte_of (Suc l) ?m' pt va' =
      (if \<forall>k\<le>Suc l. PX k va' = PX k va then v else pte_of (Suc l) m pt va')" for va'
    using lift(2,3) [of va'] old [of va'] IH(3) [of va']
    by (cases "PX (Suc l) va' = ?i") (auto simp: le_Suc_eq)
  moreover have "?m' x = m x" if "\<forall>p. p \<in># pt_pages (Suc l) m pt \<longrightarrow> \<not> in_page x p" for x
    using that sub by (intro IH(4)) (auto dest: mset_subset_eqD)
  ultimately show ?case using lift(1) by simp
qed

section \<open>Steps on a page table\<close>

text \<open>
  \<open>pt_step s pt ps s' ps'\<close>: some page-table operation went from \<open>s\<close> to \<open>s'\<close>, moving pages only
  between the free list and the tables, and writing only to those pages.
\<close>

definition pt_step :: "'a kmem_scheme \<Rightarrow> uint64 \<Rightarrow> uint64 list \<Rightarrow> 'a kmem_scheme \<Rightarrow> uint64 list \<Rightarrow> bool" where
  "pt_step s pt ps s' ps' \<longleftrightarrow> free_pages s' ps' \<and> kend s' = kend s \<and>
     pt_pages 2 (phys s') pt + mset ps' = pt_pages 2 (phys s) pt + mset ps \<and>
     (\<forall>x. (\<forall>p. p \<in># pt_pages 2 (phys s) pt + mset ps \<longrightarrow> \<not> in_page x p) \<longrightarrow> phys s' x = phys s x)"

lemma pt_step_refl: "free_pages s ps \<Longrightarrow> pt_step s pt ps s ps"
  by (simp add: pt_step_def)

lemma pt_step_trans: "pt_step s pt ps t qs \<Longrightarrow> pt_step t pt qs u rs \<Longrightarrow> pt_step s pt ps u rs"
  by (simp add: pt_step_def)

lemma pt_step_inv [inv_intros]: "pt_inv 2 s pt ps \<Longrightarrow> pt_step s pt ps s' ps' \<Longrightarrow> pt_inv 2 s' pt ps'"
  by (auto simp: pt_step_def intro: pt_inv_conserve)

lemma walk_post_step: "walk_post 2 s pt ps va a s' ps' \<Longrightarrow> pt_step s pt ps s' ps'"
  by (simp add: walk_post_def pt_step_def)

text \<open>Storing through the pointer that \<open>walk\<close> returned changes the translation of one page.\<close>

lemma store_step:
  assumes inv: "pt_inv 2 s pt ps" and leaf: "leaf 2 (phys s) pt a = Some pte"
    and a: "aligned a" "a < MAXVA" and s': "s' = s\<lparr>phys := sd64 (phys s) pte e\<rparr>"
  shows "pt_step s pt ps s' ps"
    and "aligned va \<Longrightarrow> va < MAXVA \<Longrightarrow>
      pte_of 2 (phys s') pt va = (if va = a then e else pte_of 2 (phys s) pt va)"
proof -
  have d: "msdistinct (pt_pages 2 (phys s) pt)" and dj: "set_mset (pt_pages 2 (phys s) pt) \<inter> set ps = {}"
    using msdistinct_union [OF pt_invD(2) [OF inv]] by auto
  have al: "aligned p" if "p \<in># pt_pages 2 (phys s) pt" for p
    using that pt_invD(5) [OF inv] by simp
  note st = store_leaf [OF leaf d al, of e]
  have "free_pages (s\<lparr>phys := phys s'\<rparr>) ps"
  proof (rule free_pages_frame [OF pt_invD(1) [OF inv]])
    fix p x assume p: "p \<in> set ps" "in_page x p"
    have "\<not> in_page x q" if q: "q \<in># pt_pages 2 (phys s) pt" for q
    proof
      assume "in_page x q"
      then have "p = q" using pages_disjoint al [OF q] pt_invD(5) [OF inv, of p] p by auto
      then show False using p q dj by auto
    qed
    then show "phys s' x = phys s x" using st by (simp add: s')
  qed
  then show "pt_step s pt ps s' ps" using st by (auto simp: pt_step_def s')
  show "pte_of 2 (phys s') pt va = (if va = a then e else pte_of 2 (phys s) pt va)"
    if va: "aligned va" "va < MAXVA"
  proof -
    have "va = a \<longleftrightarrow> (\<forall>k\<le>2. PX k va = PX k a)" using PX_inj [OF va(1) a(1) va(2) a(2)] by auto
    then show ?thesis using st by (simp add: s')
  qed
qed

text \<open>The first iteration of \<open>mappages\<close>.\<close>

lemma walk_alloc:
  assumes "pt_inv 2 s pt ps" and "va < MAXVA"
  obtains a s' ps' where "walk s pt va True = Ok (a, s')" and "pt_step s pt ps s' ps'"
    and "\<And>va'. pte_of 2 (phys s') pt va' = pte_of 2 (phys s) pt va'"
    and "a = 0 \<Longrightarrow> ps' = []" and "a \<noteq> 0 \<Longrightarrow> leaf 2 (phys s') pt va = Some a"
    and "a \<noteq> 0 \<Longrightarrow> ld64 (phys s') a = pte_of 2 (phys s) pt va" and "length ps \<le> length ps' + 2"
proof -
  obtain a s' where w: "walk_from 2 s pt va True = (a, s')" by fastforce
  from walk_from_alloc [OF assms(1) w] obtain ps' where post: "walk_post 2 s pt ps va a s' ps'"
    and len: "length ps \<le> length ps' + 2" by auto
  then have same: "pte_of 2 (phys s') pt va' = pte_of 2 (phys s) pt va'" for va'
    by (simp add: walk_post_def)
  have leaf: "leaf 2 (phys s') pt va = Some a" if "a \<noteq> 0" using post that by (simp add: walk_post_def)
  then have "ld64 (phys s') a = pte_of 2 (phys s) pt va" if "a \<noteq> 0"
    using that same [of va] by (simp add: pte_of_def)
  then show ?thesis
    using that [of a s' ps'] w assms(2) walk_post_step [OF post] same leaf post len
    by (auto simp: walk_def walk_post_def)
qed

lemma walk_lookup:
  assumes "va < MAXVA"
  shows "walk s pt va False = Ok (case leaf 2 (phys s) pt va of None \<Rightarrow> 0 | Some a \<Rightarrow> a, s)"
  using assms by (simp add: walk_def walk_from_lookup)

text \<open>The pointer to a leaf entry is never null, so \<open>walk\<close> returns null exactly when a table is missing.\<close>

lemma leaf_nonzero:
  assumes "pt_inv l s pt ps" and "leaf l (phys s) pt va = Some a"
  shows "a \<noteq> 0"
  using assms
proof (induction l arbitrary: pt)
  case 0
  then have "ram_page s pt" by (auto dest: pt_invD(3))
  then have "aligned pt" "pt \<noteq> 0" using pt_invD(6) [OF 0(1)] by (auto simp: ram_page_def)
  then show ?case using 0 pte_addr_nonzero [OF _ _ PX_less] by auto
next
  case (Suc l)
  then show ?case
    using pt_inv_child [OF Suc.prems(1) PX_less] by (auto simp: Let_def split: if_splits)
qed

lemma walk_lookup_pte:
  assumes "pt_inv 2 s pt ps" and "va < MAXVA"
  obtains "walk s pt va False = Ok (0, s)" and "pte_of 2 (phys s) pt va = 0"
  | a where "walk s pt va False = Ok (a, s)" and "a \<noteq> 0" and "leaf 2 (phys s) pt va = Some a"
    and "ld64 (phys s) a = pte_of 2 (phys s) pt va"
  using walk_lookup [OF assms(2), of s pt] leaf_nonzero [OF assms(1)]
  by (cases "leaf 2 (phys s) pt va") (auto simp: pte_of_def)

section \<open>Mapping\<close>

text \<open>\<open>mapped_upto k\<close>: the first \<open>k\<close> pages from \<open>a\<close> on are mapped to \<open>pa\<close> on, every other page is as before.\<close>

definition mapped_upto :: "nat \<Rightarrow> mem \<Rightarrow> mem \<Rightarrow> uint64 \<Rightarrow> uint64 \<Rightarrow> uint64 \<Rightarrow> uint64 \<Rightarrow> bool" where
  "mapped_upto k m m' pt a pa perm \<longleftrightarrow> (\<forall>va. aligned va \<longrightarrow> va < MAXVA \<longrightarrow>
     pte_of 2 m' pt va =
       (if within va a (4096 * k) then PA2PTE (pa + (va - a)) OR perm OR PTE_V else pte_of 2 m pt va))"

lemma within_page_Suc:
  assumes "aligned a" "aligned va"
  shows "within va a (4096 * Suc k) \<longleftrightarrow> va = a \<or> within va (a + PGSIZE) (4096 * k)" (is "?L \<longleftrightarrow> ?R")
proof (cases "unat (va - a) < 4096")
  case True
  then have "in_page va a" by (simp add: within_def)
  moreover have "in_page va va" by simp
  ultimately have "va = a" using pages_disjoint [OF assms(1,2)] by blast
  then show ?thesis by simp
next
  case False
  then have "unat (va - a - 4096) = unat (va - a) - 4096"
    by (simp add: unat_sub word_le_nat_alt)
  then have "within va (a + PGSIZE) (4096 * k) \<longleftrightarrow> unat (va - a) - 4096 < 4096 * k"
    by (simp add: within_def PGSIZE_def diff_diff_eq)
  moreover have "va \<noteq> a" using False by auto
  ultimately show ?thesis using False by (auto simp: within_def)
qed

lemma not_within_next: "k * 4096 < 2 ^ 38 \<Longrightarrow> \<not> within a (a + PGSIZE) (4096 * k)"
  by (simp add: within_def PGSIZE_def)

lemma aligned_next: "aligned a \<Longrightarrow> a < MAXVA \<Longrightarrow> aligned (a + PGSIZE)"
  by (simp add: aligned_iff_dvd unat_next_page)

lemma mapped_upto_Suc:
  assumes a: "aligned a" "a < MAXVA"
    and one: "\<And>va. aligned va \<Longrightarrow> va < MAXVA \<Longrightarrow>
          pte_of 2 m1 pt va = (if va = a then PA2PTE pa OR perm OR PTE_V else pte_of 2 m pt va)"
    and rest: "mapped_upto k m1 m' pt (a + PGSIZE) (pa + PGSIZE) perm" and k: "k * 4096 < 2 ^ 38"
  shows "mapped_upto (Suc k) m m' pt a pa perm"
  unfolding mapped_upto_def
proof (intro allI impI)
  fix va assume va: "aligned va" "va < MAXVA"
  note self = not_within_next [OF k, of a]
  note eq = within_page_Suc [OF a(1) va(1), of k]
  have "pa + PGSIZE + (va - (a + PGSIZE)) = pa + (va - a)" by simp
  then show "pte_of 2 m' pt va = (if within va a (4096 * Suc k)
      then PA2PTE (pa + (va - a)) OR perm OR PTE_V else pte_of 2 m pt va)"
    using rest va one [OF va] eq self by (auto simp: mapped_upto_def)
qed

lemma mapped_upto_0: "mapped_upto 0 m m' pt a pa perm \<longleftrightarrow>
    (\<forall>va. aligned va \<longrightarrow> va < MAXVA \<longrightarrow> pte_of 2 m' pt va = pte_of 2 m pt va)"
  by (simp add: mapped_upto_def)

lemma mappages_from_correct:
  assumes "pt_inv 2 s pt ps" and "aligned a" and "unat a + 4096 * n \<le> unat MAXVA" and "0 < n"
    and "lastva = a + of_nat (4096 * (n - 1))"
    and "\<And>va. aligned va \<Longrightarrow> va < MAXVA \<Longrightarrow> within va a (4096 * n) \<Longrightarrow> \<not> bit (pte_of 2 (phys s) pt va) 0"
  shows "\<exists>ok s' ps' k. mappages_from s pt a lastva pa perm = Ok (ok, s') \<and> pt_step s pt ps s' ps' \<and>
           mapped_upto k (phys s) (phys s') pt a pa perm \<and> (if ok then k = n else k < n \<and> ps' = []) \<and> length ps \<le> length ps' + 2 * n"
  using assms
proof (induction n arbitrary: s ps a pa)
  case (Suc n)
  note inv = Suc.prems(1) and al = Suc.prems(2)
  have amax: "a < MAXVA" using Suc.prems(3) by (simp add: word_less_nat_alt)
  obtain pte s1 ps1 where w: "walk s pt a True = Ok (pte, s1)" "pt_step s pt ps s1 ps1"
    and same: "\<And>va. pte_of 2 (phys s1) pt va = pte_of 2 (phys s) pt va"
    and z: "pte = 0 \<Longrightarrow> ps1 = []" and lf: "pte \<noteq> 0 \<Longrightarrow> leaf 2 (phys s1) pt a = Some pte"
    and ld: "pte \<noteq> 0 \<Longrightarrow> ld64 (phys s1) pte = pte_of 2 (phys s) pt a"
    and len: "length ps \<le> length ps1 + 2"
    by (rule walk_alloc [OF inv amax]) blast
  show ?case
  proof (cases "pte = 0")
    case True
    then have "mappages_from s pt a lastva pa perm = Ok (False, s1)"
      using w(1) by (subst mappages_from.simps) simp
    moreover have "mapped_upto 0 (phys s) (phys s1) pt a pa perm" using same by (simp add: mapped_upto_0)
    ultimately show ?thesis using w(2) z [OF True] len by auto
  next
    case False
    let ?e = "PA2PTE pa OR perm OR PTE_V"
    define s2 where "s2 = s1\<lparr>phys := sd64 (phys s1) pte ?e\<rparr>"
    have inv1: "pt_inv 2 s1 pt ps1" by (rule pt_step_inv [OF inv w(2)])
    note st = store_step [OF inv1 lf [OF False] al amax s2_def]
    have step: "pt_step s pt ps s2 ps1" by (rule pt_step_trans [OF w(2) st(1)])
    have one: "pte_of 2 (phys s2) pt va = (if va = a then ?e else pte_of 2 (phys s) pt va)"
      if "aligned va" "va < MAXVA" for va using st(2) [OF that] same by simp
    have "\<not> bit (ld64 (phys s1) pte) 0"
      using ld [OF False] Suc.prems(6) [OF al amax] by simp
    then have unf: "mappages_from s pt a lastva pa perm =
        (if a = lastva then Ok (True, s2) else mappages_from s2 pt (a + PGSIZE) lastva (pa + PGSIZE) perm)"
      using w(1) False and_PTE_iff(1) by (subst mappages_from.simps) (simp add: s2_def Let_def)
    have nb: "n * 4096 < 2 ^ 38" using Suc.prems(3) by (simp add: layout_defs)
    show ?thesis
    proof (cases "n = 0")
      case True
      then have "mapped_upto 1 (phys s) (phys s2) pt a pa perm"
        using mapped_upto_Suc [OF al amax one, where m' = "phys s2" and k = 0] by (simp add: mapped_upto_0)
      moreover have "mappages_from s pt a lastva pa perm = Ok (True, s2)"
        using unf True Suc.prems(5) by simp
      ultimately show ?thesis using step True len by auto
    next
      case n: False
      have last: "lastva = (a + PGSIZE) + of_nat (4096 * (n - 1))"
        using Suc.prems(5) n by (cases n) (simp_all add: PGSIZE_def algebra_simps)
      have "unat (of_nat (4096 * n) :: uint64) = 4096 * n"
        using nb by (intro unat_of_nat_small) simp
      then have "(of_nat (4096 * n) :: uint64) \<noteq> 0" using n by (metis mult_is_0 unat_0 zero_neq_numeral)
      then have "a \<noteq> lastva" using Suc.prems(5) by simp
      moreover have "\<exists>ok s' ps' k. mappages_from s2 pt (a + PGSIZE) lastva (pa + PGSIZE) perm = Ok (ok, s') \<and>
          pt_step s2 pt ps1 s' ps' \<and> mapped_upto k (phys s2) (phys s') pt (a + PGSIZE) (pa + PGSIZE) perm \<and>
          (if ok then k = n else k < n \<and> ps' = []) \<and> length ps1 \<le> length ps' + 2 * n"
      proof (rule Suc.IH [OF pt_step_inv [OF inv step] aligned_next [OF al amax]])
        show "unat (a + PGSIZE) + 4096 * n \<le> unat MAXVA"
          using Suc.prems(3) amax by (simp add: unat_next_page)
        fix va assume va: "aligned va" "va < MAXVA" "within va (a + PGSIZE) (4096 * n)"
        have "va \<noteq> a" using va(3) not_within_next [OF nb, of a] by auto
        moreover have "within va a (4096 * Suc n)" using within_page_Suc [OF al va(1)] n va(3) by auto
        ultimately show "\<not> bit (pte_of 2 (phys s2) pt va) 0"
          using one [OF va(1,2)] Suc.prems(6) [OF va(1,2)] by simp
      qed (use n last in auto)
      ultimately obtain ok s' ps' k where r: "mappages_from s pt a lastva pa perm = Ok (ok, s')"
          "pt_step s2 pt ps1 s' ps'" "if ok then k = n else k < n \<and> ps' = []"
          "length ps1 \<le> length ps' + 2 * n"
        and m: "mapped_upto k (phys s2) (phys s') pt (a + PGSIZE) (pa + PGSIZE) perm"
        using unf by (auto simp del: if_split)
      have "k * 4096 < 2 ^ 38" using r(3) nb by (auto split: if_splits)
      have "length ps \<le> length ps' + 2 * Suc n" using len r(4) by simp
      with mapped_upto_Suc [OF al amax one m \<open>k * 4096 < 2 ^ 38\<close>] r pt_step_trans [OF step r(2)] show ?thesis
        by (intro exI [of _ ok] exI [of _ s'] exI [of _ ps'] exI [of _ "Suc k"]) auto
    qed
  qed
qed simp

section \<open>Unmapping\<close>

text \<open>The physical pages mapped at the \<open>n\<close> virtual pages from \<open>a\<close> on.\<close>

fun data_pages :: "mem \<Rightarrow> uint64 \<Rightarrow> uint64 \<Rightarrow> nat \<Rightarrow> uint64 list" where
  "data_pages m pt a 0 = []"
| "data_pages m pt a (Suc n) =
     (let e = pte_of 2 m pt a in (if bit e 0 then [PTE2PA e] else []) @ data_pages m pt (a + PGSIZE) n)"

lemma data_pages_cong:
  assumes "aligned a" and "unat a + 4096 * n \<le> unat MAXVA"
    and "\<And>va. aligned va \<Longrightarrow> va < MAXVA \<Longrightarrow> a \<le> va \<Longrightarrow> pte_of 2 m' pt va = pte_of 2 m pt va"
  shows "data_pages m' pt a n = data_pages m pt a n"
  using assms
proof (induction n arbitrary: a)
  case (Suc n)
  have a: "a < MAXVA" using Suc.prems(2) by (simp add: word_less_nat_alt)
  have "data_pages m' pt (a + PGSIZE) n = data_pages m pt (a + PGSIZE) n"
    using Suc.prems a
    by (intro Suc.IH) (auto simp: aligned_next unat_next_page word_le_nat_alt)
  with Suc.prems(3) [OF Suc.prems(1) a] show ?case by simp
qed simp

text \<open>Freeing a page that is not a table leaves the page table alone.\<close>

lemma kfree_step:
  assumes inv: "pt_inv 2 s pt ps" and p: "ram_page s p" "p \<notin># pt_pages 2 (phys s) pt + mset ps"
  obtains s' where "kfree s p = Ok s'" and "pt_inv 2 s' pt (p # ps)" and "kend s' = kend s"
    and "pt_pages 2 (phys s') pt = pt_pages 2 (phys s) pt"
    and "\<And>va. pte_of 2 (phys s') pt va = pte_of 2 (phys s) pt va"
    and "\<And>va. leaf 2 (phys s') pt va = leaf 2 (phys s) pt va"
proof -
  from p have "p \<notin> set ps" by simp
  from kfree_Ok [OF pt_invD(1) [OF inv] p(1) this] obtain s' where
    s': "kfree s p = Ok s'" "free_pages s' (p # ps)" "kend s' = kend s"
    and fr: "\<And>x. \<not> in_page x p \<Longrightarrow> phys s' x = phys s x" by blast
  have "pt_pages 2 (phys s') pt = pt_pages 2 (phys s) pt \<and> (\<forall>va. leaf 2 (phys s') pt va = leaf 2 (phys s) pt va) \<and>
        (\<forall>va. pte_of 2 (phys s') pt va = pte_of 2 (phys s) pt va)"
  proof (rule pt_frame)
    fix q assume q: "q \<in># pt_pages 2 (phys s) pt"
    then have "aligned q" "aligned p" "q \<noteq> p" using pt_invD(5) [OF inv] p by (auto simp: ram_page_def)
    then show "aligned q" and "\<And>x. in_page x q \<Longrightarrow> phys s' x = phys s x"
      using fr pages_disjoint by blast+
  qed
  moreover from this have "pt_inv 2 s' pt (p # ps)"
    using s' inv p(2) by (auto simp: pt_inv_def ram_page_def msdistinct_add)
  ultimately show ?thesis using that s' by blast
qed

text \<open>\<open>unmapped\<close>: the \<open>n\<close> pages from \<open>a\<close> on have no valid entry any more, all others are as before.\<close>

definition unmapped :: "nat \<Rightarrow> mem \<Rightarrow> mem \<Rightarrow> uint64 \<Rightarrow> uint64 \<Rightarrow> bool" where
  "unmapped n m m' pt a \<longleftrightarrow> (\<forall>va. aligned va \<longrightarrow> va < MAXVA \<longrightarrow>
     (if within va a (4096 * n) then \<not> bit (pte_of 2 m' pt va) 0 else pte_of 2 m' pt va = pte_of 2 m pt va))"

lemma unmapped_Suc:
  assumes a: "aligned a" "a < MAXVA" and k: "n * 4096 < 2 ^ 38"
    and one: "\<And>va. aligned va \<Longrightarrow> va < MAXVA \<Longrightarrow> va \<noteq> a \<Longrightarrow> pte_of 2 m1 pt va = pte_of 2 m pt va"
    and self: "\<not> bit (pte_of 2 m1 pt a) 0" and rest: "unmapped n m1 m' pt (a + PGSIZE)"
  shows "unmapped (Suc n) m m' pt a"
  unfolding unmapped_def
proof (intro allI impI)
  fix va assume va: "aligned va" "va < MAXVA"
  from within_page_Suc [OF a(1) va(1)] show "if within va a (4096 * Suc n) then \<not> bit (pte_of 2 m' pt va) 0 else pte_of 2 m' pt va = pte_of 2 m pt va"
    using rest va one [OF va] self not_within_next [OF k, of a] by (auto simp: unmapped_def)
qed

lemma uvmunmap_from_free:
  assumes "pt_inv 2 s pt ps" and "aligned a" and "unat a + 4096 * n \<le> unat MAXVA"
    and "stop = a + of_nat (4096 * n)"
    and "msdistinct (pt_pages 2 (phys s) pt + mset (data_pages (phys s) pt a n) + mset ps)"
    and "\<And>p. p \<in> set (data_pages (phys s) pt a n) \<Longrightarrow> ram_page s p"
  shows "\<exists>s'. uvmunmap_from s pt a stop True = Ok s' \<and>
           pt_inv 2 s' pt (rev (data_pages (phys s) pt a n) @ ps) \<and>
           pt_pages 2 (phys s') pt = pt_pages 2 (phys s) pt \<and> unmapped n (phys s) (phys s') pt a"
  using assms
proof (induction n arbitrary: s ps a)
  case 0
  then show ?case by (subst uvmunmap_from.simps) (simp add: unmapped_def)
next
  case (Suc n)
  note inv = Suc.prems(1) and al = Suc.prems(2)
  have amax: "a < MAXVA" using Suc.prems(3) by (simp add: word_less_nat_alt)
  have nb: "n * 4096 < 2 ^ 38" using Suc.prems(3) by (simp add: layout_defs)
  have lt: "a < stop" using Suc.prems(3,4) unat_add_of_nat [of a "4096 * Suc n"]
    by (simp add: word_less_nat_alt layout_defs)
  have stop: "stop = (a + PGSIZE) + of_nat (4096 * n)"
    using Suc.prems(4) by (simp add: PGSIZE_def algebra_simps)
  have room: "unat (a + PGSIZE) + 4096 * n \<le> unat MAXVA"
    using Suc.prems(3) amax by (simp add: unat_next_page)
  have al': "aligned (a + PGSIZE)" by (rule aligned_next [OF al amax])
  let ?e = "pte_of 2 (phys s) pt a" and ?rest = "data_pages (phys s) pt (a + PGSIZE) n"
  have rest_cong: "data_pages m pt (a + PGSIZE) n = ?rest"
    if "\<And>va. aligned va \<Longrightarrow> va < MAXVA \<Longrightarrow> va \<noteq> a \<Longrightarrow> pte_of 2 m pt va = pte_of 2 (phys s) pt va" for m
  proof (rule data_pages_cong [OF al' room])
    fix va assume va: "aligned va" "va < MAXVA" "a + PGSIZE \<le> va"
    then have "va \<noteq> a" using amax by (auto simp: word_le_nat_alt unat_next_page)
    then show "pte_of 2 m pt va = pte_of 2 (phys s) pt va" using that va by blast
  qed
  show ?case
  proof (cases "bit ?e 0")
    case False
    then have e0: "\<not> (?e AND PTE_V \<noteq> 0)" by (simp only: and_PTE_iff not_False_eq_True)
    have "uvmunmap_from s pt a stop True = uvmunmap_from s pt (a + PGSIZE) stop True"
      by (subst uvmunmap_from.simps, rule walk_lookup_pte [OF inv amax]) (use lt e0 in simp_all)
    moreover have "data_pages (phys s) pt a (Suc n) = ?rest" using False by simp
    moreover obtain s' where "uvmunmap_from s pt (a + PGSIZE) stop True = Ok s'"
        "pt_inv 2 s' pt (rev ?rest @ ps)" "pt_pages 2 (phys s') pt = pt_pages 2 (phys s) pt"
        "unmapped n (phys s) (phys s') pt (a + PGSIZE)"
      using Suc.IH [OF inv al' room stop] Suc.prems(5,6) calculation(2) by metis
    ultimately show ?thesis
      using unmapped_Suc [OF al amax nb _ False] by metis
  next
    case True
    let ?p = "PTE2PA ?e"
    obtain pte where w: "walk s pt a False = Ok (pte, s)" "pte \<noteq> 0" "leaf 2 (phys s) pt a = Some pte"
        "ld64 (phys s) pte = ?e"
      by (rule walk_lookup_pte [OF inv amax]) (use True in auto)
    have ds: "data_pages (phys s) pt a (Suc n) = ?p # ?rest" using True by simp
    have p: "ram_page s ?p" "?p \<notin># pt_pages 2 (phys s) pt + mset ps"
      using Suc.prems(5,6) unfolding ds by (simp_all add: msdistinct_add)
    obtain s1 where s1: "kfree s ?p = Ok s1" "pt_inv 2 s1 pt (?p # ps)" "kend s1 = kend s"
        "pt_pages 2 (phys s1) pt = pt_pages 2 (phys s) pt"
        and same: "\<And>va. pte_of 2 (phys s1) pt va = pte_of 2 (phys s) pt va"
          "\<And>va. leaf 2 (phys s1) pt va = leaf 2 (phys s) pt va"
      by (rule kfree_step [OF inv p]) blast
    define s2 where "s2 = s1\<lparr>phys := sd64 (phys s1) pte 0\<rparr>"
    have lf: "leaf 2 (phys s1) pt a = Some pte" using w same by simp
    note st = store_step [OF s1(2) lf al amax s2_def]
    have inv2: "pt_inv 2 s2 pt (?p # ps)" by (rule pt_step_inv [OF s1(2) st(1)])
    have pp: "pt_pages 2 (phys s2) pt = pt_pages 2 (phys s) pt"
      using st(1) s1(4) by (simp add: pt_step_def)
    have one: "pte_of 2 (phys s2) pt va = pte_of 2 (phys s) pt va"
      if "aligned va" "va < MAXVA" "va \<noteq> a" for va using st(2) [OF that(1,2)] that same by simp
    have "uvmunmap_from s pt a stop True = uvmunmap_from s2 pt (a + PGSIZE) stop True"
      using lt w s1 and_PTE_iff(1) [of ?e] True by (subst uvmunmap_from.simps) (simp add: s2_def)
    moreover have "\<exists>s'. uvmunmap_from s2 pt (a + PGSIZE) stop True = Ok s' \<and>
           pt_inv 2 s' pt (rev (data_pages (phys s2) pt (a + PGSIZE) n) @ ?p # ps) \<and>
           pt_pages 2 (phys s') pt = pt_pages 2 (phys s2) pt \<and> unmapped n (phys s2) (phys s') pt (a + PGSIZE)"
    proof (rule Suc.IH [OF inv2 al' room stop])
      show "msdistinct (pt_pages 2 (phys s2) pt + mset (data_pages (phys s2) pt (a + PGSIZE) n) + mset (?p # ps))"
        using Suc.prems(5) ds pp rest_cong [OF one] by simp
      show "ram_page s2 q" if "q \<in> set (data_pages (phys s2) pt (a + PGSIZE) n)" for q
        using that Suc.prems(6) [of q] ds rest_cong [OF one] s1(3) by (simp add: s2_def ram_page_def)
    qed
    moreover have z: "\<not> bit (pte_of 2 (phys s2) pt a) 0" using st(2) [OF al amax] by simp
    ultimately obtain s' where "uvmunmap_from s pt a stop True = Ok s'"
        "pt_inv 2 s' pt (rev ?rest @ ?p # ps)" "pt_pages 2 (phys s') pt = pt_pages 2 (phys s) pt"
        "unmapped n (phys s2) (phys s') pt (a + PGSIZE)"
      using rest_cong [OF one] pp by auto
    with unmapped_Suc [OF al amax nb one z] show ?thesis unfolding ds by auto
  qed
qed

section \<open>Properties\<close>

lemma aligned_mod: "aligned a \<longleftrightarrow> a mod PGSIZE = 0"
  by (simp add: aligned_def)

lemma of_nat_pages:
  assumes "0 < n" and "4096 * n \<le> unat MAXVA"
  shows "of_nat (4096 * n) mod PGSIZE = 0" and "(of_nat (4096 * n) :: uint64) \<noteq> 0"
    and "a + of_nat (4096 * n) - PGSIZE = a + of_nat (4096 * (n - 1))"
proof -
  have u: "unat (of_nat (4096 * n) :: uint64) = 4096 * n"
    using assms by (intro unat_of_nat_small) (simp add: layout_defs)
  have "4096 dvd unat (of_nat (4096 * n) :: uint64)" unfolding u by simp
  then show "of_nat (4096 * n) mod PGSIZE = 0"
    by (simp only: aligned_iff_dvd aligned_mod [symmetric])
  show "(of_nat (4096 * n) :: uint64) \<noteq> 0" using u assms(1) by (metis mult_is_0 neq0_conv unat_0 zero_neq_numeral)
  show "a + of_nat (4096 * n) - PGSIZE = a + of_nat (4096 * (n - 1))"
    using assms(1) by (cases n) (simp_all add: PGSIZE_def algebra_simps)
qed

text \<open>
  A concrete machine for instances of the properties: an empty page table at \<open>0x80022000\<close>, a data
  page at \<open>0x80023000\<close> and three free pages.
\<close>

definition demo :: kmem where
  "demo = \<lparr>phys = sd64 (sd64 (\<lambda>_. 0) 0x80024000 0x80025000) 0x80025000 0x80026000,
           freelist = 0x80024000, kend = 0x80022000\<rparr>"

lemma demo_page: "\<not> in_page x 0x80024000 \<Longrightarrow> \<not> in_page x 0x80025000 \<Longrightarrow> phys demo x = 0"
  unfolding demo_def by (simp, subst sd64_other, simp add: within_def, subst sd64_other, simp_all add: within_def)

lemma demo_free: "free_pages demo [0x80024000, 0x80025000, 0x80026000]"
proof -
  have z: "ld64 (phys demo) 0x80026000 = 0"
  proof (rule ld64_zero, rule demo_page)
    fix x :: uint64 assume "within x 0x80026000 8"
    then have x: "in_page x 0x80026000" by (simp add: within_def)
    show "\<not> in_page x 0x80024000" and "\<not> in_page x 0x80025000"
      using x by (simp_all add: in_page_iff aligned_def layout_defs)
  qed
  have b: "ld64 (phys demo) 0x80025000 = 0x80026000" by (simp add: demo_def)
  have "ld64 (phys demo) 0x80024000 = ld64 (sd64 (\<lambda>_. 0) 0x80024000 0x80025000) 0x80024000"
    unfolding demo_def kmem.simps
    by (rule ld64_cong, rule sd64_other) (auto simp: within_nowrap)
  then have a: "ld64 (phys demo) 0x80024000 = 0x80025000" by simp
  have "freelist demo = 0x80024000" "kend demo = 0x80022000" by (simp_all add: demo_def)
  then show ?thesis
    using a b z by (simp add: free_pages_def ram_page_def aligned_def layout_defs)
qed

lemma demo_pt: "pt_pages 2 (phys demo) 0x80022000 = {#0x80022000#}" "pte_of 2 (phys demo) 0x80022000 va = 0"
proof -
  have "phys demo x = 0" if "in_page x 0x80022000" for x
  proof (rule demo_page)
    show "\<not> in_page x 0x80024000" and "\<not> in_page x 0x80025000"
      using that by (simp_all add: in_page_iff aligned_def layout_defs)
  qed
  then show "pt_pages 2 (phys demo) 0x80022000 = {#0x80022000#}" "pte_of 2 (phys demo) 0x80022000 va = 0"
    by (simp_all add: zero_table aligned_def layout_defs)
qed

lemma demo_inv: "pt_inv 2 demo 0x80022000 [0x80024000, 0x80025000, 0x80026000]"
  using demo_free by (simp add: pt_inv_def demo_pt msdistinct_def ram_page_def aligned_def layout_defs)
    (simp add: demo_def)

lemma demo_mapped:
  "\<exists>s' ps'. mappages demo 0x80022000 0 4096 0x80023000 (PTE_R OR PTE_W OR PTE_U) = Ok (True, s') \<and>
     pt_step demo 0x80022000 [0x80024000, 0x80025000, 0x80026000] s' ps' \<and>
     mapped_upto 1 (phys demo) (phys s') 0x80022000 0 0x80023000 (PTE_R OR PTE_W OR PTE_U)"
proof -
  have "\<exists>ok s' ps' k. mappages_from demo 0x80022000 0 0 0x80023000 (PTE_R OR PTE_W OR PTE_U) = Ok (ok, s') \<and>
     pt_step demo 0x80022000 [0x80024000, 0x80025000, 0x80026000] s' ps' \<and>
     mapped_upto k (phys demo) (phys s') 0x80022000 0 0x80023000 (PTE_R OR PTE_W OR PTE_U) \<and>
     (if ok then k = 1 else k < 1 \<and> ps' = []) \<and> length [0x80024000, 0x80025000, 0x80026000::uint64] \<le> length ps' + 2 * 1"
    by (rule mappages_from_correct [OF demo_inv]) (auto simp: demo_pt aligned_def layout_defs)
  moreover have "mappages demo 0x80022000 0 4096 pa perm = mappages_from demo 0x80022000 0 0 pa perm" for pa perm
    by (simp add: mappages_def PGSIZE_def)
  ultimately show ?thesis by (auto split: if_splits)
qed

lemma mappages_maps:
  assumes "pt_inv 2 s pt ps" and "aligned va" and "0 < n" and "unat va + 4096 * n \<le> unat MAXVA"
    and "\<And>va'. aligned va' \<Longrightarrow> va' < MAXVA \<Longrightarrow> within va' va (4096 * n) \<Longrightarrow> \<not> bit (pte_of 2 (phys s) pt va') 0"
  shows "\<exists>ok s' ps' k. mappages s pt va (of_nat (4096 * n)) pa perm = Ok (ok, s') \<and>
           pt_inv 2 s' pt ps' \<and> pt_step s pt ps s' ps' \<and> mapped_upto k (phys s) (phys s') pt va pa perm \<and>
           (if ok then k = n else k < n \<and> ps' = []) \<and> (2 * n < length ps \<longrightarrow> ok)"
proof -
  have n: "4096 * n \<le> unat MAXVA" using assms(4) by simp
  have "mappages s pt va (of_nat (4096 * n)) pa perm =
      mappages_from s pt va (va + of_nat (4096 * (n - 1))) pa perm"
    using assms(2) of_nat_pages [OF assms(3) n] by (simp only: mappages_def aligned_mod if_False simp_thms)
  moreover have "\<exists>ok s' ps' k. mappages_from s pt va (va + of_nat (4096 * (n - 1))) pa perm = Ok (ok, s') \<and>
      pt_step s pt ps s' ps' \<and> mapped_upto k (phys s) (phys s') pt va pa perm \<and>
      (if ok then k = n else k < n \<and> ps' = []) \<and> length ps \<le> length ps' + 2 * n"
    by (rule mappages_from_correct [OF assms(1,2,4,3) refl]) (rule assms(5))
  ultimately obtain ok s' ps' k where
    "mappages s pt va (of_nat (4096 * n)) pa perm = Ok (ok, s')" "pt_step s pt ps s' ps'"
    "mapped_upto k (phys s) (phys s') pt va pa perm" "if ok then k = n else k < n \<and> ps' = []"
    "length ps \<le> length ps' + 2 * n" by metis
  then show ?thesis
    using pt_step_inv [OF assms(1)]
    by (intro exI [of _ ok] exI [of _ s'] exI [of _ ps'] exI [of _ k]) (auto split: if_splits)
qed

text \<open>
  C2. \<open>mappages\<close> on a well-formed page table, for \<open>n\<close> unmapped pages, never panics. It returns 0 after
  mapping exactly those pages to consecutive physical pages with the given permissions, or -1 with
  the free list empty and a strict prefix of the pages mapped. No other translation changes; the
  tables stay well-formed, and pages only move from the free list into the tables.
\<close>

theorem mappages_correct:
  assumes "pt_inv 2 s pt ps" and "aligned va" and "0 < n" and "unat va + 4096 * n \<le> unat MAXVA"
    and "\<And>va'. aligned va' \<Longrightarrow> va' < MAXVA \<Longrightarrow> within va' va (4096 * n) \<Longrightarrow> \<not> bit (pte_of 2 (phys s) pt va') 0"
  shows "\<exists>ok s' ps' k. mappages s pt va (of_nat (4096 * n)) pa perm = Ok (ok, s') \<and>
           pt_inv 2 s' pt ps' \<and> pt_step s pt ps s' ps' \<and> mapped_upto k (phys s) (phys s') pt va pa perm \<and>
           (if ok then k = n else k < n \<and> ps' = []) \<and> (2 * n < length ps \<longrightarrow> ok)"
  using assms by (rule mappages_maps)

theorem mappages_correct_witness:
  "\<exists>s' ps'. mappages demo 0x80022000 0 4096 0x80023000 (PTE_R OR PTE_U) = Ok (True, s') \<and>
     pt_inv 2 s' 0x80022000 ps' \<and> mapped_upto 1 (phys demo) (phys s') 0x80022000 0 0x80023000 (PTE_R OR PTE_U)"
  using mappages_correct [OF demo_inv, of 0 1 "0x80023000" "PTE_R OR PTE_U"]
  by (force simp: demo_pt aligned_def layout_defs split: if_splits)

lemma walkaddr_eq:
  assumes "pt_inv 2 s pt ps"
  shows "walkaddr s pt va = Ok (if va < MAXVA \<and> bit (pte_of 2 (phys s) pt va) 0 \<and> bit (pte_of 2 (phys s) pt va) 4
           then PTE2PA (pte_of 2 (phys s) pt va) else 0)"
proof (cases "va < MAXVA")
  case True
  then show ?thesis
    unfolding walkaddr_def
    by (rule walk_lookup_pte [OF assms]) (auto simp: Let_def not_le and_PTE_eq_0_iff)
qed (auto simp: walkaddr_def not_less)

text \<open>What \<open>walkaddr\<close> finds in a page that has been mapped.\<close>

lemma mapped_walkaddr:
  assumes "pt_inv 2 s' pt ps'" and "mapped_upto n (phys s) (phys s') pt va pa perm"
    and "aligned pa" and "unat pa + 4096 * n \<le> 2 ^ 56" and "drop_bit 10 perm = 0"
    and "aligned va" and "aligned va'" and "va' < MAXVA" and w: "within va' va (4096 * n)"
  shows "walkaddr s' pt va' = Ok (if perm AND PTE_U \<noteq> 0 then pa + (va' - va) else 0)"
proof -
  let ?p = "pa + (va' - va)"
  have e: "pte_of 2 (phys s') pt va' = PA2PTE ?p OR (perm OR PTE_V)"
    using assms(2,7,8) w by (simp add: mapped_upto_def or.assoc)
  have "unat ?p = unat pa + unat (va' - va)"
    using w assms(4) unat_add_of_nat [of pa "unat (va' - va)"] by (simp add: within_def)
  then have "unat ?p < 2 ^ 56" using w assms(4) by (simp add: within_def)
  then have "drop_bit 56 ?p = 0" by (simp add: drop_bit_0_less)
  moreover have "aligned ?p"
    using assms(3,6,7) aligned_add aligned_diff by blast
  moreover have fl: "drop_bit 10 (perm OR PTE_V) = 0"
    using assms(5) unfolding drop_bit_0_bits by (simp add: bit_or_iff)
  ultimately have "PTE2PA (pte_of 2 (phys s') pt va') = ?p" using e PTE2PA_mk by simp
  moreover have "bit (pte_of 2 (phys s') pt va') 4 = (perm AND PTE_U \<noteq> 0)"
    unfolding e by (simp add: bit_or_iff bit_PA2PTE_low and_PTE_eq_0_iff)
  ultimately show ?thesis
    using walkaddr_eq [OF assms(1), of va'] assms(8) e by (simp add: bit_or_iff)
qed

text \<open>
  C9. \<open>mappages\<close> and \<open>walkaddr\<close> together: before \<open>n\<close> unmapped pages are mapped, \<open>walkaddr\<close> finds none of
  them; after a \<open>mappages\<close> that returned 0 it translates each of them to its physical page if they
  were mapped with \<open>PTE_U\<close> and to nothing if not, and translates every other page as it did before.
\<close>

theorem walkaddr_after_mappages:
  assumes "pt_inv 2 s pt ps" and "aligned va" and "0 < n" and "unat va + 4096 * n \<le> unat MAXVA"
    and "\<And>va'. aligned va' \<Longrightarrow> va' < MAXVA \<Longrightarrow> within va' va (4096 * n) \<Longrightarrow> \<not> bit (pte_of 2 (phys s) pt va') 0"
    and "aligned pa" and "unat pa + 4096 * n \<le> 2 ^ 56" and "drop_bit 10 perm = 0"
    and m: "mappages s pt va (of_nat (4096 * n)) pa perm = Ok (True, s')" and "aligned va'" and "va' < MAXVA"
  shows "if within va' va (4096 * n)
     then walkaddr s pt va' = Ok 0 \<and> walkaddr s' pt va' = Ok (if perm AND PTE_U \<noteq> 0 then pa + (va' - va) else 0)
     else walkaddr s' pt va' = walkaddr s pt va'"
proof -
  from mappages_maps [OF assms(1-5), of pa perm] m obtain ps' where
    inv: "pt_inv 2 s' pt ps'" and mp: "mapped_upto n (phys s) (phys s') pt va pa perm" by auto
  show ?thesis
  proof (cases "within va' va (4096 * n)")
    case True
    then have "walkaddr s pt va' = Ok 0" using walkaddr_eq [OF assms(1), of va'] assms(5,10,11) by simp
    then show ?thesis using True mapped_walkaddr [OF inv mp assms(6-8,2,10,11)] by simp
  next
    case False
    then show ?thesis
      using mp assms(10,11) walkaddr_eq [OF inv, of va'] walkaddr_eq [OF assms(1), of va']
      by (simp add: mapped_upto_def)
  qed
qed

theorem walkaddr_after_mappages_witness:
  "\<exists>s'. mappages demo 0x80022000 0 4096 0x80023000 (PTE_R OR PTE_W OR PTE_U) = Ok (True, s') \<and>
     walkaddr demo 0x80022000 0 = Ok 0 \<and> walkaddr s' 0x80022000 0 = Ok 0x80023000"
proof -
  let ?fl = "PTE_R OR PTE_W OR PTE_U"
  obtain s' where s': "mappages demo 0x80022000 0 4096 0x80023000 ?fl = Ok (True, s')"
    using demo_mapped by blast
  have fl: "drop_bit 10 ?fl = 0" unfolding drop_bit_0_bits by (simp add: bit_or_iff)
  have u: "?fl AND PTE_U \<noteq> 0" by (simp add: and_PTE_eq_0_iff bit_or_iff)
  have "if within 0 0 (4096 * 1)
     then walkaddr demo 0x80022000 0 = Ok 0 \<and> walkaddr s' 0x80022000 0 = Ok (if ?fl AND PTE_U \<noteq> 0 then 0x80023000 + (0 - 0) else 0)
     else walkaddr s' 0x80022000 0 = walkaddr demo 0x80022000 0"
    by (rule walkaddr_after_mappages [OF demo_inv]) (use s' fl in \<open>simp_all add: demo_pt aligned_def layout_defs\<close>)
  with u s' show ?thesis by simp
qed

text \<open>
  C4. \<open>uvmunmap\<close> with \<open>do_free\<close> does not panic when the mapped pages of the range are distinct RAM pages in use by
  nothing else. It removes every translation of the range and no other, puts exactly those physical
  pages back on the free list, and leaves the tables themselves in place.
\<close>

theorem uvmunmap_frees_range:
  assumes "pt_inv 2 s pt ps" and "aligned va" and "unat va + 4096 * n \<le> unat MAXVA"
    and "msdistinct (pt_pages 2 (phys s) pt + mset (data_pages (phys s) pt va n) + mset ps)"
    and "\<And>p. p \<in> set (data_pages (phys s) pt va n) \<Longrightarrow> ram_page s p"
  shows "\<exists>s'. uvmunmap s pt va (of_nat n) True = Ok s' \<and>
           pt_inv 2 s' pt (rev (data_pages (phys s) pt va n) @ ps) \<and>
           pt_pages 2 (phys s') pt = pt_pages 2 (phys s) pt \<and> unmapped n (phys s) (phys s') pt va"
proof -
  have "va + of_nat n * PGSIZE = va + of_nat (4096 * n)" by (simp add: PGSIZE_def)
  with uvmunmap_from_free [OF assms(1-3) refl assms(4,5)] show ?thesis
    using assms(2) by (simp add: uvmunmap_def aligned_mod)
qed

theorem uvmunmap_frees_range_witness:
  "\<exists>(s :: kmem) s' ps. data_pages (phys s) 0x80022000 0 1 = [0x80023000] \<and>
     uvmunmap s 0x80022000 0 1 True = Ok s' \<and> pt_inv 2 s' 0x80022000 (0x80023000 # ps) \<and>
     \<not> bit (pte_of 2 (phys s') 0x80022000 0) 0"
proof -
  let ?fl = "PTE_R OR PTE_W OR PTE_U"
  obtain s ps where s: "pt_step demo 0x80022000 [0x80024000, 0x80025000, 0x80026000] s ps"
    "mapped_upto 1 (phys demo) (phys s) 0x80022000 0 0x80023000 ?fl"
    using demo_mapped by blast
  have e: "pte_of 2 (phys s) 0x80022000 0 = PA2PTE 0x80023000 OR (?fl OR PTE_V)"
    using s(2) by (simp add: mapped_upto_def aligned_def layout_defs or.assoc)
  have k: "kend s = 0x80022000" using s(1) by (simp add: pt_step_def demo_def)
  have ram: "ram_page s 0x80023000" by (simp add: k ram_page_def aligned_def layout_defs)
  have "drop_bit 10 (?fl OR PTE_V) = 0" unfolding drop_bit_0_bits by (simp add: bit_or_iff)
  from PTE2PA_ram [OF ram this] have "PTE2PA (pte_of 2 (phys s) 0x80022000 0) = 0x80023000" by (simp only: e)
  moreover have "bit (pte_of 2 (phys s) 0x80022000 0) 0" by (simp add: e bit_or_iff)
  ultimately have d: "data_pages (phys s) 0x80022000 0 1 = [0x80023000]" by simp
  have c: "pt_pages 2 (phys s) 0x80022000 + mset ps = {#0x80022000, 0x80024000, 0x80025000, 0x80026000#}"
    using s(1) by (simp add: pt_step_def demo_pt)
  have "msdistinct (add_mset 0x80023000 (pt_pages 2 (phys s) 0x80022000 + mset ps))"
    unfolding c by (simp add: msdistinct_def)
  with uvmunmap_frees_range [OF pt_step_inv [OF demo_inv s(1)], of 0 1] obtain s' where
    "uvmunmap s 0x80022000 0 1 True = Ok s'" "pt_inv 2 s' 0x80022000 (0x80023000 # ps)"
    "unmapped 1 (phys s) (phys s') 0x80022000 0"
    using d ram by (auto simp: aligned_def layout_defs)
  moreover from this have "\<not> bit (pte_of 2 (phys s') 0x80022000 0) 0"
    by (simp add: unmapped_def aligned_def layout_defs)
  ultimately show ?thesis using d by blast
qed

end
