(* ===== verification/Sleeplock.thy ===== *)
theory Sleeplock
  imports Prelude
begin

text \<open>
  \<open>kernel/sleeplock.c\<close>: locks that are held across sleeps. \<open>acquiresleep\<close> on a lock that is
  taken sleeps until its holder releases it: \<open>Block\<close> with the lock's channel.
\<close>

record sleeplock =
  sl_locked :: bool
  sl_pid :: int

definition initsleeplock :: sleeplock where
  "initsleeplock = \<lparr>sl_locked = False, sl_pid = 0\<rparr>"

text \<open>\<open>mypid\<close> is \<open>myproc()->pid\<close>, \<open>ch\<close> the address of the lock.\<close>

definition acquiresleep :: "int \<Rightarrow> chan \<Rightarrow> sleeplock \<Rightarrow> sleeplock res" where
  "acquiresleep mypid ch lk =
     (if sl_locked lk then Block ch else Ok (lk\<lparr>sl_locked := True, sl_pid := mypid\<rparr>))"

text \<open>The lock afterwards; the caller also does \<open>wakeup(lk)\<close>.\<close>

definition releasesleep :: "sleeplock \<Rightarrow> sleeplock" where
  "releasesleep lk = lk\<lparr>sl_locked := False, sl_pid := 0\<rparr>"

definition holdingsleep :: "int \<Rightarrow> sleeplock \<Rightarrow> bool" where
  "holdingsleep mypid lk \<longleftrightarrow> sl_locked lk \<and> sl_pid lk = mypid"

lemma sleeplock_upd [simp]: "lk\<lparr>sl_locked := l, sl_pid := p\<rparr> = \<lparr>sl_locked = l, sl_pid = p\<rparr>" for lk :: sleeplock
  by (cases lk) simp

lemma acquiresleep_Ok [simp]:
  "acquiresleep mypid ch lk = Ok lk' \<longleftrightarrow> \<not> sl_locked lk \<and> lk' = \<lparr>sl_locked = True, sl_pid = mypid\<rparr>"
  by (auto simp: acquiresleep_def)

lemma acquiresleep_Block [simp]: "acquiresleep mypid ch lk = Block c \<longleftrightarrow> sl_locked lk \<and> c = ch"
  by (auto simp: acquiresleep_def)

lemma holdingsleep_acquired [simp]: "holdingsleep mypid \<lparr>sl_locked = True, sl_pid = mypid\<rparr>"
  by (simp add: holdingsleep_def)

lemma releasesleep_simps [simp]: "\<not> sl_locked (releasesleep lk)" "\<not> holdingsleep mypid (releasesleep lk)"
  by (auto simp: releasesleep_def holdingsleep_def)

end
