(* ===== verification/Bio.thy ===== *)
theory Bio
  imports Kalloc Sleeplock
begin

text \<open>
  \<open>kernel/bio.c\<close>: the buffer cache. The state extends the machine of \<open>Kalloc\<close> by the disk, the
  buffers and their order of use. The doubly linked list through \<open>prev\<close> and \<open>next\<close> is kept as the list of
  buffer numbers it visits, most recently used first; theory \<open>Bufring\<close> shows that the pointer
  updates of the code implement that list. Copying all \<open>BSIZE\<close> bytes of one block to another
  is assignment of the whole array.

  \<open>bio_rel\<close> relates a cache to what its users see: the contents of every block, the blocks a user
  holds locked, and the blocks the log has pinned. Each operation is shown to implement a simple
  operation on that view.
\<close>

section \<open>State\<close>

definition NBUF :: nat where "NBUF = 30"
definition BSIZE :: nat where "BSIZE = 1024"

record buf =
  b_valid :: bool
  b_dev :: uint32
  b_blockno :: uint32
  b_lock :: sleeplock
  b_refcnt :: uint32
  b_data :: bytes

text \<open>
  \<open>mypid\<close> is the running process; \<open>wakes\<close> the channels on which \<open>wakeup\<close> was called, in order.
  \<open>disk\<close> holds the blocks; \<open>dtrace\<close> records the writes in the order in which they reach the disk.
\<close>

record bstate = kmem +
  mypid :: int
  wakes :: "chan list"
  disk :: "uint32 \<Rightarrow> bytes"
  dtrace :: "(uint32 \<times> bytes) list"
  bufs :: "nat \<Rightarrow> buf"
  lru :: "nat list"

abbreviation set_buf :: "nat \<Rightarrow> buf \<Rightarrow> 'a bstate_scheme \<Rightarrow> 'a bstate_scheme" where
  "set_buf i b s \<equiv> s\<lparr>bufs := (bufs s)(i := b)\<rparr>"

section \<open>Operations\<close>

text \<open>
  The buffers start zeroed (they are in the kernel's BSS), unlocked, and in the order the
  loop links them: each new buffer is put at the front.
\<close>

definition binit :: "'a bstate_scheme \<Rightarrow> 'a bstate_scheme" where
  "binit s = s\<lparr>
     bufs := (\<lambda>i. \<lparr>b_valid = False, b_dev = 0, b_blockno = 0, b_lock = initsleeplock, b_refcnt = 0, b_data = (\<lambda>_. 0)\<rparr>),
     lru := rev [0..<NBUF]\<rparr>"

definition bget :: "'a bstate_scheme \<Rightarrow> uint32 \<Rightarrow> uint32 \<Rightarrow> (nat \<times> 'a bstate_scheme) res" where
  "bget s dev blockno =
     (case find (\<lambda>i. b_dev (bufs s i) = dev \<and> b_blockno (bufs s i) = blockno) (lru s) of
        Some i \<Rightarrow>
          let b = bufs s i; b = b\<lparr>b_refcnt := b_refcnt b + 1\<rparr> in
          bindr (acquiresleep (mypid s) (ChBufLock i) (b_lock b)) (\<lambda>lk.
            Ok (i, set_buf i (b\<lparr>b_lock := lk\<rparr>) s))
      | None \<Rightarrow>
         (case find (\<lambda>i. b_refcnt (bufs s i) = 0) (rev (lru s)) of
            Some i \<Rightarrow>
              let b = (bufs s i)\<lparr>b_dev := dev, b_blockno := blockno, b_valid := False, b_refcnt := 1\<rparr> in
              bindr (acquiresleep (mypid s) (ChBufLock i) (b_lock b)) (\<lambda>lk.
                Ok (i, set_buf i (b\<lparr>b_lock := lk\<rparr>) s))
          | None \<Rightarrow> Panic ''bget: no buffers''))"

text \<open>
  The transfer that \<open>virtio_disk_rw\<close> (virtio_disk.c) has the disk perform before it returns. The
  device number plays no part in it.
\<close>

definition virtio_transfer :: "'a bstate_scheme \<Rightarrow> nat \<Rightarrow> bool \<Rightarrow> 'a bstate_scheme" where
  "virtio_transfer s i write =
     (let b = bufs s i in
      if write
      then s\<lparr>disk := (disk s)(b_blockno b := b_data b), dtrace := dtrace s @ [(b_blockno b, b_data b)]\<rparr>
      else set_buf i (b\<lparr>b_data := disk s (b_blockno b)\<rparr>) s)"

definition bread :: "'a bstate_scheme \<Rightarrow> uint32 \<Rightarrow> uint32 \<Rightarrow> (nat \<times> 'a bstate_scheme) res" where
  "bread s dev blockno =
     bindr (bget s dev blockno) (\<lambda>(i, s).
       if \<not> b_valid (bufs s i)
       then let s = virtio_transfer s i False in Ok (i, set_buf i ((bufs s i)\<lparr>b_valid := True\<rparr>) s)
       else Ok (i, s))"

definition bwrite :: "'a bstate_scheme \<Rightarrow> nat \<Rightarrow> 'a bstate_scheme res" where
  "bwrite s i =
     (if \<not> holdingsleep (mypid s) (b_lock (bufs s i)) then Panic ''bwrite''
      else Ok (virtio_transfer s i True))"

definition brelse :: "'a bstate_scheme \<Rightarrow> nat \<Rightarrow> 'a bstate_scheme res" where
  "brelse s i =
     (if \<not> holdingsleep (mypid s) (b_lock (bufs s i)) then Panic ''brelse''
      else
        let b = bufs s i; b = b\<lparr>b_lock := releasesleep (b_lock b)\<rparr>; b = b\<lparr>b_refcnt := b_refcnt b - 1\<rparr>;
            s = (set_buf i b s)\<lparr>wakes := wakes s @ [ChBufLock i]\<rparr>
        in Ok (if b_refcnt b = 0 then s\<lparr>lru := i # remove1 i (lru s)\<rparr> else s))"

definition bpin :: "'a bstate_scheme \<Rightarrow> nat \<Rightarrow> 'a bstate_scheme" where
  "bpin s i = set_buf i ((bufs s i)\<lparr>b_refcnt := b_refcnt (bufs s i) + 1\<rparr>) s"

definition bunpin :: "'a bstate_scheme \<Rightarrow> nat \<Rightarrow> 'a bstate_scheme" where
  "bunpin s i = set_buf i ((bufs s i)\<lparr>b_refcnt := b_refcnt (bufs s i) - 1\<rparr>) s"

text \<open>\<open>b->data = d\<close>, for a caller that has the buffer locked.\<close>

definition set_data :: "nat \<Rightarrow> bytes \<Rightarrow> 'a bstate_scheme \<Rightarrow> 'a bstate_scheme" where
  "set_data i d s = set_buf i ((bufs s i)\<lparr>b_data := d\<rparr>) s"

section \<open>What users of the cache see\<close>

text \<open>
  \<open>C\<close> gives every block its contents, \<open>D\<close> what the disk holds, \<open>L\<close> the blocks locked by the running
  process, \<open>P\<close> the blocks pinned by the log. Only locked or pinned blocks may differ from the disk.
\<close>

definition buf_ok :: "uint32 \<Rightarrow> int \<Rightarrow> (uint32 \<Rightarrow> bytes) \<Rightarrow> uint32 set \<Rightarrow> uint32 set \<Rightarrow> buf \<Rightarrow> bool" where
  "buf_ok dev pid C L P b \<longleftrightarrow>
     (if b_dev b = dev
      then b_valid b \<and> b_data b = C (b_blockno b) \<and> sl_locked (b_lock b) = (b_blockno b \<in> L) \<and>
           (sl_locked (b_lock b) \<longrightarrow> sl_pid (b_lock b) = pid) \<and>
           unat (b_refcnt b) = (if b_blockno b \<in> L then 1 else 0) + (if b_blockno b \<in> P then 1 else 0)
      else b_dev b = 0 \<and> \<not> b_valid b \<and> \<not> sl_locked (b_lock b) \<and> b_refcnt b = 0)"

definition bio_rel ::
  "uint32 \<Rightarrow> 'a bstate_scheme \<Rightarrow> (uint32 \<Rightarrow> bytes) \<Rightarrow> (uint32 \<Rightarrow> bytes) \<Rightarrow> uint32 set \<Rightarrow> uint32 set \<Rightarrow> bool" where
  "bio_rel dev s C D L P \<longleftrightarrow>
     dev \<noteq> 0 \<and> disk s = D \<and> distinct (lru s) \<and> set (lru s) = {..<NBUF} \<and>
     (\<forall>i<NBUF. buf_ok dev (mypid s) C L P (bufs s i)) \<and>
     (\<forall>i<NBUF. \<forall>j<NBUF. b_dev (bufs s i) = dev \<longrightarrow> b_dev (bufs s j) = dev \<longrightarrow>
        b_blockno (bufs s i) = b_blockno (bufs s j) \<longrightarrow> i = j) \<and>
     (\<forall>b\<in>L \<union> P. \<exists>i<NBUF. b_dev (bufs s i) = dev \<and> b_blockno (bufs s i) = b) \<and>
     (\<forall>b. b \<notin> L \<union> P \<longrightarrow> C b = D b)"

text \<open>Buffer \<open>i\<close> holds block \<open>b\<close>.\<close>

definition bufs_for :: "uint32 \<Rightarrow> 'a bstate_scheme \<Rightarrow> nat \<Rightarrow> uint32 \<Rightarrow> bool" where
  "bufs_for dev s i b \<longleftrightarrow> i < NBUF \<and> b_dev (bufs s i) = dev \<and> b_blockno (bufs s i) = b"

lemma bio_relD:
  assumes "bio_rel dev s C D L P"
  shows "dev \<noteq> 0" "disk s = D" "distinct (lru s)" "set (lru s) = {..<NBUF}"
    and "i < NBUF \<Longrightarrow> buf_ok dev (mypid s) C L P (bufs s i)"
    and "bufs_for dev s i b \<Longrightarrow> bufs_for dev s j b \<Longrightarrow> i = j"
    and "b \<in> L \<union> P \<Longrightarrow> \<exists>i. bufs_for dev s i b"
    and "b \<notin> L \<union> P \<Longrightarrow> C b = D b"
  using assms by (auto simp: bio_rel_def bufs_for_def)

lemma bio_relI:
  assumes "dev \<noteq> 0" "disk s = D" "distinct (lru s)" "set (lru s) = {..<NBUF}"
    and "\<And>i. i < NBUF \<Longrightarrow> buf_ok dev (mypid s) C L P (bufs s i)"
    and "\<And>i j b. bufs_for dev s i b \<Longrightarrow> bufs_for dev s j b \<Longrightarrow> i = j"
    and "\<And>b. b \<in> L \<union> P \<Longrightarrow> \<exists>i. bufs_for dev s i b"
    and "\<And>b. b \<notin> L \<union> P \<Longrightarrow> C b = D b"
  shows "bio_rel dev s C D L P"
  using assms unfolding bio_rel_def bufs_for_def by blast

lemma binit_rel:
  assumes "dev \<noteq> 0"
  shows "bio_rel dev (binit s) (disk s) (disk s) {} {}"
  using assms by (auto simp: bio_rel_def binit_def buf_ok_def initsleeplock_def)

text \<open>The cache operations change nothing but the cache and the disk.\<close>

definition bio_frame :: "'a bstate_scheme \<Rightarrow> 'a bstate_scheme \<Rightarrow> bool" where
  "bio_frame s s' \<longleftrightarrow> phys s' = phys s \<and> freelist s' = freelist s \<and> kend s' = kend s \<and>
     mypid s' = mypid s \<and> bstate.more s' = bstate.more s"

lemma bio_frame_refl [simp]: "bio_frame s s"
  by (simp add: bio_frame_def)

lemma bio_frame_trans: "bio_frame s t \<Longrightarrow> bio_frame t u \<Longrightarrow> bio_frame s u"
  by (simp add: bio_frame_def)

lemma bufs_for_upd:
  "bufs_for dev (set_buf i x s) j b \<longleftrightarrow>
     (if j = i then i < NBUF \<and> b_dev x = dev \<and> b_blockno x = b else bufs_for dev s j b)"
  by (simp add: bufs_for_def)

text \<open>Every operation changes at most one buffer, and what is seen of at most one block.\<close>

lemma bio_rel_upd:
  assumes rel: "bio_rel dev s C D L P" and x: "i < NBUF" "b_dev x = dev" "b_blockno x = b"
    and own: "bufs_for dev s i b \<or> b_refcnt (bufs s i) = 0 \<and> (\<forall>j. \<not> bufs_for dev s j b)"
    and s': "bufs s' = (bufs s)(i := x)" "mypid s' = mypid s" "distinct (lru s')" "set (lru s') = {..<NBUF}"
    and ok: "buf_ok dev (mypid s) C' L' P' x"
    and other: "\<And>c. c \<noteq> b \<Longrightarrow> C' c = C c \<and> D' c = D c \<and> (c \<in> L' \<longleftrightarrow> c \<in> L) \<and> (c \<in> P' \<longleftrightarrow> c \<in> P)"
    and D': "disk s' = D'" and clean: "b \<notin> L' \<union> P' \<Longrightarrow> C' b = D' b"
  shows "bio_rel dev s' C' D' L' P'"
proof (rule bio_relI)
  have for': "bufs_for dev s' j c \<longleftrightarrow> (if j = i then c = b else bufs_for dev s j c)" for j c
    using x s'(1) by (auto simp: bufs_for_def)
  show "dev \<noteq> 0" by (rule bio_relD(1) [OF rel])
  show "buf_ok dev (mypid s') C' L' P' (bufs s' j)" if j: "j < NBUF" for j
  proof (cases "j = i")
    case False
    have "b_blockno (bufs s j) \<noteq> b" if "b_dev (bufs s j) = dev"
      using that own False j bio_relD(6) [OF rel, of i b j] by (auto simp: bufs_for_def)
    then show ?thesis
      using bio_relD(5) [OF rel j] False s' other by (auto simp: buf_ok_def split: if_splits)
  qed (use ok s' in simp)
  show "j = k" if "bufs_for dev s' j c" "bufs_for dev s' k c" for j k c
    using that own bio_relD(6) [OF rel] unfolding for' by (metis (full_types))
  show "\<exists>j. bufs_for dev s' j c" if c: "c \<in> L' \<union> P'" for c
  proof (cases "c = b")
    case False
    then have "c \<in> L \<union> P" using c other by blast
    then obtain j where j: "bufs_for dev s j c" using bio_relD(7) [OF rel] by blast
    have "j \<noteq> i"
    proof
      assume "j = i"
      then have "b_refcnt (bufs s i) = 0" "bufs_for dev s i c" using own j False by (auto simp: bufs_for_def)
      then show False
        using bio_relD(5) [OF rel x(1)] \<open>c \<in> L \<union> P\<close> by (auto simp: buf_ok_def bufs_for_def)
    qed
    then show ?thesis using j for' by auto
  qed (use for' in auto)
  show "C' c = D' c" if "c \<notin> L' \<union> P'" for c
    using that clean other bio_relD(8) [OF rel, of c] by (cases "c = b") auto
qed (use s' D' in auto)

lemma bio_rel_set_buf:
  assumes rel: "bio_rel dev s C D L P"
    and own: "bufs_for dev s i b \<or> b_refcnt (bufs s i) = 0 \<and> (\<forall>j. \<not> bufs_for dev s j b)"
    and x: "i < NBUF" "b_dev x = dev" "b_blockno x = b" and ok: "buf_ok dev (mypid s) C' L' P' x"
    and other: "\<And>c. c \<noteq> b \<Longrightarrow> C' c = C c \<and> (c \<in> L' \<longleftrightarrow> c \<in> L) \<and> (c \<in> P' \<longleftrightarrow> c \<in> P)"
    and clean: "b \<notin> L' \<union> P' \<Longrightarrow> C' b = D b"
  shows "bio_rel dev (set_buf i x s) C' D L' P'"
  by (rule bio_rel_upd [OF rel x own _ _ _ _ ok])
    (simp_all add: bio_relD(2-4) [OF rel] other clean)

section \<open>Reading\<close>

lemma bget_cached:
  assumes rel: "bio_rel dev s C D L P" and i: "bufs_for dev s i b" and "b \<notin> L"
  obtains x where "bget s dev b = Ok (i, set_buf i x s)"
    and "x = (bufs s i)\<lparr>b_refcnt := b_refcnt (bufs s i) + 1, b_lock := \<lparr>sl_locked = True, sl_pid = mypid s\<rparr>\<rparr>"
proof -
  have ok: "buf_ok dev (mypid s) C L P (bufs s i)"
    using i bio_relD(5) [OF rel] by (simp add: bufs_for_def)
  have "find (\<lambda>i. b_dev (bufs s i) = dev \<and> b_blockno (bufs s i) = b) (lru s) = Some i"
  proof -
    have "i \<in> set (lru s)" using i bio_relD(4) [OF rel] by (simp add: bufs_for_def)
    then obtain j where j: "find (\<lambda>i. b_dev (bufs s i) = dev \<and> b_blockno (bufs s i) = b) (lru s) = Some j"
      using i by (cases "find (\<lambda>i. b_dev (bufs s i) = dev \<and> b_blockno (bufs s i) = b) (lru s)")
        (auto simp: find_None_iff bufs_for_def)
    then have "j \<in> set (lru s)" "b_dev (bufs s j) = dev" "b_blockno (bufs s j) = b"
      by (auto simp: find_Some_iff)
    then have "bufs_for dev s j b" using bio_relD(4) [OF rel] by (simp add: bufs_for_def)
    with i j show ?thesis using bio_relD(6) [OF rel] by blast
  qed
  then show ?thesis
    using that ok assms(3) i by (simp add: bget_def Let_def buf_ok_def bufs_for_def acquiresleep_def)
qed

lemma bget_recycle:
  assumes rel: "bio_rel dev s C D L P" and none: "\<And>i. \<not> bufs_for dev s i b" and card: "card (L \<union> P) < NBUF"
  obtains i x where "bget s dev b = Ok (i, set_buf i x s)" and "i < NBUF" and "b_refcnt (bufs s i) = 0"
    and "x = (bufs s i)\<lparr>b_dev := dev, b_blockno := b, b_valid := False, b_refcnt := 1,
              b_lock := \<lparr>sl_locked = True, sl_pid = mypid s\<rparr>\<rparr>"
proof -
  have miss: "find (\<lambda>i. b_dev (bufs s i) = dev \<and> b_blockno (bufs s i) = b) (lru s) = None"
    using none bio_relD(4) [OF rel] by (auto simp: find_None_iff bufs_for_def)
  have "\<exists>i<NBUF. b_refcnt (bufs s i) = 0"
  proof (rule ccontr)
    assume no: "\<not> (\<exists>i<NBUF. b_refcnt (bufs s i) = 0)"
    have in_use: "b_dev (bufs s i) = dev \<and> b_blockno (bufs s i) \<in> L \<union> P" if i: "i < NBUF" for i
    proof -
      have "b_refcnt (bufs s i) \<noteq> 0" using no i by blast
      then have "unat (b_refcnt (bufs s i)) \<noteq> 0" by (simp add: unat_eq_zero)
      with bio_relD(5) [OF rel i] show ?thesis by (auto simp: buf_ok_def split: if_splits)
    qed
    have "inj_on (\<lambda>i. b_blockno (bufs s i)) {..<NBUF}"
      using in_use bio_relD(6) [OF rel] by (auto simp: inj_on_def bufs_for_def)
    then have "card ((\<lambda>i. b_blockno (bufs s i)) ` {..<NBUF}) = NBUF" by (simp add: card_image)
    moreover have "(\<lambda>i. b_blockno (bufs s i)) ` {..<NBUF} \<subseteq> L \<union> P" using in_use by auto
    moreover have "finite (L \<union> P)" by (rule finite_subset [of _ UNIV]) simp_all
    ultimately show False using card card_mono by (metis not_le)
  qed
  then obtain i where i: "find (\<lambda>i. b_refcnt (bufs s i) = 0) (rev (lru s)) = Some i"
    using bio_relD(4) [OF rel] by (cases "find (\<lambda>i. b_refcnt (bufs s i) = 0) (rev (lru s))")
      (auto simp: find_None_iff)
  then have i': "i < NBUF" "b_refcnt (bufs s i) = 0"
    using bio_relD(4) [OF rel] find_SomeD [OF i] by auto
  then have "\<not> sl_locked (b_lock (bufs s i))"
    using bio_relD(5) [OF rel i'(1)] by (auto simp: buf_ok_def split: if_splits)
  then show ?thesis
    using that [of i] i i' miss by (simp add: bget_def Let_def acquiresleep_def)
qed

text \<open>\<open>keeps L s s'\<close>: the locked buffers stay where they are.\<close>

definition keeps :: "uint32 \<Rightarrow> uint32 set \<Rightarrow> 'a bstate_scheme \<Rightarrow> 'a bstate_scheme \<Rightarrow> bool" where
  "keeps dev L s s' \<longleftrightarrow> (\<forall>j c. c \<in> L \<longrightarrow> bufs_for dev s j c \<longrightarrow> bufs_for dev s' j c)"

lemma bread_rel:
  assumes rel: "bio_rel dev s C D L P" and b: "b \<notin> L" and room: "b \<in> P \<or> card (L \<union> P) < NBUF"
  obtains i s' where "bread s dev b = Ok (i, s')" and "bufs_for dev s' i b" and "b_data (bufs s' i) = C b"
    and "bio_rel dev s' C D (insert b L) P" and "bio_frame s s'" and "dtrace s' = dtrace s" and "keeps dev L s s'"
proof (cases "\<exists>i. bufs_for dev s i b")
  case True
  then obtain i where i: "bufs_for dev s i b" ..
  from bget_cached [OF rel i b] obtain x where bg: "bget s dev b = Ok (i, set_buf i x s)"
    and x: "x = (bufs s i)\<lparr>b_refcnt := b_refcnt (bufs s i) + 1, b_lock := \<lparr>sl_locked = True, sl_pid = mypid s\<rparr>\<rparr>"
    by blast
  have ok: "buf_ok dev (mypid s) C L P (bufs s i)"
    using i bio_relD(5) [OF rel] by (simp add: bufs_for_def)
  then have v: "b_valid (bufs s i)" "b_data (bufs s i) = C b" "unat (b_refcnt (bufs s i)) = (if b \<in> P then 1 else 0)"
    using i b by (auto simp: buf_ok_def bufs_for_def)
  then have "unat (b_refcnt (bufs s i) + 1) = unat (b_refcnt (bufs s i)) + 1"
    by (simp add: unat_add_1)
  then have "buf_ok dev (mypid s) C (insert b L) P x"
    using i x v by (simp add: buf_ok_def bufs_for_def)
  then have "bio_rel dev (set_buf i x s) C D (insert b L) P"
    using i x by (intro bio_rel_set_buf [OF rel, of i b]) (auto simp: bufs_for_def)
  moreover have "bread s dev b = Ok (i, set_buf i x s)"
    using bg v x by (simp add: bread_def)
  moreover have "keeps dev L s (set_buf i x s)" "bufs_for dev (set_buf i x s) i b"
    using i x by (auto simp: keeps_def bufs_for_def)
  ultimately show ?thesis
    using v x by (intro that [of i "set_buf i x s"]) (simp_all add: bio_frame_def)
next
  case False
  then have bP: "b \<notin> L \<union> P" using bio_relD(7) [OF rel] b by blast
  with room have card: "card (L \<union> P) < NBUF" by blast
  from bget_recycle [OF rel _ card] False obtain i x where bg: "bget s dev b = Ok (i, set_buf i x s)"
    and i: "i < NBUF" "b_refcnt (bufs s i) = 0"
    and x: "x = (bufs s i)\<lparr>b_dev := dev, b_blockno := b, b_valid := False, b_refcnt := 1,
              b_lock := \<lparr>sl_locked = True, sl_pid = mypid s\<rparr>\<rparr>"
    by blast
  let ?x = "x\<lparr>b_data := D b, b_valid := True\<rparr>"
  have "buf_ok dev (mypid s) C (insert b L) P ?x"
    using x bP bio_relD(8) [OF rel] by (simp add: buf_ok_def)
  then have "bio_rel dev (set_buf i ?x s) C D (insert b L) P"
    using i x False by (intro bio_rel_set_buf [OF rel, of i b]) auto
  moreover have "bread s dev b = Ok (i, set_buf i ?x s)"
    using bg x bio_relD(2) [OF rel] by (simp add: bread_def virtio_transfer_def Let_def)
  moreover have "keeps dev L s (set_buf i ?x s)"
    unfolding keeps_def bufs_for_upd
  proof (intro allI impI)
    fix j c assume c: "c \<in> L" "bufs_for dev s j c"
    then have "j < NBUF" "unat (b_refcnt (bufs s j)) \<noteq> 0"
      using bio_relD(5) [OF rel, of j] by (auto simp: buf_ok_def bufs_for_def)
    then show "if j = i then i < NBUF \<and> b_dev ?x = dev \<and> b_blockno ?x = c else bufs_for dev s j c"
      using c i(2) by auto
  qed
  moreover have "bufs_for dev (set_buf i ?x s) i b" using i x by (simp add: bufs_for_def)
  ultimately show ?thesis
    using x bP bio_relD(8) [OF rel, of b] by (intro that [of i "set_buf i ?x s"]) (simp_all add: bio_frame_def)
qed

section \<open>Writing and releasing\<close>

lemma held_buf:
  assumes "bio_rel dev s C D L P" and "bufs_for dev s i b" and "b \<in> L"
  shows "b_valid (bufs s i)" "b_data (bufs s i) = C b" "b_lock (bufs s i) = \<lparr>sl_locked = True, sl_pid = mypid s\<rparr>"
    "unat (b_refcnt (bufs s i)) = (if b \<in> P then 2 else 1)" "i < NBUF" "b_dev (bufs s i) = dev" "b_blockno (bufs s i) = b"
  using bio_relD(5) [OF assms(1), of i] assms(2,3) by (auto simp: buf_ok_def bufs_for_def split: if_splits)

lemma set_data_rel:
  assumes "bio_rel dev s C D L P" and "bufs_for dev s i b" and "b \<in> L"
  shows "bio_rel dev (set_data i d s) (C(b := d)) D L P"
proof -
  note h = held_buf [OF assms]
  have "buf_ok dev (mypid s) (C(b := d)) L P ((bufs s i)\<lparr>b_data := d\<rparr>)"
    using h assms(3) by (simp add: buf_ok_def)
  then show ?thesis
    unfolding set_data_def using h assms by (intro bio_rel_set_buf [OF assms(1), of i b]) auto
qed

lemma set_data_simps [simp]:
  "bufs_for dev (set_data i d s) j c = bufs_for dev s j c" "dtrace (set_data i d s) = dtrace s"
  "bio_frame s (set_data i d s)" "b_data (bufs (set_data i d s) j) = (if j = i then d else b_data (bufs s j))"
  by (auto simp: set_data_def bufs_for_def bio_frame_def)

lemma bwrite_rel:
  assumes rel: "bio_rel dev s C D L P" and i: "bufs_for dev s i b" and b: "b \<in> L"
  obtains s' where "bwrite s i = Ok s'" and "bio_rel dev s' C (D(b := C b)) L P"
    and "\<And>j c. bufs_for dev s' j c = bufs_for dev s j c" and "bio_frame s s'"
    and "dtrace s' = dtrace s @ [(b, C b)]"
proof -
  note h = held_buf [OF assms]
  let ?s = "s\<lparr>disk := (disk s)(b := C b), dtrace := dtrace s @ [(b, C b)]\<rparr>"
  have "bwrite s i = Ok ?s"
    using h by (simp add: bwrite_def virtio_transfer_def holdingsleep_def Let_def)
  moreover have "bio_rel dev ?s C (D(b := C b)) L P"
    using bio_relD [OF rel] b by (intro bio_relI) (auto simp: bufs_for_def)
  ultimately show ?thesis
    by (rule that) (simp_all add: bufs_for_def bio_frame_def)
qed

lemma brelse_rel:
  assumes rel: "bio_rel dev s C D L P" and i: "bufs_for dev s i b" and b: "b \<in> L"
    and clean: "b \<in> P \<or> C b = D b"
  obtains s' where "brelse s i = Ok s'" and "bio_rel dev s' C D (L - {b}) P"
    and "\<And>j c. bufs_for dev s' j c = bufs_for dev s j c" and "bio_frame s s'" and "dtrace s' = dtrace s"
proof -
  note h = held_buf [OF rel i b]
  let ?x = "(bufs s i)\<lparr>b_lock := releasesleep (b_lock (bufs s i)), b_refcnt := b_refcnt (bufs s i) - 1\<rparr>"
  let ?s1 = "(set_buf i ?x s)\<lparr>wakes := wakes s @ [ChBufLock i]\<rparr>"
  let ?s = "if b_refcnt ?x = 0 then ?s1\<lparr>lru := i # remove1 i (lru ?s1)\<rparr> else ?s1"
  have "brelse s i = Ok ?s"
    using h by (simp add: brelse_def holdingsleep_def Let_def)
  moreover have "unat (b_refcnt ?x) = (if b \<in> P then 1 else 0)"
    using h(4) by (simp add: unat_sub_1)
  then have ok: "buf_ok dev (mypid s) C (L - {b}) P ?x"
    using h by (simp add: buf_ok_def)
  have "bio_rel dev ?s C D (L - {b}) P"
  proof (rule bio_rel_upd [OF rel _ _ _ _ _ _ _ _ ok, of i b])
    show "bufs ?s = (bufs s)(i := ?x)" "mypid ?s = mypid s" "disk ?s = D"
      using bio_relD(2) [OF rel] by simp_all
    show "distinct (lru ?s)" "set (lru ?s) = {..<NBUF}"
      using bio_relD(3,4) [OF rel] h(5) by (auto simp: insert_absorb)
  qed (use h i clean in auto)
  ultimately show ?thesis
    by (rule that) (use h in \<open>auto simp: bufs_for_def bio_frame_def\<close>)
qed

lemma bpin_rel:
  assumes rel: "bio_rel dev s C D L P" and i: "bufs_for dev s i b" and b: "b \<in> L" "b \<notin> P"
  shows "bio_rel dev (bpin s i) C D L (insert b P)"
proof -
  note h = held_buf [OF rel i b(1)]
  let ?x = "(bufs s i)\<lparr>b_refcnt := b_refcnt (bufs s i) + 1\<rparr>"
  have "unat (b_refcnt ?x) = 2" using h(4) b by (simp add: unat_add_1)
  then have "buf_ok dev (mypid s) C L (insert b P) ?x" using h b by (simp add: buf_ok_def)
  then show ?thesis
    unfolding bpin_def using h i b by (intro bio_rel_set_buf [OF rel, of i b]) auto
qed

lemma bunpin_rel:
  assumes rel: "bio_rel dev s C D L P" and i: "bufs_for dev s i b" and b: "b \<in> L" "b \<in> P"
  shows "bio_rel dev (bunpin s i) C D L (P - {b})"
proof -
  note h = held_buf [OF rel i b(1)]
  let ?x = "(bufs s i)\<lparr>b_refcnt := b_refcnt (bufs s i) - 1\<rparr>"
  have "unat (b_refcnt ?x) = 1" using h(4) b by (simp add: unat_sub_1)
  then have "buf_ok dev (mypid s) C L (P - {b}) ?x" using h b by (simp add: buf_ok_def)
  then show ?thesis
    unfolding bunpin_def using h i b by (intro bio_rel_set_buf [OF rel, of i b]) auto
qed

lemma bpin_simps [simp]:
  "bufs_for dev (bpin s i) j c = bufs_for dev s j c" "dtrace (bpin s i) = dtrace s" "bio_frame s (bpin s i)"
  "bufs_for dev (bunpin s i) j c = bufs_for dev s j c" "dtrace (bunpin s i) = dtrace s" "bio_frame s (bunpin s i)"
  by (auto simp: bpin_def bunpin_def bufs_for_def bio_frame_def)

section \<open>The interface of the cache\<close>

text \<open>
  What the log and the file system rely on. \<open>view s C D L P\<close> is the relation above, \<open>at s i b\<close> says
  that buffer \<open>i\<close> holds block \<open>b\<close>; \<open>frame\<close> is everything outside the cache, \<open>trace\<close> the disk writes so far.
\<close>

locale block_cache =
  fixes view :: "'s \<Rightarrow> (uint32 \<Rightarrow> bytes) \<Rightarrow> (uint32 \<Rightarrow> bytes) \<Rightarrow> uint32 set \<Rightarrow> uint32 set \<Rightarrow> bool"
    and at :: "'s \<Rightarrow> nat \<Rightarrow> uint32 \<Rightarrow> bool"
    and data :: "'s \<Rightarrow> nat \<Rightarrow> bytes"
    and rd :: "'s \<Rightarrow> uint32 \<Rightarrow> (nat \<times> 's) res"
    and put :: "nat \<Rightarrow> bytes \<Rightarrow> 's \<Rightarrow> 's"
    and wr :: "'s \<Rightarrow> nat \<Rightarrow> 's res"
    and rel :: "'s \<Rightarrow> nat \<Rightarrow> 's res"
    and unpin :: "'s \<Rightarrow> nat \<Rightarrow> 's"
    and frame :: "'s \<Rightarrow> 's \<Rightarrow> bool"
    and trace :: "'s \<Rightarrow> (uint32 \<times> bytes) list"
    and capacity :: nat
  assumes frame_trans: "frame s t \<Longrightarrow> frame t u \<Longrightarrow> frame s u"
    and data_view: "view s C D L P \<Longrightarrow> at s i b \<Longrightarrow> b \<in> L \<Longrightarrow> data s i = C b"
    and rd_law: "view s C D L P \<Longrightarrow> b \<notin> L \<Longrightarrow> b \<in> P \<or> card (L \<union> P) < capacity \<Longrightarrow>
      \<exists>i s'. rd s b = Ok (i, s') \<and> at s' i b \<and> view s' C D (insert b L) P \<and> frame s s' \<and> trace s' = trace s \<and>
             (\<forall>j c. c \<in> L \<longrightarrow> at s j c \<longrightarrow> at s' j c)"
    and put_law: "view s C D L P \<Longrightarrow> at s i b \<Longrightarrow> b \<in> L \<Longrightarrow>
      view (put i d s) (C(b := d)) D L P \<and> frame s (put i d s) \<and> trace (put i d s) = trace s \<and>
      (\<forall>j c. at s j c \<longrightarrow> at (put i d s) j c)"
    and wr_law: "view s C D L P \<Longrightarrow> at s i b \<Longrightarrow> b \<in> L \<Longrightarrow>
      \<exists>s'. wr s i = Ok s' \<and> view s' C (D(b := C b)) L P \<and> frame s s' \<and> trace s' = trace s @ [(b, C b)] \<and>
           (\<forall>j c. at s j c \<longrightarrow> at s' j c)"
    and rel_law: "view s C D L P \<Longrightarrow> at s i b \<Longrightarrow> b \<in> L \<Longrightarrow> b \<in> P \<or> C b = D b \<Longrightarrow>
      \<exists>s'. rel s i = Ok s' \<and> view s' C D (L - {b}) P \<and> frame s s' \<and> trace s' = trace s \<and>
           (\<forall>j c. at s j c \<longrightarrow> at s' j c)"
    and unpin_law: "view s C D L P \<Longrightarrow> at s i b \<Longrightarrow> b \<in> L \<Longrightarrow> b \<in> P \<Longrightarrow>
      view (unpin s i) C D L (P - {b}) \<and> frame s (unpin s i) \<and> trace (unpin s i) = trace s \<and>
      (\<forall>j c. at s j c \<longrightarrow> at (unpin s i) j c)"
begin

text \<open>Read a block, change it, write it, release it.\<close>

lemma update_through:
  assumes v: "view s C D L P" and b: "b \<notin> L" and room: "b \<in> P \<or> card (L \<union> P) < capacity"
  shows "\<exists>s'. bindr (rd s b) (\<lambda>(i, s). bindr (wr (put i (f (data s i)) s) i) (\<lambda>s. rel s i)) = Ok s' \<and>
           view s' (C(b := f (C b))) (D(b := f (C b))) L P \<and> frame s s' \<and> trace s' = trace s @ [(b, f (C b))]"
proof -
  from rd_law [OF v b room] obtain i s1 where s1: "rd s b = Ok (i, s1)" "at s1 i b" "view s1 C D (insert b L) P"
      "frame s s1" "trace s1 = trace s" by blast
  have d: "data s1 i = C b" using data_view [OF s1(3,2)] by simp
  let ?s2 = "put i (f (C b)) s1"
  note p = put_law [OF s1(3,2), of "f (C b)"]
  have s2: "view ?s2 (C(b := f (C b))) D (insert b L) P" "at ?s2 i b" using p s1(2) by auto
  from wr_law [OF s2] obtain s3 where s3: "wr ?s2 i = Ok s3" "at s3 i b" "frame ?s2 s3"
      "view s3 (C(b := f (C b))) (D(b := f (C b))) (insert b L) P" "trace s3 = trace ?s2 @ [(b, f (C b))]"
    using s2(2) by auto
  from rel_law [OF s3(4,2)] obtain s4 where s4: "rel s3 i = Ok s4" "frame s3 s4" "trace s4 = trace s3"
      "view s4 (C(b := f (C b))) (D(b := f (C b))) (insert b L - {b}) P" by auto
  have "frame s1 ?s2" using p by blast
  with s1(4) s3(3) s4(2) have "frame s s4" by (metis frame_trans)
  moreover have "insert b L - {b} = L" using b by auto
  ultimately show ?thesis using s1 d s3 s4 p by auto
qed

text \<open>Read two blocks, copy the second over the first, write the first, release both.\<close>

lemma copy_to_first:
  assumes v: "view s C D L P" and t: "t \<notin> L" "t \<notin> P" "f \<notin> L" "t \<noteq> f" and f: "f \<in> P"
    and room: "card (L \<union> P) < capacity"
  shows "\<exists>s'. bindr (rd s t) (\<lambda>(i, s). bindr (rd s f) (\<lambda>(j, s).
             bindr (wr (put i (data s j) s) i) (\<lambda>s. bindr (rel s j) (\<lambda>s. rel s i)))) = Ok s' \<and>
           view s' (C(t := C f)) (D(t := C f)) L P \<and> frame s s' \<and> trace s' = trace s @ [(t, C f)]"
proof -
  from rd_law [OF v t(1)] room obtain i s1 where s1: "rd s t = Ok (i, s1)" "at s1 i t"
      "view s1 C D (insert t L) P" "frame s s1" "trace s1 = trace s" by blast
  have "f \<notin> insert t L" using t by simp
  from rd_law [OF s1(3) this] f obtain j s2 where s2: "rd s1 f = Ok (j, s2)" "at s2 j f"
      "view s2 C D (insert f (insert t L)) P" "frame s1 s2" "trace s2 = trace s1"
      "\<forall>j c. c \<in> insert t L \<longrightarrow> at s1 j c \<longrightarrow> at s2 j c" by blast
  have a: "at s2 i t" using s2(6) s1(2) by simp
  have d: "data s2 j = C f" using data_view [OF s2(3,2)] by simp
  let ?C = "C(t := C f)" and ?s3 = "put i (C f) s2"
  note p = put_law [OF s2(3) a, of "C f"]
  have s3: "view ?s3 ?C D (insert f (insert t L)) P" "at ?s3 i t" "at ?s3 j f" using p a s2(2) by auto
  from wr_law [OF s3(1,2)] obtain s4 where s4: "wr ?s3 i = Ok s4" "at s4 i t" "at s4 j f" "frame ?s3 s4"
      "view s4 ?C (D(t := C f)) (insert f (insert t L)) P" "trace s4 = trace ?s3 @ [(t, C f)]"
    using s3 by auto
  from rel_law [OF s4(5,3)] obtain s5 where s5: "rel s4 j = Ok s5" "at s5 i t" "frame s4 s5" "trace s5 = trace s4"
      "view s5 ?C (D(t := C f)) (insert f (insert t L) - {f}) P"
    using f s4(2) by auto
  have L1: "insert f (insert t L) - {f} = insert t L" using t by auto
  from rel_law [OF s5(5) s5(2)] obtain s6 where s6: "rel s5 i = Ok s6" "frame s5 s6" "trace s6 = trace s5"
      "view s6 ?C (D(t := C f)) (insert t L - {t}) P"
    unfolding L1 by auto
  have "frame s2 ?s3" using p by blast
  with s1(4) s2(4) s4(4) s5(3) s6(2) have "frame s s6" by (metis frame_trans)
  moreover have "insert t L - {t} = L" using t by auto
  ultimately show ?thesis using s1 s2 d s4 s5 s6 p by auto
qed

text \<open>
  Read two blocks, copy the first over the second, write the second, drop its pin if \<open>un\<close>, release
  both. The second block is pinned when its pin is dropped.
\<close>

lemma copy_to_second:
  assumes v: "view s C D L P" and t: "f \<notin> L" "f \<notin> P" "t \<notin> L" "t \<noteq> f" and un: "un \<Longrightarrow> t \<in> P"
    and clean: "C f = D f"
    and room: "card (L \<union> P) < capacity" "t \<in> P \<or> card (insert f L \<union> P) < capacity"
  shows "\<exists>s'. bindr (rd s f) (\<lambda>(i, s). bindr (rd s t) (\<lambda>(j, s).
             bindr (wr (put j (data s i) s) j) (\<lambda>s. let s = (if un then unpin s j else s)
               in bindr (rel s i) (\<lambda>s. rel s j)))) = Ok s' \<and>
           view s' (C(t := C f)) (D(t := C f)) L (if un then P - {t} else P) \<and> frame s s' \<and>
           trace s' = trace s @ [(t, C f)]"
proof -
  from rd_law [OF v t(1)] room obtain i s1 where s1: "rd s f = Ok (i, s1)" "at s1 i f"
      "view s1 C D (insert f L) P" "frame s s1" "trace s1 = trace s" by blast
  have "t \<notin> insert f L" using t by simp
  from rd_law [OF s1(3) this] room(2) obtain j s2 where s2: "rd s1 t = Ok (j, s2)" "at s2 j t"
      "view s2 C D (insert t (insert f L)) P" "frame s1 s2" "trace s2 = trace s1"
      "\<forall>j c. c \<in> insert f L \<longrightarrow> at s1 j c \<longrightarrow> at s2 j c" by blast
  have a: "at s2 i f" using s2(6) s1(2) by simp
  have d: "data s2 i = C f" using data_view [OF s2(3) a] by simp
  let ?C = "C(t := C f)" and ?D = "D(t := C f)" and ?s3 = "put j (C f) s2" and ?L = "insert t (insert f L)"
    and ?P = "if un then P - {t} else P"
  note p = put_law [OF s2(3,2), of "C f"]
  have s3: "view ?s3 ?C D ?L P" "at ?s3 i f" "at ?s3 j t" using p a s2(2) by auto
  from wr_law [OF s3(1,3)] obtain s4 where s4: "wr ?s3 j = Ok s4" "at s4 i f" "at s4 j t" "frame ?s3 s4"
      "view s4 ?C ?D ?L P" "trace s4 = trace ?s3 @ [(t, C f)]"
    using s3 by auto
  let ?s5 = "if un then unpin s4 j else s4"
  have s5: "view ?s5 ?C ?D ?L ?P" "at ?s5 i f" "at ?s5 j t" "frame ?s3 ?s5" "trace ?s5 = trace ?s3 @ [(t, C f)]"
    using s4 un unpin_law [OF s4(5,3)] frame_trans by auto
  from rel_law [OF s5(1,2)] obtain s6 where s6: "rel ?s5 i = Ok s6" "at s6 j t" "frame ?s5 s6" "trace s6 = trace ?s5"
      "view s6 ?C ?D (?L - {f}) ?P"
    using clean t s5(3) by auto
  have L1: "?L - {f} = insert t L" using t by auto
  from rel_law [OF s6(5,2)] obtain s7 where s7: "rel s6 j = Ok s7" "frame s6 s7" "trace s7 = trace s6"
      "view s7 ?C ?D (insert t L - {t}) ?P"
    unfolding L1 by auto
  have "frame s2 ?s3" using p by blast
  with s1(4) s2(4) s5(4) s6(3) s7(2) have "frame s s7" by (metis frame_trans)
  moreover have "insert t L - {t} = L" using t by auto
  ultimately show ?thesis using s1 s2 d s4 s5 s6 s7 p by (simp add: Let_def split del: if_split)
qed

end

interpretation bc: block_cache "bio_rel dev" "bufs_for dev" "\<lambda>s i. b_data (bufs s i)" "\<lambda>s b. bread s dev b"
  set_data bwrite brelse bunpin bio_frame dtrace NBUF for dev
proof unfold_locales
  show "\<exists>i s'. bread s dev b = Ok (i, s') \<and> bufs_for dev s' i b \<and> bio_rel dev s' C D (insert b L) P \<and>
      bio_frame s s' \<and> dtrace s' = dtrace s \<and> (\<forall>j c. c \<in> L \<longrightarrow> bufs_for dev s j c \<longrightarrow> bufs_for dev s' j c)"
    if "bio_rel dev s C D L P" "b \<notin> L" "b \<in> P \<or> card (L \<union> P) < NBUF" for s C D L P b
    by (rule bread_rel [OF that]) (auto simp: keeps_def)
  show "\<exists>s'. bwrite s i = Ok s' \<and> bio_rel dev s' C (D(b := C b)) L P \<and> bio_frame s s' \<and>
      dtrace s' = dtrace s @ [(b, C b)] \<and> (\<forall>j c. bufs_for dev s j c \<longrightarrow> bufs_for dev s' j c)"
    if "bio_rel dev s C D L P" "bufs_for dev s i b" "b \<in> L" for s C D L P i b
    by (rule bwrite_rel [OF that]) auto
  show "\<exists>s'. brelse s i = Ok s' \<and> bio_rel dev s' C D (L - {b}) P \<and> bio_frame s s' \<and>
      dtrace s' = dtrace s \<and> (\<forall>j c. bufs_for dev s j c \<longrightarrow> bufs_for dev s' j c)"
    if "bio_rel dev s C D L P" "bufs_for dev s i b" "b \<in> L" "b \<in> P \<or> C b = D b" for s C D L P i b
    by (rule brelse_rel [OF that]) auto
qed (auto intro: bio_frame_trans held_buf(2) set_data_rel bunpin_rel)

section \<open>Running out of buffers\<close>

lemma idle_buffer_card:
  assumes rel: "bio_rel dev s C D L P" and i: "i < NBUF" and idle: "\<And>c. c \<in> L \<union> P \<Longrightarrow> \<not> bufs_for dev s i c"
  shows "card (L \<union> P) < NBUF"
proof -
  have "L \<union> P \<subseteq> (\<lambda>j. b_blockno (bufs s j)) ` ({..<NBUF} - {i})"
  proof
    fix c assume c: "c \<in> L \<union> P"
    then obtain j where j: "bufs_for dev s j c" using bio_relD(7) [OF rel] by blast
    then have "j \<noteq> i" using idle c by blast
    then show "c \<in> (\<lambda>j. b_blockno (bufs s j)) ` ({..<NBUF} - {i})" using j by (auto simp: bufs_for_def)
  qed
  then have "card (L \<union> P) \<le> card ((\<lambda>j. b_blockno (bufs s j)) ` ({..<NBUF} - {i}))" by (intro card_mono) auto
  also have "\<dots> \<le> card ({..<NBUF} - {i})" by (rule card_image_le) simp
  also have "\<dots> < NBUF" using i by simp
  finally show ?thesis .
qed

lemma bread_full:
  assumes rel: "bio_rel dev s C D L P" and b: "b \<notin> L \<union> P" and full: "NBUF \<le> card (L \<union> P)"
  shows "bread s dev b = Panic ''bget: no buffers''"
proof -
  have busy: "\<exists>c \<in> L \<union> P. bufs_for dev s i c" if "i < NBUF" for i
    using idle_buffer_card [OF rel that] full by force
  have "\<not> (b_dev (bufs s i) = dev \<and> b_blockno (bufs s i) = b)" if "i < NBUF" for i
    using busy [OF that] b by (auto simp: bufs_for_def)
  then have "find (\<lambda>i. b_dev (bufs s i) = dev \<and> b_blockno (bufs s i) = b) (lru s) = None"
    using bio_relD(4) [OF rel] by (simp add: find_None_iff)
  moreover have "b_refcnt (bufs s i) \<noteq> 0" if "i < NBUF" for i
    using busy [OF that] bio_relD(5) [OF rel that] by (auto simp: buf_ok_def bufs_for_def)
  then have "find (\<lambda>i. b_refcnt (bufs s i) = 0) (rev (lru s)) = None"
    using bio_relD(4) [OF rel] by (auto simp: find_None_iff)
  ultimately show ?thesis by (simp add: bread_def bget_def)
qed

section \<open>Properties\<close>

text \<open>A cache in which nothing is held: what \<open>binit\<close> leaves.\<close>

definition cache0 :: bstate where
  "cache0 = binit \<lparr>phys = (\<lambda>_. 0), freelist = 0, kend = 0, mypid = 1, wakes = [], disk = (\<lambda>b _. ucast b),
                   dtrace = [], bufs = (\<lambda>_. undefined), lru = []\<rparr>"

lemma cache0_rel: "bio_rel 1 cache0 (\<lambda>b _. ucast b) (\<lambda>b _. ucast b) {} {}"
  using binit_rel [of 1 "\<lparr>phys = (\<lambda>_. 0), freelist = 0, kend = 0, mypid = 1, wakes = [], disk = (\<lambda>b _. ucast b),
                   dtrace = [], bufs = (\<lambda>_. undefined), lru = []\<rparr>"]
  by (simp add: cache0_def)

text \<open>
  C19. \<open>bread\<close> of a block that the process does not already hold returns, locked by the process, a
  buffer with the block's current contents (the latest data, whether on disk or only in the
  cache); no block's contents and nothing on the disk changes.
\<close>

theorem bread_returns_block:
  assumes "bio_rel dev s C D L P" and "b \<notin> L" and "b \<in> P \<or> card (L \<union> P) < NBUF"
  shows "\<exists>i s'. bread s dev b = Ok (i, s') \<and> b_data (bufs s' i) = C b \<and>
           holdingsleep (mypid s') (b_lock (bufs s' i)) \<and> bio_rel dev s' C D (insert b L) P \<and>
           bio_frame s s' \<and> disk s' = disk s"
proof -
  from assms obtain i s' where s': "bread s dev b = Ok (i, s')" "bufs_for dev s' i b" "b_data (bufs s' i) = C b"
      "bio_rel dev s' C D (insert b L) P" "bio_frame s s'"
    by (rule bread_rel)
  then show ?thesis
    using held_buf(3) [OF s'(4,2)] bio_relD(2) [OF s'(4)] bio_relD(2) [OF assms(1)]
    by (simp add: holdingsleep_def)
qed

theorem bread_returns_block_witness:
  "\<exists>i s'. bread cache0 1 7 = Ok (i, s') \<and> b_data (bufs s' i) 0 = 7"
  using bread_returns_block [OF cache0_rel, of 7] by (auto simp: NBUF_def)

text \<open>
  \<open>bread\<close> of a block that the process does not hold fails exactly when the block is not cached and every
  one of the \<open>NBUF\<close> buffers is locked or pinned, and then it stops the machine with
  \<open>bget: no buffers\<close>.
\<close>

theorem bread_no_buffers_iff:
  assumes rel: "bio_rel dev s C D L P" and "b \<notin> L"
  shows "(if (\<forall>i. \<not> bufs_for dev s i b) \<and> NBUF \<le> card (L \<union> P)
          then bread s dev b = Panic ''bget: no buffers'' else is_ok (bread s dev b))"
proof (cases "(\<forall>i. \<not> bufs_for dev s i b) \<and> NBUF \<le> card (L \<union> P)")
  case False
  then consider i where "bufs_for dev s i b" | "card (L \<union> P) < NBUF"
    by fastforce
  then have "is_ok (bread s dev b)"
  proof cases
    case 1
    from bget_cached [OF rel 1 assms(2)] obtain x where "bget s dev b = Ok (i, set_buf i x s)" by blast
    then show ?thesis by (simp add: bread_def Let_def)
  next
    case 2
    from bc.rd_law [OF rel assms(2)] 2 show ?thesis by (auto simp: is_ok_iff)
  qed
  then show ?thesis by (simp only: False if_False)
next
  case True
  then have "b \<notin> L \<union> P" using bio_relD(7) [OF rel] by blast
  from bread_full [OF rel this] True show ?thesis by simp
qed

theorem bread_no_buffers_iff_witness: "is_ok (bread cache0 1 7)"
  using bread_no_buffers_iff [OF cache0_rel, of 7] by (simp add: NBUF_def)

end
