(* ===== verification/Bufring.thy ===== *)
theory Bufring
  imports Bio
begin

text \<open>
  The doubly linked list of \<open>bcache\<close> (bio.c), at the level of its \<open>next\<close> and \<open>prev\<close> pointers. A node is a
  buffer number; \<open>h\<close> is \<open>bcache.head\<close>. The pointer updates of \<open>binit\<close> and \<open>brelse\<close> and the two loops of
  \<open>bget\<close> are shown to be the list operations that theory \<open>Bio\<close> uses.
\<close>

section \<open>The pointer code\<close>

record ring =
  rnext :: "nat \<Rightarrow> nat"
  rprev :: "nat \<Rightarrow> nat"

text \<open>\<open>b->next = head.next; b->prev = head; head.next->prev = b; head.next = b\<close>\<close>

definition ring_push :: "nat \<Rightarrow> nat \<Rightarrow> ring \<Rightarrow> ring" where
  "ring_push h b r =
     (let r = r\<lparr>rnext := (rnext r)(b := rnext r h)\<rparr>;
          r = r\<lparr>rprev := (rprev r)(b := h)\<rparr>;
          r = r\<lparr>rprev := (rprev r)(rnext r h := b)\<rparr>
      in r\<lparr>rnext := (rnext r)(h := b)\<rparr>)"

text \<open>\<open>b->next->prev = b->prev; b->prev->next = b->next\<close>\<close>

definition ring_unlink :: "nat \<Rightarrow> ring \<Rightarrow> ring" where
  "ring_unlink b r =
     (let r = r\<lparr>rprev := (rprev r)(rnext r b := rprev r b)\<rparr>
      in r\<lparr>rnext := (rnext r)(rprev r b := rnext r b)\<rparr>)"

text \<open>\<open>binit\<close>: an empty ring, then every buffer pushed to the front.\<close>

definition ring_init :: "nat \<Rightarrow> nat \<Rightarrow> ring \<Rightarrow> ring" where
  "ring_init h n r =
     fold (ring_push h) [0..<n] (r\<lparr>rprev := (rprev r)(h := h), rnext := (rnext r)(h := h)\<rparr>)"

text \<open>
  The loops of \<open>bget\<close>: from \<open>b\<close> follow \<open>step\<close> to the first buffer that satisfies \<open>P\<close>, or to \<open>h\<close>. A list
  that never comes back to \<open>h\<close> makes the loop run forever, which is \<open>None\<close>.
\<close>

partial_function (option) ring_find :: "(nat \<Rightarrow> nat) \<Rightarrow> nat \<Rightarrow> (nat \<Rightarrow> bool) \<Rightarrow> nat \<Rightarrow> nat option option" where
  "ring_find step h P b =
     (if b = h then Some None else if P b then Some (Some b) else ring_find step h P (step b))"

declare ring_find.simps [code]

section \<open>The list it represents\<close>

text \<open>From \<open>a\<close>, following \<open>next\<close> visits \<open>xs\<close> and then \<open>b\<close>, and \<open>prev\<close> leads back.\<close>

primrec seg :: "ring \<Rightarrow> nat \<Rightarrow> nat list \<Rightarrow> nat \<Rightarrow> bool" where
  "seg r a [] b \<longleftrightarrow> rnext r a = b \<and> rprev r b = a"
| "seg r a (x # xs) b \<longleftrightarrow> rnext r a = x \<and> rprev r x = a \<and> seg r x xs b"

definition is_ring :: "ring \<Rightarrow> nat \<Rightarrow> nat list \<Rightarrow> bool" where
  "is_ring r h xs \<longleftrightarrow> distinct (h # xs) \<and> seg r h xs h"

lemma seg_append: "seg r a (xs @ x # ys) b \<longleftrightarrow> seg r a xs x \<and> seg r x ys b"
  by (induction xs arbitrary: a) auto

lemma seg_snoc: "seg r a (xs @ [x]) b \<longleftrightarrow> seg r a xs x \<and> rnext r x = b \<and> rprev r b = x"
  by (simp add: seg_append)

lemma seg_cong:
  assumes "\<And>x. x = a \<or> x \<in> set xs \<Longrightarrow> rnext r' x = rnext r x"
    and "\<And>x. x = b \<or> x \<in> set xs \<Longrightarrow> rprev r' x = rprev r x"
  shows "seg r' a xs b = seg r a xs b"
  using assms by (induction xs arbitrary: a) auto

lemma is_ring_push:
  assumes "is_ring r h xs" and "b \<noteq> h" and "b \<notin> set xs"
  shows "is_ring (ring_push h b r) h (b # xs)"
proof (cases xs)
  case Nil
  then show ?thesis using assms by (simp add: is_ring_def ring_push_def Let_def)
next
  case (Cons y ys)
  have "seg (ring_push h b r) y ys h = seg r y ys h"
    using assms Cons by (intro seg_cong) (auto simp: is_ring_def ring_push_def Let_def)
  then show ?thesis using assms Cons by (auto simp: is_ring_def ring_push_def Let_def)
qed

lemma is_ring_unlink:
  assumes "is_ring r h xs" and "b \<in> set xs"
  shows "is_ring (ring_unlink b r) h (remove1 b xs)"
proof -
  from assms(2) obtain ys zs where xs: "xs = ys @ b # zs" and ny: "b \<notin> set ys"
    by (meson split_list_first)
  have d: "distinct (h # ys @ b # zs)" and s: "seg r h ys b" "seg r b zs h"
    using assms(1) xs by (auto simp: is_ring_def seg_append)
  define p where "p = (if ys = [] then h else last ys)"
  define q where "q = (if zs = [] then h else hd zs)"
  have p: "rprev r b = p" "rnext r p = b"
    using s(1) unfolding p_def by (cases ys rule: rev_cases; simp add: seg_snoc)+
  have q: "rnext r b = q" "rprev r q = b"
    using s(2) unfolding q_def by (cases zs; simp)+
  let ?r = "ring_unlink b r"
  have nx: "rnext ?r x = (if x = p then q else rnext r x)" and pv: "rprev ?r x = (if x = q then p else rprev r x)" for x
    using p q d by (auto simp: ring_unlink_def Let_def p_def q_def split: if_splits)
  have "seg ?r h (ys @ zs) h"
  proof (cases ys rule: rev_cases)
    case Nil
    then have "p = h" by (simp add: p_def)
    then show ?thesis
    proof (cases zs)
      case (Cons z zs')
      have "seg ?r z zs' h = seg r z zs' h"
        using d Nil Cons \<open>p = h\<close> by (intro seg_cong) (auto simp: nx pv q_def)
      then show ?thesis using Nil Cons s \<open>p = h\<close> by (simp add: nx pv q_def)
    qed (use Nil q_def nx pv in simp)
  next
    case (snoc ys' y)
    then have py: "p = y" by (simp add: p_def)
    have 1: "seg ?r h ys' y = seg r h ys' y"
      using d snoc py by (intro seg_cong) (auto simp: nx pv q_def)
    show ?thesis
    proof (cases zs)
      case Nil
      then show ?thesis using 1 snoc s py by (simp add: seg_append nx pv q_def)
    next
      case (Cons z zs')
      have "seg ?r z zs' h = seg r z zs' h"
        using d snoc Cons py by (intro seg_cong) (auto simp: nx pv q_def)
      then show ?thesis using 1 snoc Cons s py by (simp add: seg_append nx pv q_def)
    qed
  qed
  then show ?thesis using d xs ny by (simp add: is_ring_def remove1_append)
qed

lemma seg_rev: "seg \<lparr>rnext = rprev r, rprev = rnext r\<rparr> b (rev xs) a = seg r a xs b"
  by (induction xs arbitrary: a) (auto simp: seg_append)

lemma ring_find_seg:
  assumes "seg r a xs h" and "h \<notin> set xs"
  shows "ring_find (rnext r) h P (rnext r a) = Some (find P xs)"
  using assms
proof (induction xs arbitrary: a)
  case Nil
  then show ?case by (simp add: ring_find.simps)
next
  case (Cons x xs)
  then show ?case by (subst ring_find.simps) auto
qed

section \<open>Properties\<close>

text \<open>
  C24. The pointer list of the buffer cache is the list the model uses. \<open>binit\<close> links all buffers,
  the last one first; unlinking a buffer and pushing it to the front, as \<open>brelse\<close> does, moves it to the front
  of the list; both loops of \<open>bget\<close> end, the forward one at the first match in the list, the
  backward one at the last.
\<close>

theorem bufring_refines_list:
  "is_ring (ring_init h h r) h (rev [0..<h]) \<and>
   (\<forall>xs b. is_ring r h xs \<longrightarrow> b \<in> set xs \<longrightarrow> is_ring (ring_push h b (ring_unlink b r)) h (b # remove1 b xs)) \<and>
   (\<forall>xs P. is_ring r h xs \<longrightarrow> ring_find (rnext r) h P (rnext r h) = Some (find P xs) \<and>
                              ring_find (rprev r) h P (rprev r h) = Some (find P (rev xs)))"
proof (intro conjI allI impI)
  have "is_ring (fold (ring_push h) [0..<n] (r\<lparr>rprev := (rprev r)(h := h), rnext := (rnext r)(h := h)\<rparr>)) h (rev [0..<n])"
    if "n \<le> h" for n
    using that
  proof (induction n)
    case 0
    then show ?case by (simp add: is_ring_def)
  next
    case (Suc n)
    then show ?case by (simp add: is_ring_push)
  qed
  then show "is_ring (ring_init h h r) h (rev [0..<h])" by (simp add: ring_init_def)
next
  fix xs b assume a: "is_ring r h xs" "b \<in> set xs"
  then have "is_ring (ring_unlink b r) h (remove1 b xs)" by (rule is_ring_unlink)
  moreover have "b \<noteq> h" "b \<notin> set (remove1 b xs)" using a by (auto simp: is_ring_def)
  ultimately show "is_ring (ring_push h b (ring_unlink b r)) h (b # remove1 b xs)" by (rule is_ring_push)
next
  fix xs P assume a: "is_ring r h xs"
  then show "ring_find (rnext r) h P (rnext r h) = Some (find P xs)"
    by (intro ring_find_seg) (auto simp: is_ring_def)
  have "seg \<lparr>rnext = rprev r, rprev = rnext r\<rparr> h (rev xs) h" "h \<notin> set (rev xs)"
    using a seg_rev by (auto simp: is_ring_def)
  from ring_find_seg [OF this] show "ring_find (rprev r) h P (rprev r h) = Some (find P (rev xs))"
    by simp
qed

theorem bufring_refines_list_witness:
  "ring_find (rnext (ring_init 30 30 \<lparr>rnext = (\<lambda>_. 0), rprev = (\<lambda>_. 0)\<rparr>)) 30 even
     (rnext (ring_init 30 30 \<lparr>rnext = (\<lambda>_. 0), rprev = (\<lambda>_. 0)\<rparr>) 30) = Some (Some 28)"
proof -
  let ?r = "ring_init 30 30 \<lparr>rnext = (\<lambda>_. 0), rprev = (\<lambda>_. 0)\<rparr>"
  have "is_ring ?r 30 (rev [0..<30])" using bufring_refines_list [of 30] by blast
  then have "ring_find (rnext ?r) 30 even (rnext ?r 30) = Some (find even (rev [0..<30]))"
    using bufring_refines_list [of 30 ?r] by blast
  then show ?thesis by (simp add: upt_rec)
qed

end
