(* ===== verification/Grep.thy ===== *)
theory Grep
  imports Prelude
begin

text \<open>
  The user program \<open>user/grep.c\<close>: the recursive matcher for \<open>^\<close>, \<open>.\<close>, \<open>*\<close> and \<open>$\<close>, and the loop
  that reads a descriptor into a 1024-byte buffer and prints the matching lines. A C string is
  the list of its characters before the NUL, so \<open>*text == 0\<close> is the empty list. The matcher is
  shown equal to a declarative reading of the pattern; the loop is shown to print the matching
  lines whatever sizes the \<open>read\<close> system call returns, as long as every line fits the buffer.
\<close>

section \<open>The matcher\<close>

fun matchhere :: "string \<Rightarrow> string \<Rightarrow> bool"
and matchstar :: "char \<Rightarrow> string \<Rightarrow> string \<Rightarrow> bool" where
  "matchhere re text = (case re of
      [] \<Rightarrow> True
    | c # re1 \<Rightarrow>
        if re1 \<noteq> [] \<and> hd re1 = CHR ''*'' then matchstar c (tl re1) text
        else if c = CHR ''$'' \<and> re1 = [] then text = []
        else (case text of
            [] \<Rightarrow> False
          | x # text1 \<Rightarrow> if c = CHR ''.'' \<or> c = x then matchhere re1 text1 else False))"
| "matchstar c re text =
     (if matchhere re text then True
      else case text of
          [] \<Rightarrow> False
        | x # text1 \<Rightarrow> if x = c \<or> c = CHR ''.'' then matchstar c re text1 else False)"

declare matchhere.simps [simp del] matchstar.simps [simp del]

primrec match_from :: "string \<Rightarrow> string \<Rightarrow> bool" where
  "match_from re [] = matchhere re []"
| "match_from re (x # text) = (if matchhere re (x # text) then True else match_from re text)"

definition match :: "string \<Rightarrow> string \<Rightarrow> bool" where
  "match re text = (if re \<noteq> [] \<and> hd re = CHR ''^'' then matchhere (tl re) text else match_from re text)"

section \<open>The read loop\<close>

definition GREPBUF :: nat where "GREPBUF = 1024"

definition NUL :: char where "NUL = CHR 0x00"
definition NL :: char where "NL = CHR 0x0A"

text \<open>\<open>strchr\<close> of \<open>user/ulib.c\<close>: the offset of the first \<open>c\<close> before the NUL.\<close>

fun strchr :: "string \<Rightarrow> char \<Rightarrow> nat option" where
  "strchr [] c = None"
| "strchr (x # s) c =
     (if x = NUL then None else if x = c then Some 0 else map_option Suc (strchr s c))"

lemma strchr_less: "strchr s c = Some i \<Longrightarrow> i < length s"
  by (induction s c arbitrary: i rule: strchr.induct) (auto split: if_splits)

text \<open>The inner loop: what is written to descriptor 1, and the bytes left after the last newline.\<close>

function grep_lines :: "string \<Rightarrow> string \<Rightarrow> string \<times> string" where
  "grep_lines pattern p =
     (case strchr p NL of
        None \<Rightarrow> ([], p)
      | Some q \<Rightarrow>
          let (out, rest) = grep_lines pattern (drop (Suc q) p)
          in ((if match pattern (take q p) then take (Suc q) p else []) @ out, rest))"
  by pat_completeness auto
termination
  by (relation "measure (\<lambda>(_, p). length p)") (auto dest!: strchr_less)

declare grep_lines.simps [simp del]

text \<open>
  The outer loop. The system call \<open>read\<close> takes a prefix of the input of its own choosing:
  \<open>rd input room\<close> bytes of at most \<open>room\<close>; the loop ends at the first read of nothing.
\<close>

function grep :: "(string \<Rightarrow> nat \<Rightarrow> nat) \<Rightarrow> string \<Rightarrow> string \<Rightarrow> string \<Rightarrow> string" where
  "grep rd pattern buf input =
     (let room = GREPBUF - length buf - 1; n = min (min (rd input room) room) (length input)
      in if n = 0 then []
         else let (out, rest) = grep_lines pattern (buf @ take n input)
              in out @ grep rd pattern rest (drop n input))"
  by pat_completeness auto
termination
  by (relation "measure (\<lambda>(_, _, _, input). length input)") (auto simp: min_def split: if_splits)

declare grep.simps [simp del]

section \<open>What a pattern means\<close>

datatype item = One char | Star char

fun parse_re :: "string \<Rightarrow> item list \<times> bool" where
  "parse_re re = (case re of
      [] \<Rightarrow> ([], False)
    | c # re1 \<Rightarrow>
        if re1 \<noteq> [] \<and> hd re1 = CHR ''*'' then (let (is, e) = parse_re (tl re1) in (Star c # is, e))
        else if c = CHR ''$'' \<and> re1 = [] then ([], True)
        else (let (is, e) = parse_re re1 in (One c # is, e)))"

declare parse_re.simps [simp del]

definition covers :: "char \<Rightarrow> char \<Rightarrow> bool" where
  "covers c x \<longleftrightarrow> c = CHR ''.'' \<or> c = x"

fun lang :: "item list \<Rightarrow> string set" where
  "lang [] = {[]}"
| "lang (One c # is) = {x # w | x w. covers c x \<and> w \<in> lang is}"
| "lang (Star c # is) = {u @ w | u w. list_all (covers c) u \<and> w \<in> lang is}"

text \<open>A prefix of the text is in the language, and it is the whole text after a final \<open>$\<close>.\<close>

definition prefix_match :: "item list \<times> bool \<Rightarrow> string \<Rightarrow> bool" where
  "prefix_match r text = (\<exists>w v. text = w @ v \<and> w \<in> lang (fst r) \<and> (snd r \<longrightarrow> v = []))"

lemma prefix_match_Nil: "prefix_match ([], e) t \<longleftrightarrow> (e \<longrightarrow> t = [])"
  by (auto simp: prefix_match_def)

lemma prefix_match_One:
  "prefix_match (One c # is, e) t \<longleftrightarrow> (case t of [] \<Rightarrow> False | x # t1 \<Rightarrow> covers c x \<and> prefix_match (is, e) t1)"
proof
  assume "prefix_match (One c # is, e) t"
  then obtain x w v where "t = x # w @ v" "covers c x" "w \<in> lang is" "e \<longrightarrow> v = []"
    unfolding prefix_match_def fst_conv snd_conv lang.simps mem_Collect_eq by force
  then show "case t of [] \<Rightarrow> False | x # t1 \<Rightarrow> covers c x \<and> prefix_match (is, e) t1"
    unfolding prefix_match_def by auto
next
  assume "case t of [] \<Rightarrow> False | x # t1 \<Rightarrow> covers c x \<and> prefix_match (is, e) t1"
  then obtain x w v where t: "t = (x # w) @ v" "covers c x" "w \<in> lang is" "e \<longrightarrow> v = []"
    unfolding prefix_match_def by (auto split: list.splits)
  then have "x # w \<in> lang (One c # is)" by simp
  with t show "prefix_match (One c # is, e) t"
    unfolding prefix_match_def by (intro exI [of _ "x # w"] exI [of _ v]) simp
qed

lemma prefix_match_Star:
  "prefix_match (Star c # is, e) t \<longleftrightarrow>
     prefix_match (is, e) t \<or> (case t of [] \<Rightarrow> False | x # t1 \<Rightarrow> covers c x \<and> prefix_match (Star c # is, e) t1)"
    (is "?l t \<longleftrightarrow> ?m t \<or> ?r t")
proof
  assume "?l t"
  then obtain u w v where t: "t = u @ w @ v" and u: "list_all (covers c) u" and w: "w \<in> lang is"
    and e: "e \<longrightarrow> v = []"
    unfolding prefix_match_def fst_conv snd_conv lang.simps mem_Collect_eq by force
  show "?m t \<or> ?r t"
  proof (cases u)
    case Nil
    with t w e show ?thesis by (auto simp: prefix_match_def)
  next
    case (Cons x u')
    with u w have "u' @ w \<in> lang (Star c # is)" by auto
    with t e Cons have "prefix_match (Star c # is, e) (u' @ w @ v)"
      unfolding prefix_match_def by (intro exI [of _ "u' @ w"] exI [of _ v]) simp
    with t u Cons show ?thesis by simp
  qed
next
  assume "?m t \<or> ?r t"
  then show "?l t"
  proof
    assume "?m t"
    then obtain w v where t: "t = w @ v" "w \<in> lang is" "e \<longrightarrow> v = []"
      by (auto simp: prefix_match_def)
    then have "[] @ w \<in> lang (Star c # is)"
      by (simp del: append_Nil) (intro exI [of _ "[]"] exI [of _ w], simp)
    with t show ?thesis unfolding prefix_match_def by auto
  next
    assume "?r t"
    then obtain x t1 where t: "t = x # t1" "covers c x" "prefix_match (Star c # is, e) t1"
      by (auto split: list.splits)
    then obtain u w v where p: "t1 = u @ w @ v" "list_all (covers c) u" "w \<in> lang is" "e \<longrightarrow> v = []"
      unfolding prefix_match_def fst_conv snd_conv lang.simps mem_Collect_eq by force
    with t have "(x # u) @ w \<in> lang (Star c # is)"
      unfolding lang.simps mem_Collect_eq by (intro exI [of _ "x # u"] exI [of _ w]) simp
    with t p show ?thesis
      unfolding prefix_match_def by (intro exI [of _ "(x # u) @ w"] exI [of _ v]) simp
  qed
qed

lemma matchhere_Nil [simp]: "matchhere [] t"
  by (subst matchhere.simps) simp

lemma matchhere_Cons:
  "matchhere (c # re) t =
     (if re \<noteq> [] \<and> hd re = CHR ''*'' then matchstar c (tl re) t
      else if c = CHR ''$'' \<and> re = [] then t = []
      else (case t of [] \<Rightarrow> False | x # t1 \<Rightarrow> covers c x \<and> matchhere re t1))"
  by (subst matchhere.simps) (auto simp: covers_def split: list.split)

lemma parse_re_Nil [simp]: "parse_re [] = ([], False)"
  by (subst parse_re.simps) simp

lemma parse_re_Cons:
  "parse_re (c # re) =
     (if re \<noteq> [] \<and> hd re = CHR ''*'' then (Star c # fst (parse_re (tl re)), snd (parse_re (tl re)))
      else if c = CHR ''$'' \<and> re = [] then ([], True)
      else (One c # fst (parse_re re), snd (parse_re re)))"
  by (subst parse_re.simps) (simp add: split_beta)

lemma matchstar_parse:
  assumes "\<And>t. matchhere re t = prefix_match (parse_re re) t"
  shows "matchstar c re t = prefix_match (Star c # fst (parse_re re), snd (parse_re re)) t"
proof (induction t)
  case Nil
  show ?case
    by (subst matchstar.simps, subst prefix_match_Star) (simp add: assms)
next
  case (Cons x t)
  show ?case
    by (subst matchstar.simps, subst prefix_match_Star) (auto simp: assms Cons.IH covers_def)
qed

lemma matchhere_parse: "matchhere re t = prefix_match (parse_re re) t"
proof (induction re arbitrary: t rule: length_induct)
  case (1 re)
  show ?case
  proof (cases re)
    case Nil
    then show ?thesis by (simp add: prefix_match_Nil)
  next
    case (Cons c re1)
    then have "matchhere (tl re1) t = prefix_match (parse_re (tl re1)) t" for t
      using 1 by simp
    moreover have "matchhere re1 t = prefix_match (parse_re re1) t" for t
      using 1 Cons by simp
    ultimately show ?thesis
      unfolding Cons matchhere_Cons parse_re_Cons
      by (auto simp: matchstar_parse prefix_match_Nil prefix_match_One split: list.split)
  qed
qed

lemma match_from_suffix: "match_from re t \<longleftrightarrow> (\<exists>u v. t = u @ v \<and> matchhere re v)"
proof (induction t)
  case (Cons x t)
  have "(\<exists>u v. x # t = u @ v \<and> matchhere re v) \<longleftrightarrow>
      matchhere re (x # t) \<or> (\<exists>u v. t = u @ v \<and> matchhere re v)"
    by (metis append_Nil append_Cons append_eq_Cons_conv)
  with Cons.IH show ?case by auto
qed simp

text \<open>
  C34. The matcher of \<open>grep\<close> decides the declarative meaning of a pattern: some part of the text
  is a word of the pattern's language, at the start of the text when the pattern begins with \<open>^\<close>
  and at its end when it finishes with \<open>$\<close>.
\<close>

theorem match_iff_language:
  "match re text \<longleftrightarrow>
     (let caret = (re \<noteq> [] \<and> hd re = CHR ''^''); r = parse_re (if caret then tl re else re)
      in \<exists>u w v. text = u @ w @ v \<and> w \<in> lang (fst r) \<and> (caret \<longrightarrow> u = []) \<and> (snd r \<longrightarrow> v = []))"
  unfolding match_def match_from_suffix matchhere_parse prefix_match_def Let_def
  by (simp split: if_split) (metis append_assoc)

theorem match_iff_language_witness: "match ''b$'' ''ab''"
proof -
  have p: "parse_re ''b$'' = ([One (CHR ''b'')], True)" by (simp add: parse_re_Cons)
  have "''b'' \<in> lang [One (CHR ''b'')]" by (simp add: covers_def)
  then show ?thesis
    unfolding match_iff_language [of "''b$''" "''ab''"] Let_def
    by (intro exI [of _ "''a''"] exI [of _ "''b''"] exI [of _ "[]"]) (simp add: p)
qed

section \<open>The loop prints the matching lines\<close>

text \<open>Lines with their newline; a last line without one is not printed.\<close>

function matching_lines :: "string \<Rightarrow> string \<Rightarrow> string" where
  "matching_lines pattern s =
     (case strchr s NL of
        None \<Rightarrow> []
      | Some q \<Rightarrow> (if match pattern (take q s) then take (Suc q) s else []) @
                  matching_lines pattern (drop (Suc q) s))"
  by pat_completeness auto
termination
  by (relation "measure (\<lambda>(_, s). length s)") (auto dest!: strchr_less)

declare matching_lines.simps [simp del]

definition no_nul :: "string \<Rightarrow> bool" where
  "no_nul s = (NUL \<notin> set s)"

lemma strchr_append:
  "no_nul s \<Longrightarrow> strchr (s @ t) c = (case strchr s c of Some i \<Rightarrow> Some i | None \<Rightarrow> map_option ((+) (length s)) (strchr t c))"
proof (induction s)
  case Nil
  then show ?case by (cases "strchr t c") simp_all
next
  case (Cons x s)
  then show ?case by (cases "strchr t c") (auto simp: no_nul_def split: option.splits)
qed

lemma grep_lines_append:
  "no_nul p \<Longrightarrow> matching_lines pattern (p @ t) =
     fst (grep_lines pattern p) @ matching_lines pattern (snd (grep_lines pattern p) @ t)"
proof (induction pattern p rule: grep_lines.induct)
  case (1 pattern p)
  show ?case
  proof (cases "strchr p NL")
    case None
    then show ?thesis by (simp add: grep_lines.simps [of pattern p])
  next
    case (Some q)
    then have q: "q < length p" by (rule strchr_less)
    have "no_nul (drop (Suc q) p)"
      using 1(2) by (auto simp: no_nul_def dest: in_set_dropD)
    note IH = 1(1) [OF Some this]
    have "strchr (p @ t) NL = Some q"
      using 1(2) Some by (simp add: strchr_append)
    with q have "matching_lines pattern (p @ t) =
        (if match pattern (take q p) then take (Suc q) p else []) @ matching_lines pattern (drop (Suc q) p @ t)"
      by (subst matching_lines.simps) simp
    then show ?thesis
      using Some IH by (simp add: grep_lines.simps [of pattern p] split_beta)
  qed
qed

text \<open>Every line of \<open>s\<close>, the last included, has fewer than \<open>k\<close> characters.\<close>

function short_lines :: "nat \<Rightarrow> string \<Rightarrow> bool" where
  "short_lines k s =
     (case strchr s NL of
        None \<Rightarrow> length s < k
      | Some q \<Rightarrow> q < k \<and> short_lines k (drop (Suc q) s))"
  by pat_completeness auto
termination
  by (relation "measure (\<lambda>(_, s). length s)") (auto dest!: strchr_less)

declare short_lines.simps [simp del]

lemma grep_lines_rest:
  "no_nul p \<Longrightarrow> strchr (snd (grep_lines pattern p)) NL = None \<and> no_nul (snd (grep_lines pattern p))
     \<and> (short_lines k (p @ t) \<longrightarrow> short_lines k (snd (grep_lines pattern p) @ t))"
proof (induction pattern p rule: grep_lines.induct)
  case (1 pattern p)
  show ?case
  proof (cases "strchr p NL")
    case None
    with 1(2) show ?thesis by (simp add: grep_lines.simps [of pattern p])
  next
    case (Some q)
    then have q: "q < length p" by (rule strchr_less)
    have n: "no_nul (drop (Suc q) p)"
      using 1(2) by (auto simp: no_nul_def dest: in_set_dropD)
    have "strchr (p @ t) NL = Some q"
      using 1(2) Some by (simp add: strchr_append)
    with q have "short_lines k (p @ t) \<longrightarrow> short_lines k (drop (Suc q) p @ t)"
      by (subst short_lines.simps) simp
    with 1(1) [OF Some n] Some show ?thesis
      by (simp add: grep_lines.simps [of pattern p] split_beta)
  qed
qed

lemma short_lines_prefix:
  "short_lines k (b @ t) \<Longrightarrow> no_nul b \<Longrightarrow> strchr b NL = None \<Longrightarrow> t \<noteq> [] \<Longrightarrow> length b < k"
  by (subst (asm) short_lines.simps) (auto simp: strchr_append split: option.splits)

lemma no_nul_append [simp]: "no_nul (a @ b) \<longleftrightarrow> no_nul a \<and> no_nul b"
  by (auto simp: no_nul_def)

text \<open>A read that is asked for something and has something left returns at least one byte.\<close>

definition reads_some :: "(string \<Rightarrow> nat \<Rightarrow> nat) \<Rightarrow> bool" where
  "reads_some rd \<longleftrightarrow> (\<forall>input room. input \<noteq> [] \<and> 0 < room \<longrightarrow> 0 < rd input room)"

lemma grep_rest:
  "no_nul (buf @ input) \<Longrightarrow> strchr buf NL = None \<Longrightarrow> short_lines (GREPBUF - 1) (buf @ input) \<Longrightarrow>
     reads_some rd \<Longrightarrow> grep rd pattern buf input = matching_lines pattern (buf @ input)"
proof (induction rd pattern buf input rule: grep.induct)
  case (1 rd' pattern buf input)
  define room where "room = GREPBUF - length buf - 1"
  define n where "n = min (min (rd' input room) room) (length input)"
  note prems = 1(2-4)
  show ?case
  proof (cases "input = []")
    case True
    then show ?thesis
      using prems by (simp add: grep.simps [of rd'] matching_lines.simps)
  next
    case False
    have "length buf < GREPBUF - 1"
      using short_lines_prefix [of _ buf input] prems False by simp
    then have "0 < room" by (simp add: room_def)
    with False 1(5) have n: "0 < n" by (simp add: n_def reads_some_def)
    let ?p = "buf @ take n input"
    have split: "buf @ input = ?p @ drop n input" by simp
    have nn: "no_nul ?p" "no_nul (drop n input)"
      using prems(1) by (auto simp: no_nul_def dest: in_set_takeD in_set_dropD)
    note rest = grep_lines_rest [OF nn(1), of pattern "GREPBUF - 1" "drop n input"]
    have "grep rd' pattern buf input =
        fst (grep_lines pattern ?p) @ grep rd' pattern (snd (grep_lines pattern ?p)) (drop n input)"
      using n unfolding grep.simps [of rd' pattern buf input] Let_def room_def [symmetric] n_def [symmetric]
      by (simp add: split_beta)
    also have "\<dots> = matching_lines pattern (?p @ drop n input)"
      unfolding grep_lines_append [OF nn(1)]
      using 1(1) [OF room_def n_def _ refl prod.collapse] n rest nn prems(3) 1(5)
      unfolding split by simp
    finally show ?thesis by simp
  qed
qed

text \<open>
  Whatever sizes the \<open>read\<close> calls return, \<open>grep\<close> writes exactly the newline-terminated lines
  of its input that match, in order, provided the input has no NUL and every line fits the
  buffer (fewer than 1023 characters).
\<close>

theorem grep_prints_matching_lines:
  assumes "reads_some rd" and "no_nul input" and "short_lines (GREPBUF - 1) input"
  shows "grep rd pattern [] input = matching_lines pattern input"
  using grep_rest [of "[]" input rd pattern] assms by (simp add: no_nul_def)

theorem grep_prints_matching_lines_witness:
  "grep (\<lambda>input room. 3) ''b'' [] (''ab'' @ [NL] @ ''ccb'' @ [NL]) =
     matching_lines ''b'' (''ab'' @ [NL] @ ''ccb'' @ [NL])"
  by (rule grep_prints_matching_lines)
    (simp_all add: reads_some_def no_nul_def NL_def NUL_def short_lines.simps GREPBUF_def)

text \<open>
  A line that fills the buffer ends the loop: the next \<open>read\<close> is asked for zero bytes, its
  result 0 looks like the end of the file, and the rest of the input is not searched.
\<close>

theorem grep_stops_at_long_line:
  assumes "length buf = GREPBUF - 1"
  shows "grep rd pattern buf input = []"
  using assms by (subst grep.simps) simp

theorem grep_stops_at_long_line_witness:
  "grep (\<lambda>input room. room) ''b'' (replicate 1023 (CHR ''a'')) (NL # ''b'' @ [NL]) = []"
  by (rule grep_stops_at_long_line) (simp add: GREPBUF_def)

end
