(* ===== verification/Shell.thy ===== *)
theory Shell
  imports Grep
begin

text \<open>
  The shell \<open>user/sh.c\<close>: tokeniser, recursive-descent parser, \<open>nulterminate\<close>, and \<open>runcmd\<close> as the
  tree of system calls it performs. The command line is a list of characters before its NUL; a
  \<open>char *\<close> into it is an index, so \<open>es\<close> is its length. The mutually recursive parsers take a
  fuel argument; \<open>None\<close> is running out of it, and \<open>line_fuel\<close> is shown to be enough for every
  line. \<open>Panic\<close> is the shell's own \<open>panic\<close>, which prints the message and exits.
\<close>

section \<open>Commands\<close>

definition MAXARGS :: nat where "MAXARGS = 10"

text \<open>
  \<open>struct cmd\<close> and its variants. A string of the line is the pair of its start and its end
  (\<open>argv[i]\<close> and \<open>eargv[i]\<close>, \<open>file\<close> and \<open>efile\<close>); the list of \<open>EXEC\<close> stops before the null entry.
\<close>

datatype cmd =
    EXEC "(nat \<times> nat) list"
  | REDIR cmd "nat \<times> nat" int int
  | PIPE cmd cmd
  | LIST cmd cmd
  | BACK cmd

definition O_RDONLY :: int where "O_RDONLY = 0x000"
definition O_WRONLY :: int where "O_WRONLY = 0x001"
definition O_CREATE :: int where "O_CREATE = 0x200"
definition O_TRUNC :: int where "O_TRUNC = 0x400"

section \<open>Tokens\<close>

definition whitespace :: string where
  "whitespace = [CHR '' '', CHR 0x09, CHR 0x0D, CHR 0x0A, CHR 0x0B]"

definition symbols :: string where "symbols = ''<|>&;()''"

text \<open>\<open>*s\<close>; the line ends with a NUL at \<open>es\<close>.\<close>

definition at :: "string \<Rightarrow> nat \<Rightarrow> char" where
  "at buf s = (if s < length buf then buf ! s else NUL)"

definition is_ws :: "char \<Rightarrow> bool" where "is_ws c = (strchr whitespace c \<noteq> None)"
definition is_sym :: "char \<Rightarrow> bool" where "is_sym c = (strchr symbols c \<noteq> None)"

text \<open>\<open>while (s < es && P(*s)) s++;\<close>\<close>

function skip :: "(char \<Rightarrow> bool) \<Rightarrow> string \<Rightarrow> nat \<Rightarrow> nat \<Rightarrow> nat" where
  "skip P buf s es = (if s < es \<and> P (at buf s) then skip P buf (Suc s) es else s)"
  by pat_completeness auto
termination
  by (relation "measure (\<lambda>(_, _, s, es). es - s)") auto

declare skip.simps [simp del]

text \<open>\<open>gettoken\<close>: the token, its start, its end and the new \<open>*ps\<close>.\<close>

definition gettoken :: "string \<Rightarrow> nat \<Rightarrow> nat \<Rightarrow> char \<times> nat \<times> nat \<times> nat" where
  "gettoken buf ps es =
     (let q = skip is_ws buf ps es; c = at buf q;
          (ret, eq) =
            (if c = NUL then (c, q)
             else if c \<in> set ''|();&<'' then (c, q + 1)
             else if c = CHR ''>'' then
               (if at buf (q + 1) = CHR ''>'' then (CHR ''+'', q + 2) else (c, q + 1))
             else (CHR ''a'', skip (\<lambda>x. \<not> is_ws x \<and> \<not> is_sym x) buf q es))
      in (ret, q, eq, skip is_ws buf eq es))"

definition peek :: "string \<Rightarrow> nat \<Rightarrow> nat \<Rightarrow> string \<Rightarrow> bool \<times> nat" where
  "peek buf ps es toks =
     (let s = skip is_ws buf ps es in (at buf s \<noteq> NUL \<and> strchr toks (at buf s) \<noteq> None, s))"

section \<open>Scanning\<close>

lemma skip_bounds: "s \<le> skip P buf s es \<and> (s \<le> es \<longrightarrow> skip P buf s es \<le> es)"
proof (induction P buf s es rule: skip.induct)
  case (1 P buf s es)
  then show ?case by (subst (1 2) skip.simps) auto
qed

lemma skip_stop: "s \<le> es \<Longrightarrow> skip P buf s es < es \<Longrightarrow> \<not> P (at buf (skip P buf s es))"
proof (induction P buf s es rule: skip.induct)
  case (1 P buf s es)
  show ?case
  proof (cases "s < es \<and> P (at buf s)")
    case True
    then have e: "skip P buf s es = skip P buf (Suc s) es" by (subst skip.simps) simp
    show ?thesis using 1 True unfolding e by simp
  next
    case False
    then have "skip P buf s es = s" by (subst skip.simps) auto
    with False 1(3) show ?thesis by auto
  qed
qed

lemma skip_progress: "s < es \<Longrightarrow> P (at buf s) \<Longrightarrow> s < skip P buf s es"
  using skip_bounds [of "Suc s" P buf es] by (subst skip.simps) simp

lemma at_neq_NUL: "at buf s \<noteq> NUL \<Longrightarrow> s < length buf"
  by (auto simp: at_def split: if_splits)

lemma peek_bounds:
  assumes "peek buf ps es toks = (b, ps1)" and "ps \<le> es"
  shows "ps \<le> ps1" and "ps1 \<le> es" and "b \<Longrightarrow> es = length buf \<Longrightarrow> ps1 < es"
  using assms skip_bounds [of ps is_ws buf es] at_neq_NUL by (auto simp: peek_def Let_def)

lemma peek_again:
  assumes "peek buf ps es toks = (b, ps1)" and "ps \<le> es"
  shows "skip is_ws buf ps1 es = ps1"
proof -
  have "ps1 < es \<Longrightarrow> \<not> is_ws (at buf ps1)"
    using assms skip_stop [of ps es is_ws buf] by (auto simp: peek_def Let_def)
  then show ?thesis by (subst skip.simps) auto
qed

text \<open>A token lies between the old and the new position, and is not empty unless the line is at its end.\<close>

lemma gettoken_bounds:
  assumes g: "gettoken buf ps es = (tok, q, eq, ps1)" and ps: "ps \<le> es" and es: "es = length buf"
  shows "ps \<le> q" "q \<le> eq" "eq \<le> ps1" "ps1 \<le> es" and "tok \<noteq> NUL \<Longrightarrow> q < eq"
proof -
  let ?q = "skip is_ws buf ps es"
  have q: "q = ?q" "ps \<le> q" "q \<le> es"
    using g ps skip_bounds [of ps is_ws buf es] by (simp_all add: gettoken_def Let_def split_beta)
  have w: "q < es \<Longrightarrow> \<not> is_ws (at buf q)"
    using skip_stop [OF ps, of is_ws buf] q(1) by simp
  let ?w = "\<lambda>x. \<not> is_ws x \<and> \<not> is_sym x"
  have p: "at buf q \<noteq> NUL \<Longrightarrow> q < es" using at_neq_NUL es by simp
  have p2: "at buf (Suc q) = CHR ''>'' \<Longrightarrow> Suc q < es"
    using at_neq_NUL [of buf "Suc q"] es by (simp add: NUL_def)
  have sy: "is_sym c \<Longrightarrow> c \<in> set ''|();&<'' \<or> c = CHR ''>''" for c
    by (auto simp: is_sym_def symbols_def split: if_splits)
  note sb = skip_bounds [of q ?w buf es] and sp = skip_progress [of q es ?w buf]
  have e: "q \<le> eq \<and> eq \<le> es \<and> (tok \<noteq> NUL \<longrightarrow> q < eq) \<and> ps1 = skip is_ws buf eq es"
  proof (cases "at buf q = NUL")
    case True
    then show ?thesis using g q by (auto simp: gettoken_def Let_def)
  next
    case False
    note nn = this p [OF False]
    show ?thesis
    proof (cases "at buf q \<in> set ''|();&<''")
      case True
      then show ?thesis using g q nn by (auto simp: gettoken_def Let_def)
    next
      case F2: False
      show ?thesis
      proof (cases "at buf q = CHR ''>''")
        case True
        then show ?thesis
          using g q nn F2 p2 by (auto simp: gettoken_def Let_def NUL_def split: if_splits)
      next
        case False
        then have "q < skip ?w buf q es" using sy F2 w nn sp by blast
        then show ?thesis
          using g q nn F2 False sb by (auto simp: gettoken_def Let_def)
      qed
    qed
  qed
  show "ps \<le> q" "q \<le> eq" "eq \<le> ps1" "ps1 \<le> es" "tok \<noteq> NUL \<Longrightarrow> q < eq"
    using q e skip_bounds [of eq is_ws buf es] by auto
qed

text \<open>After a successful \<open>peek\<close> the next token is not the end of the line.\<close>

lemma gettoken_after_peek:
  assumes pk: "peek buf ps es toks = (True, ps1)" and g: "gettoken buf ps1 es = (tok, q, eq, ps2)"
    and ps: "ps \<le> es" and es: "es = length buf"
  shows "ps1 < ps2" and "ps2 \<le> es"
proof -
  have "at buf ps1 \<noteq> NUL" using pk by (auto simp: peek_def Let_def)
  moreover have "q = ps1" using g peek_again [OF pk ps] by (simp add: gettoken_def Let_def split_beta)
  ultimately have "tok \<noteq> NUL"
    using g by (auto simp: gettoken_def Let_def NUL_def split: if_splits)
  then show "ps1 < ps2" "ps2 \<le> es"
    using gettoken_bounds [OF g _ es] peek_bounds [OF pk ps] by auto
qed

text \<open>
  Wherever the scan stands, also outside \<open>[0, es]\<close>: a symbol that \<open>peek\<close> has seen is in the line and
  the next \<open>gettoken\<close> moves past it. The loops of the parser end for this reason.
\<close>

lemma strchr_mem: "strchr toks c \<noteq> None \<Longrightarrow> c \<noteq> NUL \<Longrightarrow> c \<in> set toks"
  by (induction toks) (auto split: if_splits)

lemma gettoken_mono:
  assumes "gettoken buf ps es = (tok, q, eq, ps1)"
  shows "ps \<le> ps1"
proof -
  define w where "w = skip is_ws buf ps es"
  have "ps \<le> w" using skip_bounds [of ps is_ws buf es] by (simp add: w_def)
  moreover have "w \<le> eq"
    using assms skip_bounds [of w "\<lambda>x. \<not> is_ws x \<and> \<not> is_sym x" buf es]
    by (auto simp: gettoken_def Let_def w_def [symmetric] split: if_splits)
  moreover have "eq \<le> ps1"
    using assms skip_bounds [of eq is_ws buf es] by (auto simp: gettoken_def Let_def split: if_splits)
  ultimately show ?thesis by linarith
qed

lemma symbol_progress:
  assumes pk: "peek buf ps es toks = (True, ps1)" and sym: "set toks \<subseteq> set ''|();&<>''"
    and g: "gettoken buf ps1 es = (tok, q, eq, ps2)"
  shows "ps < ps2" and "ps < length buf"
proof -
  have p1: "ps1 = skip is_ws buf ps es" and c: "at buf ps1 \<noteq> NUL" "at buf ps1 \<in> set toks"
    using pk strchr_mem by (auto simp: peek_def Let_def)
  have le: "ps \<le> ps1" "ps1 < length buf" using p1 skip_bounds [of ps is_ws buf es] at_neq_NUL [OF c(1)] by auto
  have "\<not> is_ws (at buf ps1)" using c sym by (auto simp: is_ws_def whitespace_def split: if_splits)
  then have q: "skip is_ws buf ps1 es = ps1" by (subst skip.simps) simp
  have "at buf ps1 \<in> set ''|();&<'' \<or> at buf ps1 = CHR ''>''" using c(2) sym by auto
  then have "ps1 < eq" using g c(1) unfolding gettoken_def Let_def q by (auto split: if_splits)
  moreover have "eq \<le> ps2"
    using g skip_bounds [of eq is_ws buf es] by (auto simp: gettoken_def Let_def split: if_splits)
  ultimately show "ps < ps2" "ps < length buf" using le by linarith+
qed

section \<open>Parser\<close>

text \<open>
  \<open>parseredirs\<close>: the loop has no other exit than the failing \<open>peek\<close> and the panic. Each iteration
  moves past the symbol it saw, so what is left of the line is the measure.
\<close>

function parseredirs :: "string \<Rightarrow> cmd \<Rightarrow> nat \<Rightarrow> nat \<Rightarrow> (cmd \<times> nat) res" where
  "parseredirs buf cmd ps es =
     (let (more, ps1) = peek buf ps es ''<>'' in
      if \<not> more then Ok (cmd, ps1)
      else
        let (tok, _, _, ps2) = gettoken buf ps1 es;
            (a, q, eq, ps3) = gettoken buf ps2 es in
        if a \<noteq> CHR ''a'' then Panic ''missing file for redirection''
        else
          let cmd1 =
            (if tok = CHR ''<'' then REDIR cmd (q, eq) O_RDONLY 0
             else if tok = CHR ''>'' then REDIR cmd (q, eq) (O_WRONLY OR O_CREATE OR O_TRUNC) 1
             else if tok = CHR ''+'' then REDIR cmd (q, eq) (O_WRONLY OR O_CREATE) 1
             else cmd)
          in parseredirs buf cmd1 ps3 es)"
  by pat_completeness auto
termination
proof (relation "measure (\<lambda>(buf, _, ps, _). length buf - ps)")
  fix buf cmd ps es x more ps1 y tok r1 u r2 v ps2 z a r3 q r4 eq ps3 cmd1
  assume "x = peek buf ps es ''<>''" "(more, ps1) = x" "\<not> \<not> more"
    and "y = gettoken buf ps1 es" "(tok, r1) = y" "(u, r2) = r1" "(v, ps2) = r2"
    and "z = gettoken buf ps2 es" "(a, r3) = z" "(q, r4) = r3" "(eq, ps3) = r4"
  then have pk: "peek buf ps es ''<>'' = (True, ps1)" and g1: "gettoken buf ps1 es = (tok, u, v, ps2)"
    and g2: "gettoken buf ps2 es = (a, q, eq, ps3)"
    by auto
  show "((buf, cmd1, ps3, es), buf, cmd, ps, es) \<in> measure (\<lambda>(buf, _, ps, _). length buf - ps)"
    using symbol_progress [OF pk _ g1] gettoken_mono [OF g2] by auto
qed simp

declare parseredirs.simps [simp del]

text \<open>\<open>cmd->argv[argc] = q\<close> through the pointer to the \<open>execcmd\<close> inside the redirections.\<close>

fun add_arg :: "nat \<times> nat \<Rightarrow> cmd \<Rightarrow> cmd" where
  "add_arg a (EXEC as) = EXEC (as @ [a])"
| "add_arg a (REDIR c f m d) = REDIR (add_arg a c) f m d"
| "add_arg a c = c"

text \<open>The loop of \<open>parseexec\<close>, bounded by the room left in \<open>argv\<close>.\<close>

fun parseargs :: "nat \<Rightarrow> string \<Rightarrow> cmd \<Rightarrow> nat \<Rightarrow> nat \<Rightarrow> nat \<Rightarrow> (cmd \<times> nat) res" where
  "parseargs room buf ret argc ps es =
     (let (stop, ps1) = peek buf ps es ''|)&;'' in
      if stop then Ok (ret, ps1)
      else
        let (tok, q, eq, ps2) = gettoken buf ps1 es in
        if tok = NUL then Ok (ret, ps2)
        else if tok \<noteq> CHR ''a'' then Panic ''syntax''
        else (case room of
            0 \<Rightarrow> Panic ''too many args''
          | Suc room1 \<Rightarrow>
              if argc + 1 \<ge> MAXARGS then Panic ''too many args''
              else bindr (parseredirs buf (add_arg (q, eq) ret) ps2 es)
                (\<lambda>(ret, ps). parseargs room1 buf ret (argc + 1) ps es)))"

declare parseargs.simps [simp del]

text \<open>The loop \<open>while (peek(ps, es, "&"))\<close> of \<open>parseline\<close>.\<close>

function parseback :: "string \<Rightarrow> cmd \<Rightarrow> nat \<Rightarrow> nat \<Rightarrow> cmd \<times> nat" where
  "parseback buf cmd ps es =
     (let (more, ps1) = peek buf ps es ''&'' in
      if \<not> more then (cmd, ps1)
      else let (_, _, _, ps2) = gettoken buf ps1 es
           in parseback buf (BACK cmd) ps2 es)"
  by pat_completeness auto
termination
proof (relation "measure (\<lambda>(buf, _, ps, _). length buf - ps)")
  fix buf cmd ps es x more ps1 y tok r1 u r2 v ps2
  assume "x = peek buf ps es ''&''" "(more, ps1) = x" "\<not> \<not> more"
    and "y = gettoken buf ps1 es" "(tok, r1) = y" "(u, r2) = r1" "(v, ps2) = r2"
  then have pk: "peek buf ps es ''&'' = (True, ps1)" and g1: "gettoken buf ps1 es = (tok, u, v, ps2)"
    by auto
  show "((buf, BACK cmd, ps2, es), buf, cmd, ps, es) \<in> measure (\<lambda>(buf, _, ps, _). length buf - ps)"
    using symbol_progress [OF pk _ g1] by auto
qed simp

declare parseback.simps [simp del]

text \<open>Sequencing of fallible parsers that may run out of fuel.\<close>

definition bindp :: "('a \<times> nat) res option \<Rightarrow> ('a \<Rightarrow> nat \<Rightarrow> ('b \<times> nat) res option) \<Rightarrow> ('b \<times> nat) res option" where
  "bindp m f = (case m of
      None \<Rightarrow> None
    | Some (Ok (x, ps)) \<Rightarrow> f x ps
    | Some (Panic e) \<Rightarrow> Some (Panic e)
    | Some (Block c) \<Rightarrow> Some (Block c))"

function parseline :: "nat \<Rightarrow> string \<Rightarrow> nat \<Rightarrow> nat \<Rightarrow> (cmd \<times> nat) res option"
and parsepipe :: "nat \<Rightarrow> string \<Rightarrow> nat \<Rightarrow> nat \<Rightarrow> (cmd \<times> nat) res option"
and parseblock :: "nat \<Rightarrow> string \<Rightarrow> nat \<Rightarrow> nat \<Rightarrow> (cmd \<times> nat) res option"
and parseexec :: "nat \<Rightarrow> string \<Rightarrow> nat \<Rightarrow> nat \<Rightarrow> (cmd \<times> nat) res option" where
  "parseline 0 buf ps es = None"
| "parseline (Suc n) buf ps es =
     bindp (parsepipe n buf ps es) (\<lambda>cmd ps.
       let (cmd, ps) = parseback buf cmd ps es;
           (semi, ps) = peek buf ps es '';''
       in if semi then
            let (_, _, _, ps) = gettoken buf ps es
            in bindp (parseline n buf ps es) (\<lambda>right ps. Some (Ok (LIST cmd right, ps)))
          else Some (Ok (cmd, ps)))"
| "parsepipe 0 buf ps es = None"
| "parsepipe (Suc n) buf ps es =
     bindp (parseexec n buf ps es) (\<lambda>cmd ps.
       let (bar, ps) = peek buf ps es ''|''
       in if bar then
            let (_, _, _, ps) = gettoken buf ps es
            in bindp (parsepipe n buf ps es) (\<lambda>right ps. Some (Ok (PIPE cmd right, ps)))
          else Some (Ok (cmd, ps)))"
| "parseblock 0 buf ps es = None"
| "parseblock (Suc n) buf ps es =
     (let (paren, ps) = peek buf ps es ''('' in
      if \<not> paren then Some (Panic ''parseblock'')
      else
        let (_, _, _, ps) = gettoken buf ps es in
        bindp (parseline n buf ps es) (\<lambda>cmd ps.
          let (close, ps) = peek buf ps es '')'' in
          if \<not> close then Some (Panic ''syntax - missing )'')
          else let (_, _, _, ps) = gettoken buf ps es in Some (parseredirs buf cmd ps es)))"
| "parseexec 0 buf ps es = None"
| "parseexec (Suc n) buf ps es =
     (let (paren, ps) = peek buf ps es ''('' in
      if paren then parseblock n buf ps es
      else Some (bindr (parseredirs buf (EXEC []) ps es) (\<lambda>(ret, ps). parseargs MAXARGS buf ret 0 ps es)))"
  apply pat_completeness
  apply (simp_all only: sum.inject sum.distinct prod.inject nat.inject nat.distinct simp_thms)
  done
termination
  by (relation "measure (case_sum (case_sum fst fst) (case_sum fst fst))") auto

text \<open>\<open>nulterminate\<close>: the offsets at which it stores a NUL, in order.\<close>

primrec nulterminate :: "cmd \<Rightarrow> nat list" where
  "nulterminate (EXEC as) = map snd as"
| "nulterminate (REDIR c f m d) = nulterminate c @ [snd f]"
| "nulterminate (PIPE l r) = nulterminate l @ nulterminate r"
| "nulterminate (LIST l r) = nulterminate l @ nulterminate r"
| "nulterminate (BACK c) = nulterminate c"

definition put_nuls :: "nat list \<Rightarrow> string \<Rightarrow> string" where
  "put_nuls is buf = fold (\<lambda>i b. b[i := NUL]) is buf"

definition line_fuel :: "nat \<Rightarrow> nat" where "line_fuel n = 4 * n + 4"

text \<open>\<open>parsecmd\<close>: the tree and the line, its final NUL included, after \<open>nulterminate\<close>.\<close>

definition parsecmd :: "string \<Rightarrow> (cmd \<times> string) res option" where
  "parsecmd s =
     (let es = length s in
      case parseline (line_fuel es) s 0 es of
        None \<Rightarrow> None
      | Some (Panic e) \<Rightarrow> Some (Panic e)
      | Some (Block c) \<Rightarrow> Some (Block c)
      | Some (Ok (cmd, ps)) \<Rightarrow>
          let (_, ps) = peek s ps es ''''
          in if ps \<noteq> es then Some (Panic ''syntax'')
             else Some (Ok (cmd, put_nuls (nulterminate cmd) (s @ [NUL]))))"

definition is_word :: "char \<Rightarrow> bool" where
  "is_word x \<longleftrightarrow> \<not> is_ws x \<and> \<not> is_sym x"

section \<open>The strings of a command\<close>

primrec strs :: "cmd \<Rightarrow> (nat \<times> nat) set" where
  "strs (EXEC as) = set as"
| "strs (REDIR c f m d) = insert f (strs c)"
| "strs (PIPE l r) = strs l \<union> strs r"
| "strs (LIST l r) = strs l \<union> strs r"
| "strs (BACK c) = strs c"

primrec args_ok :: "cmd \<Rightarrow> bool" where
  "args_ok (EXEC as) = (length as < MAXARGS)"
| "args_ok (REDIR c f m d) = args_ok c"
| "args_ok (PIPE l r) = (args_ok l \<and> args_ok r)"
| "args_ok (LIST l r) = (args_ok l \<and> args_ok r)"
| "args_ok (BACK c) = args_ok c"

text \<open>An \<open>execcmd\<close> under redirections, with its number of arguments.\<close>

primrec argc_of :: "cmd \<Rightarrow> nat option" where
  "argc_of (EXEC as) = Some (length as)"
| "argc_of (REDIR c f m d) = argc_of c"
| "argc_of (PIPE l r) = None"
| "argc_of (LIST l r) = None"
| "argc_of (BACK c) = None"

lemma argc_of_args_ok: "argc_of c = Some k \<Longrightarrow> k < MAXARGS \<Longrightarrow> args_ok c"
  by (induction c) auto

lemma argc_of_add_arg [simp]: "argc_of (add_arg a c) = map_option Suc (argc_of c)"
  by (induction a c rule: add_arg.induct) auto

lemma strs_add_arg: "strs (add_arg a c) \<subseteq> insert a (strs c)"
  by (induction a c rule: add_arg.induct) auto

text \<open>Starts with a character of a word and ends before one that is not, or at the end of the line.\<close>

definition word_at :: "string \<Rightarrow> nat \<times> nat \<Rightarrow> bool" where
  "word_at buf x \<longleftrightarrow>
     is_word (at buf (fst x)) \<and> (snd x < length buf \<longrightarrow> \<not> is_word (at buf (snd x)))"

lemma gettoken_word:
  assumes g: "gettoken buf ps es = (CHR ''a'', q, eq, ps1)" and ps: "ps \<le> es" and es: "es = length buf"
  shows "word_at buf (q, eq)"
proof -
  have q: "q = skip is_ws buf ps es" and e: "eq = skip is_word buf q es"
    and c: "at buf q \<noteq> NUL" "at buf q \<notin> set ''|();&<''" "at buf q \<noteq> CHR ''>''"
    using g by (auto simp: gettoken_def Let_def NUL_def is_word_def [abs_def] split: if_splits)
  have lt: "q < es" using at_neq_NUL [OF c(1)] es by simp
  then have "\<not> is_ws (at buf q)" using skip_stop [OF ps, of is_ws buf] q by simp
  moreover have "\<not> is_sym (at buf q)"
    using c by (auto simp: is_sym_def symbols_def split: if_splits)
  moreover have "eq < es \<Longrightarrow> \<not> is_word (at buf eq)"
    using skip_stop [of q es is_word buf] lt e by simp
  ultimately show ?thesis by (simp add: word_at_def is_word_def es)
qed

text \<open>Non-empty, inside \<open>[lo, hi]\<close>, and apart from each other.\<close>

definition spans :: "string \<Rightarrow> nat \<Rightarrow> nat \<Rightarrow> (nat \<times> nat) set \<Rightarrow> bool" where
  "spans buf lo hi S \<longleftrightarrow>
     (\<forall>x \<in> S. lo \<le> fst x \<and> fst x < snd x \<and> snd x \<le> hi) \<and>
     (\<forall>x \<in> S. \<forall>y \<in> S. x = y \<or> snd x \<le> fst y \<or> snd y \<le> fst x) \<and>
     (\<forall>x \<in> S. word_at buf x)"

lemma spans_empty [simp]: "spans buf lo hi {}"
  by (simp add: spans_def)

lemma spans_mono: "spans buf lo hi S \<Longrightarrow> T \<subseteq> S \<Longrightarrow> lo' \<le> lo \<Longrightarrow> hi \<le> hi' \<Longrightarrow> spans buf lo' hi' T"
  unfolding spans_def by (meson order_trans subsetD)

lemma spans_Un:
  assumes "spans buf lo m S" "spans buf m' hi T" "m \<le> m'" "lo \<le> m'" "m \<le> hi"
  shows "spans buf lo hi (S \<union> T)"
  using assms unfolding spans_def by (simp add: ball_Un) (meson order_trans)

lemma spans_insert:
  assumes "spans buf lo m S" "m \<le> q" "lo \<le> m" "q < e" "e \<le> hi" "word_at buf (q, e)"
  shows "spans buf lo hi (insert (q, e) S)"
  using spans_Un [of buf lo m S q hi "{(q, e)}"] assms by (simp add: spans_def)

section \<open>What the parsers return\<close>

definition parsed :: "string \<Rightarrow> nat \<Rightarrow> nat \<Rightarrow> cmd \<times> nat \<Rightarrow> bool" where
  "parsed buf lo es r \<longleftrightarrow> lo \<le> snd r \<and> snd r \<le> es \<and> spans buf lo (snd r) (strs (fst r)) \<and> args_ok (fst r)"

lemma parseredirs_keeps:
  assumes es: "es = length buf"
  shows "parseredirs buf c ps es = Ok (c1, ps1) \<Longrightarrow> ps \<le> es \<Longrightarrow> lo \<le> ps \<Longrightarrow> spans buf lo ps (strs c) \<Longrightarrow>
     ps \<le> ps1 \<and> ps1 \<le> es \<and> spans buf lo ps1 (strs c1) \<and> argc_of c1 = argc_of c \<and> args_ok c1 = args_ok c"
  using es
proof (induction buf c ps es rule: parseredirs.induct)
  case (1 buf c ps es)
  obtain b pa where pk: "peek buf ps es ''<>'' = (b, pa)" by force
  note pb = peek_bounds [OF pk 1(3)]
  show ?case
  proof (cases b)
    case False
    then show ?thesis
      using 1(2) pk pb spans_mono [OF 1(5) subset_refl order_refl]
      by (subst (asm) parseredirs.simps) simp
  next
    case True
    obtain tok x y pb' where g1: "gettoken buf pa es = (tok, x, y, pb')" by (metis prod.exhaust)
    obtain a q e pc where g2: "gettoken buf pb' es = (a, q, e, pc)" by (metis prod.exhaust)
    have pkT: "peek buf ps es ''<>'' = (True, pa)" using pk True by simp
    note t1 = gettoken_after_peek [OF pkT g1 1(3) 1(6)]
    note t2 = gettoken_bounds [OF g2 t1(2) 1(6)]
    have a: "a = CHR ''a''"
      using 1(2) pk True g1 g2 by (subst (asm) parseredirs.simps) (simp split: if_splits)
    have lt: "q < e" using t2(5) a by (simp add: NUL_def)
    have w: "word_at buf (q, e)" using gettoken_word [OF g2 [unfolded a] t1(2) 1(6)] .
    define c' where "c' =
            (if tok = CHR ''<'' then REDIR c (q, e) O_RDONLY 0
             else if tok = CHR ''>'' then REDIR c (q, e) (O_WRONLY OR O_CREATE OR O_TRUNC) 1
             else if tok = CHR ''+'' then REDIR c (q, e) (O_WRONLY OR O_CREATE) 1
             else c)"
    have "parseredirs buf c ps es = parseredirs buf c' pc es"
      using pk True g1 g2 a
      by (subst parseredirs.simps) (simp add: c'_def del: One_nat_def)
    moreover have "strs c' \<subseteq> insert (q, e) (strs c)" "argc_of c' = argc_of c" "args_ok c' = args_ok c"
      by (auto simp: c'_def)
    moreover have "spans buf lo pc (insert (q, e) (strs c))"
      using spans_insert [OF 1(5), of q e pc] w lt pb(1) t1 t2 1(4) by linarith
    moreover have "ps \<le> pc" using pb(1) t1 t2 by linarith
    ultimately show ?thesis
      using 1(1) [OF pk [symmetric] refl _ g1 [symmetric] refl refl refl g2 [symmetric] refl refl refl _ c'_def]
        True a 1(2,4,6) t2 spans_mono [of buf lo pc "insert (q, e) (strs c)" "strs c'" lo pc]
      by simp
  qed
qed

lemma parseargs_keeps:
  assumes es: "es = length buf"
  shows "parseargs room buf c k ps es = Ok (c1, ps1) \<Longrightarrow> ps \<le> es \<Longrightarrow> lo \<le> ps \<Longrightarrow> spans buf lo ps (strs c) \<Longrightarrow>
     argc_of c = Some k \<Longrightarrow> k < MAXARGS \<Longrightarrow> ps \<le> ps1 \<and> parsed buf lo es (c1, ps1)"
proof (induction room arbitrary: c k ps)
  case (0 c k ps)
  obtain b pa where pk: "peek buf ps es ''|)&;'' = (b, pa)" by force
  obtain tok q e pb where g: "gettoken buf pa es = (tok, q, e, pb)" by (metis prod.exhaust)
  note pb = peek_bounds [OF pk 0(2)]
  note tb = gettoken_bounds [OF g pb(2) es]
  from 0(1) pk g have "c1 = c" "ps1 = pa \<or> ps1 = pb"
    by (subst (asm) parseargs.simps, simp split: if_splits)+
  then show ?case
    using pb tb 0 spans_mono [OF 0(4) subset_refl order_refl, of ps1] argc_of_args_ok [OF 0(5,6)]
    by (auto simp: parsed_def)
next
  case (Suc room c k ps)
  obtain b pa where pk: "peek buf ps es ''|)&;'' = (b, pa)" by force
  obtain tok q e pb where g: "gettoken buf pa es = (tok, q, e, pb)" by (metis prod.exhaust)
  note pb = peek_bounds [OF pk Suc(3)]
  note tb = gettoken_bounds [OF g pb(2) es]
  show ?case
  proof (cases "b \<or> tok = NUL")
    case True
    with Suc(2) pk g have "c1 = c" "ps1 = pa \<or> ps1 = pb"
      by (subst (asm) parseargs.simps, auto split: if_splits)+
    then show ?thesis
      using pb tb Suc.prems spans_mono [OF Suc(5) subset_refl order_refl, of ps1] argc_of_args_ok [OF Suc(6,7)]
      by (auto simp: parsed_def)
  next
    case False
    with Suc(2) pk g obtain c2 ps2 where r: "parseredirs buf (add_arg (q, e) c) pb es = Ok (c2, ps2)"
      and rec: "parseargs room buf c2 (Suc k) ps2 es = Ok (c1, ps1)" and k: "Suc k < MAXARGS"
      and tok: "tok = CHR ''a''"
      by (subst (asm) parseargs.simps) (auto split: if_splits)
    have "spans buf lo pb (insert (q, e) (strs c))"
      using spans_insert [OF Suc(5), of q e pb] gettoken_word [OF g [unfolded tok] pb(2) es] tb False pb Suc(4)
      by linarith
    then have "spans buf lo pb (strs (add_arg (q, e) c))"
      using strs_add_arg by (rule spans_mono) simp_all
    from parseredirs_keeps [OF es r _ _ this] tb pb Suc(4)
    have k2: "pb \<le> ps2" "ps2 \<le> es" "spans buf lo ps2 (strs c2)" "argc_of c2 = Some (Suc k)"
      using Suc(6) by auto
    show ?thesis
      using Suc.IH [OF rec k2(2) _ k2(3) k2(4) k] k2(1) tb pb Suc(4) by linarith
  qed
qed

lemma parseback_keeps:
  assumes es: "es = length buf"
  shows "parseback buf c ps es = (c1, ps1) \<Longrightarrow> ps \<le> es \<Longrightarrow> ps \<le> ps1 \<and> ps1 \<le> es \<and> strs c1 = strs c \<and> args_ok c1 = args_ok c"
  using es
proof (induction buf c ps es rule: parseback.induct)
  case (1 buf c ps es)
  obtain b pa where pk: "peek buf ps es ''&'' = (b, pa)" by force
  note pb = peek_bounds [OF pk 1(3)]
  show ?case
  proof (cases b)
    case False
    then show ?thesis using 1(2) pk pb by (subst (asm) parseback.simps) simp
  next
    case True
    obtain tok x y pb' where g: "gettoken buf pa es = (tok, x, y, pb')" by (metis prod.exhaust)
    have pkT: "peek buf ps es ''&'' = (True, pa)" using pk True by simp
    note t1 = gettoken_after_peek [OF pkT g 1(3) 1(4)]
    have "parseback buf c ps es = parseback buf (BACK c) pb' es"
      using pk True g by (subst parseback.simps) simp
    then show ?thesis
      using 1(1) [OF pk [symmetric] refl _ g [symmetric] refl refl refl] True 1(2,4) t1 pb(1) by simp
  qed
qed

text \<open>What every parser promises of a result, and the rule for sequencing.\<close>

definition keeps :: "string \<Rightarrow> nat \<Rightarrow> nat \<Rightarrow> (cmd \<times> nat) res option \<Rightarrow> bool" where
  "keeps buf lo es r = (\<forall>x. r = Some (Ok x) \<longrightarrow> parsed buf lo es x)"

lemma keeps_simps [simp]:
  "keeps buf lo es None" "keeps buf lo es (Some (Panic e))" "keeps buf lo es (Some (Ok x)) = parsed buf lo es x"
  by (simp_all add: keeps_def)

lemma keeps_bindp:
  assumes "keeps buf lo es m" and "\<And>c ps. m = Some (Ok (c, ps)) \<Longrightarrow> parsed buf lo es (c, ps) \<Longrightarrow> keeps buf lo' es (f c ps)"
  shows "keeps buf lo' es (bindp m f)"
  using assms by (cases m) (auto simp: bindp_def keeps_def split: res.splits)

lemma parsed_node:
  assumes "parsed buf lo es (l, a)" "parsed buf b es (r, d)" "a \<le> b" "strs c = strs l \<union> strs r"
    "args_ok c \<longleftrightarrow> args_ok l \<and> args_ok r"
  shows "parsed buf lo es (c, d)"
proof -
  have "spans buf lo d (strs l \<union> strs r)"
    using assms unfolding parsed_def by (intro spans_Un [of buf lo a _ b]) auto
  with assms show ?thesis unfolding parsed_def by auto
qed

lemma parsed_shift: "parsed buf a es (c, b) \<Longrightarrow> lo \<le> a \<Longrightarrow> b \<le> d \<Longrightarrow> d \<le> es \<Longrightarrow> parsed buf lo es (c, d)"
  unfolding parsed_def by (auto intro: spans_mono)

lemma parsers_keep:
  assumes es: "es = length buf"
  shows "ps \<le> es \<longrightarrow> keeps buf ps es (parseline n buf ps es) \<and> keeps buf ps es (parsepipe n buf ps es) \<and>
     keeps buf ps es (parseblock n buf ps es) \<and> keeps buf ps es (parseexec n buf ps es)"
proof (induction n arbitrary: ps)
  case (Suc n)
  show ?case
  proof (intro impI conjI)
    assume ps: "ps \<le> es"
    note IH = Suc.IH [rule_format]
    show "keeps buf ps es (parseline (Suc n) buf ps es)"
      unfolding parseline.simps
    proof (rule keeps_bindp, rule IH [OF ps, THEN conjunct2, THEN conjunct1])
      fix c p1 assume p1: "parsed buf ps es (c, p1)"
      obtain c2 p2 where b: "parseback buf c p1 es = (c2, p2)" by force
      obtain t p3 where pk: "peek buf p2 es '';'' = (t, p3)" by force
      obtain tok x y p4 where g: "gettoken buf p3 es = (tok, x, y, p4)" by (metis prod.exhaust)
      have p1e: "p1 \<le> es" using p1 by (simp add: parsed_def)
      note kb = parseback_keeps [OF es b p1e]
      have p2e: "p2 \<le> es" using kb by simp
      note kp = peek_bounds [OF pk p2e]
      note kg = gettoken_bounds [OF g kp(2) es]
      have c2: "parsed buf ps es (c2, p2)" using p1 kb by (auto simp: parsed_def intro: spans_mono)
      have left: "parsed buf ps es (c2, p3)"
        using parsed_shift [OF c2 order_refl kp(1,2)] .
      have "keeps buf ps es (bindp (parseline n buf p4 es) (\<lambda>right ps. Some (Ok (LIST c2 right, ps))))"
        by (rule keeps_bindp, rule IH [OF kg(4), THEN conjunct1])
          (use kg in \<open>auto intro: parsed_node [OF left]\<close>)
      then show "keeps buf ps es (let (cmd, ps) = parseback buf c p1 es; (semi, ps) = peek buf ps es '';''
         in if semi then let (_, _, _, ps) = gettoken buf ps es
            in bindp (parseline n buf ps es) (\<lambda>right ps. Some (Ok (LIST cmd right, ps)))
          else Some (Ok (cmd, ps)))"
        using left by (simp add: b pk g)
    qed
    show "keeps buf ps es (parsepipe (Suc n) buf ps es)"
      unfolding parsepipe.simps
    proof (rule keeps_bindp, rule IH [OF ps, THEN conjunct2, THEN conjunct2, THEN conjunct2])
      fix c p1 assume p1: "parsed buf ps es (c, p1)"
      obtain t p3 where pk: "peek buf p1 es ''|'' = (t, p3)" by force
      obtain tok x y p4 where g: "gettoken buf p3 es = (tok, x, y, p4)" by (metis prod.exhaust)
      have p1e: "p1 \<le> es" using p1 by (simp add: parsed_def)
      note kp = peek_bounds [OF pk p1e]
      note kg = gettoken_bounds [OF g kp(2) es]
      note left = parsed_shift [OF p1 order_refl kp(1,2)]
      have "keeps buf ps es (bindp (parsepipe n buf p4 es) (\<lambda>right ps. Some (Ok (PIPE c right, ps))))"
        by (rule keeps_bindp, rule IH [OF kg(4), THEN conjunct2, THEN conjunct1])
          (use kg in \<open>auto intro: parsed_node [OF left]\<close>)
      then show "keeps buf ps es (let (bar, ps) = peek buf p1 es ''|''
         in if bar then let (_, _, _, ps) = gettoken buf ps es
            in bindp (parsepipe n buf ps es) (\<lambda>right ps. Some (Ok (PIPE c right, ps)))
          else Some (Ok (c, ps)))"
        using left by (simp add: pk g)
    qed
    obtain t p1 where pk: "peek buf ps es ''('' = (t, p1)" by force
    note kp = peek_bounds [OF pk ps]
    obtain tok x y p2 where g: "gettoken buf p1 es = (tok, x, y, p2)" by (metis prod.exhaust)
    note kg = gettoken_bounds [OF g kp(2) es]
    show "keeps buf ps es (parseblock (Suc n) buf ps es)"
    proof (cases t)
      case True
      have "keeps buf ps es (bindp (parseline n buf p2 es) (\<lambda>cmd ps.
          let (close, ps) = peek buf ps es '')'' in
          if \<not> close then Some (Panic ''syntax - missing )'')
          else let (_, _, _, ps) = gettoken buf ps es in Some (parseredirs buf cmd ps es)))"
      proof (rule keeps_bindp, rule IH [OF kg(4), THEN conjunct1])
        fix c p3 assume p3: "parsed buf p2 es (c, p3)"
        obtain u p4 where pk2: "peek buf p3 es '')'' = (u, p4)" by force
        obtain tok2 x2 y2 p5 where g2: "gettoken buf p4 es = (tok2, x2, y2, p5)" by (metis prod.exhaust)
        have p3e: "p3 \<le> es" using p3 by (simp add: parsed_def)
        note kp2 = peek_bounds [OF pk2 p3e]
        note kg2 = gettoken_bounds [OF g2 kp2(2) es]
        have c5: "parsed buf ps es (c, p5)"
          using parsed_shift [OF p3, of ps p5] kg kp kg2 kp2 by linarith
        have "parsed buf ps es (c1, ps1)" if "parseredirs buf c p5 es = Ok (c1, ps1)" for c1 ps1
          using parseredirs_keeps [OF es that, of ps] c5 by (auto simp: parsed_def)
        then show "keeps buf ps es (let (close, ps) = peek buf p3 es '')'' in
          if \<not> close then Some (Panic ''syntax - missing )'')
          else let (_, _, _, ps) = gettoken buf ps es in Some (parseredirs buf c ps es))"
          by (auto simp: pk2 g2 keeps_def)
      qed
      then show ?thesis using True by (simp add: pk g)
    qed (simp add: pk)
    have "parsed buf ps es (c2, p3)"
      if "parseredirs buf (EXEC []) p1 es = Ok (c1, p2)" "parseargs MAXARGS buf c1 0 p2 es = Ok (c2, p3)"
      for c1 p2 c2 p3
    proof -
      from parseredirs_keeps [OF es that(1) kp(2) order_refl]
      have r: "p1 \<le> p2" "p2 \<le> es" "spans buf p1 p2 (strs c1)" "argc_of c1 = Some 0"
        by simp_all
      have "0 < MAXARGS" by (simp add: MAXARGS_def)
      from parseargs_keeps [OF es that(2) r(2) r(1) r(3) r(4) this]
      show ?thesis using parsed_shift [of buf p1 es c2 p3 ps p3] kp by (auto simp: parsed_def)
    qed
    moreover have "keeps buf ps es (parseblock n buf p1 es)"
      using IH [OF kp(2)] kp(1) by (auto simp: keeps_def intro: parsed_shift simp: parsed_def intro: spans_mono)
    ultimately show "keeps buf ps es (parseexec (Suc n) buf ps es)"
      by (auto simp: pk keeps_def)
  qed
qed simp

lemma bindp_Some: "m \<noteq> None \<Longrightarrow> bindp m (\<lambda>c ps. Some (f c ps)) \<noteq> None"
  by (cases m) (auto simp: bindp_def split: res.splits)

text \<open>Enough fuel: every round of the four parsers consumes a character.\<close>

lemma bindp_total: "m \<noteq> None \<Longrightarrow> (\<And>c ps. m = Some (Ok (c, ps)) \<Longrightarrow> f c ps \<noteq> None) \<Longrightarrow> bindp m f \<noteq> None"
  by (cases m) (auto simp: bindp_def split: res.splits)

lemma parsers_total:
  assumes es: "es = length buf"
  shows "ps \<le> es \<longrightarrow> (4 * (es - ps) + 3 \<le> n \<longrightarrow> parseline n buf ps es \<noteq> None) \<and>
     (4 * (es - ps) + 2 \<le> n \<longrightarrow> parsepipe n buf ps es \<noteq> None) \<and>
     (4 * (es - ps) \<le> n \<and> 0 < n \<longrightarrow> parseblock n buf ps es \<noteq> None) \<and>
     (4 * (es - ps) + 1 \<le> n \<longrightarrow> parseexec n buf ps es \<noteq> None)"
proof (induction n arbitrary: ps)
  case (Suc n)
  have k: "parsed buf ps es (c, p)" if "ps \<le> es" "r = Some (Ok (c, p))"
    "r \<in> {parseline n buf ps es, parsepipe n buf ps es, parseblock n buf ps es, parseexec n buf ps es}" for r c p ps
    using parsers_keep [OF es, of ps n] that by (auto simp: keeps_def)
  note IH = Suc.IH [rule_format]
  show ?case
  proof (intro impI conjI)
    assume ps: "ps \<le> es"
    show "parseline (Suc n) buf ps es \<noteq> None" if n: "4 * (es - ps) + 3 \<le> Suc n"
      unfolding parseline.simps
    proof (rule bindp_total)
      show "parsepipe n buf ps es \<noteq> None" using IH [OF ps] n by simp
      fix c p1 assume "parsepipe n buf ps es = Some (Ok (c, p1))"
      then have p1: "ps \<le> p1" "p1 \<le> es" using k [OF ps] by (auto simp: parsed_def)
      obtain c2 p2 where b: "parseback buf c p1 es = (c2, p2)" by force
      obtain t p3 where pk: "peek buf p2 es '';'' = (t, p3)" by force
      obtain tok x y p4 where g: "gettoken buf p3 es = (tok, x, y, p4)" by (metis prod.exhaust)
      note kb = parseback_keeps [OF es b p1(2)]
      have p2e: "p2 \<le> es" using kb by simp
      have "parseline n buf p4 es \<noteq> None" if t
      proof -
        have "peek buf p2 es '';'' = (True, p3)" using pk that by simp
        from gettoken_after_peek [OF this g p2e es] peek_bounds [OF pk p2e]
        have "ps < p4" "p4 \<le> es" using kb p1 by linarith+
        then show ?thesis using IH [of p4] n by (auto simp: diff_le_mono2)
      qed
      then show "(let (cmd, ps) = parseback buf c p1 es; (semi, ps) = peek buf ps es '';''
         in if semi then let (_, _, _, ps) = gettoken buf ps es
            in bindp (parseline n buf ps es) (\<lambda>right ps. Some (Ok (LIST cmd right, ps)))
          else Some (Ok (cmd, ps))) \<noteq> None"
        using bindp_Some [of "parseline n buf p4 es" "\<lambda>right ps. Ok (LIST c2 right, ps)"]
        by (auto simp: b pk g)
    qed
    show "parsepipe (Suc n) buf ps es \<noteq> None" if n: "4 * (es - ps) + 2 \<le> Suc n"
      unfolding parsepipe.simps
    proof (rule bindp_total)
      show "parseexec n buf ps es \<noteq> None" using IH [OF ps] n by simp
      fix c p1 assume "parseexec n buf ps es = Some (Ok (c, p1))"
      then have p1: "ps \<le> p1" "p1 \<le> es" using k [OF ps] by (auto simp: parsed_def)
      obtain t p3 where pk: "peek buf p1 es ''|'' = (t, p3)" by force
      obtain tok x y p4 where g: "gettoken buf p3 es = (tok, x, y, p4)" by (metis prod.exhaust)
      have "parsepipe n buf p4 es \<noteq> None" if t
      proof -
        have "peek buf p1 es ''|'' = (True, p3)" using pk that by simp
        from gettoken_after_peek [OF this g p1(2) es] peek_bounds [OF pk p1(2)]
        have "ps < p4" "p4 \<le> es" using p1 by linarith+
        then show ?thesis using IH [of p4] n by auto
      qed
      then show "(let (bar, ps) = peek buf p1 es ''|''
         in if bar then let (_, _, _, ps) = gettoken buf ps es
            in bindp (parsepipe n buf ps es) (\<lambda>right ps. Some (Ok (PIPE c right, ps)))
          else Some (Ok (c, ps))) \<noteq> None"
        using bindp_Some [of "parsepipe n buf p4 es" "\<lambda>right ps. Ok (PIPE c right, ps)"]
        by (auto simp: pk g)
    qed
    obtain t p1 where pk: "peek buf ps es ''('' = (t, p1)" by force
    obtain tok x y p2 where g: "gettoken buf p1 es = (tok, x, y, p2)" by (metis prod.exhaust)
    note kp = peek_bounds [OF pk ps]
    show "parseblock (Suc n) buf ps es \<noteq> None" if n: "4 * (es - ps) \<le> Suc n \<and> 0 < Suc n"
    proof (cases t)
      case True
      then have "peek buf ps es ''('' = (True, p1)" using pk by simp
      from gettoken_after_peek [OF this g ps es] kp have "ps < p2" "p2 \<le> es" by linarith+
      then have "parseline n buf p2 es \<noteq> None" using IH [of p2] n by auto
      then show ?thesis
        using True
        by (cases "parseline n buf p2 es") (auto simp: pk g bindp_def split: res.splits prod.splits)
    qed (simp add: pk)
    show "parseexec (Suc n) buf ps es \<noteq> None" if n: "4 * (es - ps) + 1 \<le> Suc n"
    proof (cases t)
      case True
      then have "p1 < es" using kp es by simp
      then have "parseblock n buf p1 es \<noteq> None" using IH [of p1] n kp by auto
      then show ?thesis using True by (simp add: pk)
    qed (simp add: pk)
  qed
qed simp

section \<open>Results\<close>

lemma parsecmd_OkD:
  assumes "parsecmd s = Some (Ok (c, b))"
  shows "spans s 0 (length s) (strs c)" and "args_ok c" and "b = put_nuls (nulterminate c) (s @ [NUL])"
proof -
  from assms obtain ps where l: "parseline (line_fuel (length s)) s 0 (length s) = Some (Ok (c, ps))"
    and b: "b = put_nuls (nulterminate c) (s @ [NUL])"
    by (auto simp: parsecmd_def Let_def split: option.splits res.splits prod.splits if_splits)
  then have "parsed s 0 (length s) (c, ps)"
    using parsers_keep [of "length s" s 0 "line_fuel (length s)"] by (auto simp: keeps_def)
  then show "spans s 0 (length s) (strs c)" "args_ok c"
    by (auto simp: parsed_def intro: spans_mono)
  show "b = put_nuls (nulterminate c) (s @ [NUL])" by (rule b)
qed

lemma nulterminate_strs: "set (nulterminate c) = snd ` strs c"
  by (induction c) auto

lemma put_nuls_nth:
  "length (put_nuls is b) = length b \<and>
   (i < length b \<longrightarrow> put_nuls is b ! i = (if i \<in> set is then NUL else b ! i))"
  unfolding put_nuls_def by (induction "is" arbitrary: b) (auto simp: nth_list_update)

text \<open>The C string at offset \<open>q\<close>.\<close>

definition cstr_at :: "string \<Rightarrow> nat \<Rightarrow> string" where
  "cstr_at b q = takeWhile (\<lambda>x. x \<noteq> NUL) (drop q b)"

lemma cstr_atI:
  assumes "e < length b" "b ! e = NUL" "\<And>i. q \<le> i \<Longrightarrow> i < e \<Longrightarrow> b ! i \<noteq> NUL" "q \<le> e"
  shows "cstr_at b q = take (e - q) (drop q b)"
  unfolding cstr_at_def
  using assms by (intro takeWhile_eq_take_P_nth) (auto simp: nth_append)

text \<open>No parser waits for anything.\<close>

lemma parseredirs_no_block: "parseredirs buf c ps es \<noteq> Block k"
proof (induction buf c ps es rule: parseredirs.induct)
  case (1 buf c ps es)
  obtain b pa where pk: "peek buf ps es ''<>'' = (b, pa)" by force
  obtain tok x y pb where g1: "gettoken buf pa es = (tok, x, y, pb)" by (metis prod.exhaust)
  obtain a q e pc where g2: "gettoken buf pb es = (a, q, e, pc)" by (metis prod.exhaust)
  note IH = 1 [OF pk [symmetric] refl _ g1 [symmetric] refl refl refl g2 [symmetric] refl refl refl _ refl]
  show ?case
    using IH pk g1 g2 by (subst parseredirs.simps) (simp del: One_nat_def)
qed

lemma bindr_no_block:
  "m \<noteq> Block k \<Longrightarrow> (\<And>x. f x \<noteq> Block k) \<Longrightarrow> bindr m f \<noteq> Block k"
  by (cases m) simp_all

lemma parseargs_no_block: "parseargs room buf c n ps es \<noteq> Block k"
proof (induction room arbitrary: c n ps)
  case 0
  show ?case by (subst parseargs.simps) (simp add: split_beta Let_def)
next
  case (Suc room)
  show ?case
    by (subst parseargs.simps) (simp add: split_beta Let_def parseredirs_no_block bindr_no_block Suc)
qed

lemma bindp_no_block:
  "m \<noteq> Some (Block k) \<Longrightarrow> (\<And>x ps. f x ps \<noteq> Some (Block k)) \<Longrightarrow> bindp m f \<noteq> Some (Block k)"
  by (auto simp: bindp_def split: option.splits res.splits)

lemma parsers_no_block:
  "parseline n buf ps es \<noteq> Some (Block k)" "parsepipe n buf ps es \<noteq> Some (Block k)"
  "parseblock n buf ps es \<noteq> Some (Block k)" "parseexec n buf ps es \<noteq> Some (Block k)"
proof (induction n arbitrary: ps)
  case (Suc n)
  {
    case 1
    show ?case unfolding parseline.simps
      by (intro bindp_no_block Suc) (simp add: split_beta Let_def bindp_no_block Suc)
  next
    case 2
    show ?case unfolding parsepipe.simps
      by (intro bindp_no_block Suc) (simp add: split_beta Let_def bindp_no_block Suc)
  next
    case 3
    show ?case unfolding parseblock.simps
      by (simp add: split_beta Let_def bindp_no_block Suc parseredirs_no_block)
  next
    case 4
    show ?case unfolding parseexec.simps
      by (simp add: split_beta Let_def Suc bindr_no_block parseredirs_no_block parseargs_no_block)
  }
qed simp_all

text \<open>
  C35. The parser of the shell terminates on every command line, well-formed or not: each of its
  loops ends, the recursive descent never runs out of the fuel \<open>parsecmd\<close> gives it, and the result
  is either a tree whose words are cut out of the line or one of the parser's own panics.
\<close>

theorem parsecmd_terminates:
  "(\<exists>c b. parsecmd s = Some (Ok (c, b)) \<and> spans s 0 (length s) (strs c) \<and> args_ok c) \<or>
   (\<exists>msg. parsecmd s = Some (Panic msg))"
proof -
  have "parseline (line_fuel (length s)) s 0 (length s) \<noteq> None"
    using parsers_total [of "length s" s 0 "line_fuel (length s)"] by (simp add: line_fuel_def)
  then have "parsecmd s \<noteq> None" "parsecmd s \<noteq> Some (Block k)" for k
    using parsers_no_block(1) [of "line_fuel (length s)" s 0 "length s"]
    by (auto simp: parsecmd_def Let_def split: option.splits res.splits prod.splits if_splits)
  then show ?thesis
    using parsecmd_OkD [of s] by (cases "parsecmd s"; cases "the (parsecmd s)") auto
qed

text \<open>
  C27. After \<open>parsecmd\<close> every argument and file name of the tree is, as a C string of the modified
  line, exactly the token it came from: \<open>nulterminate\<close> ends each string and cuts no other. All
  its stores are inside the line.
\<close>

theorem parsecmd_strings:
  assumes "no_nul s" and "parsecmd s = Some (Ok (c, b))" and "(q, e) \<in> strs c"
  shows "q < e \<and> e \<le> length s \<and> cstr_at b q = take (e - q) (drop q s)"
proof -
  note sp = parsecmd_OkD [OF assms(2)]
  have qe: "q < e" "e \<le> length s"
    using sp(1) assms(3) by (auto simp: spans_def)
  have nth: "b ! i = (if i \<in> snd ` strs c then NUL else (s @ [NUL]) ! i)" if "i \<le> length s" for i
    using put_nuls_nth [of "nulterminate c" "s @ [NUL]" i] that by (simp add: sp(3) nulterminate_strs)
  have len: "length b = Suc (length s)"
    using put_nuls_nth [of "nulterminate c" "s @ [NUL]"] by (simp add: sp(3))
  have inside: "b ! i = s ! i" if "q \<le> i" "i < e" for i
  proof -
    have "i \<notin> snd ` strs c"
    proof
      assume "i \<in> snd ` strs c"
      then obtain x where x: "x \<in> strs c" "snd x = i" by auto
      have "x = (q, e) \<or> snd x \<le> q \<or> e \<le> fst x" and "fst x < snd x"
        and w: "word_at s x" "word_at s (q, e)"
        using sp(1) x(1) assms(3) unfolding spans_def by fastforce+
      moreover have "snd x \<noteq> q" using w qe by (auto simp: word_at_def)
      ultimately show False using x that by auto
    qed
    with nth [of i] that qe show ?thesis by (simp add: nth_append)
  qed
  have "b ! e = NUL" using nth [OF qe(2)] assms(3) by force
  moreover have "b ! i \<noteq> NUL" if "q \<le> i" "i < e" for i
    using inside [OF that] assms(1) that qe by (auto simp: no_nul_def in_set_conv_nth)
  ultimately have "cstr_at b q = take (e - q) (drop q b)"
    using len qe by (intro cstr_atI) auto
  also have "\<dots> = take (e - q) (drop q s)"
    using inside qe len by (intro nth_equalityI) auto
  finally show ?thesis using qe by simp
qed

theorem parsecmd_strings_witness:
  "\<exists>b. parsecmd ''ls<ab'' = Some (Ok (REDIR (EXEC [(0, 2)]) (3, 5) O_RDONLY 0, b)) \<and>
     cstr_at b 0 = ''ls'' \<and> cstr_at b 3 = ''ab''"
proof -
  let ?c = "REDIR (EXEC [(0, 2)]) (3, 5) O_RDONLY 0"
  have p: "parsecmd ''ls<ab'' = Some (Ok (?c, ''ls'' @ [NUL] @ ''ab'' @ [NUL]))"
    by code_simp
  have n: "no_nul ''ls<ab''" by (simp add: no_nul_def NUL_def)
  show ?thesis
    using parsecmd_strings [OF n p, of 0 2] parsecmd_strings [OF n p, of 3 5] p by simp
qed

text \<open>
  No \<open>execcmd\<close> of a parsed s line has \<open>MAXARGS\<close> or more arguments, so the terminating null
  pointer is stored inside \<open>argv\<close>.
\<close>

theorem parsecmd_args_bound:
  "parsecmd s = Some (Ok (c, b)) \<Longrightarrow> args_ok c"
  by (rule parsecmd_OkD)

theorem parsecmd_args_bound_witness:
  "args_ok (EXEC [(0, 2)])"
proof (rule parsecmd_args_bound)
  show "parsecmd ''ls'' = Some (Ok (EXEC [(0, 2)], ''ls'' @ [NUL]))" by code_simp
qed

end
