(* ===== verification/Runcmd.thy ===== *)
theory Runcmd
  imports Shell
begin

text \<open>
  Running a parsed command, \<open>runcmd\<close> and \<open>fork1\<close> of \<open>user/sh.c\<close>. A process is the tree of what it does:
  the processes it forks and waits for, and the program it becomes. The table of open files is
  that of the system calls the shell uses: a new descriptor is the lowest one that is free, and a
  forked child has a copy of the table. Whether \<open>open\<close>, \<open>pipe\<close> and \<open>fork\<close> succeed is an argument.
\<close>

section \<open>Descriptors\<close>

text \<open>A pipe is named by the place of its command in the tree of commands.\<close>

datatype fobj = Inherited nat | Opened "nat \<times> nat" int | PipeR "nat list" | PipeW "nat list"

type_synonym fds = "nat \<Rightarrow> fobj option"

definition FDS :: nat where "FDS = 16"

definition lowest :: "fds \<Rightarrow> nat option" where
  "lowest f = scan (\<lambda>i. f i = None) FDS"

definition u_close :: "nat \<Rightarrow> fds \<Rightarrow> fds" where
  "u_close fd f = f(fd := None)"

definition u_new :: "fobj \<Rightarrow> fds \<Rightarrow> (nat \<times> fds) option" where
  "u_new ob f = (case lowest f of None \<Rightarrow> None | Some fd \<Rightarrow> Some (fd, f(fd := Some ob)))"

text \<open>The result of \<open>dup\<close> is not looked at, so a failing one leaves the table as it is.\<close>

definition u_dup :: "nat \<Rightarrow> fds \<Rightarrow> fds" where
  "u_dup fd f = (case f fd of None \<Rightarrow> f | Some ob \<Rightarrow> (case u_new ob f of None \<Rightarrow> f | Some (_, f) \<Rightarrow> f))"

definition u_pipe :: "nat list \<Rightarrow> fds \<Rightarrow> (nat \<times> nat \<times> fds) option" where
  "u_pipe n f =
     (case u_new (PipeR n) f of
        None \<Rightarrow> None
      | Some (p0, f) \<Rightarrow> (case u_new (PipeW n) f of None \<Rightarrow> None | Some (p1, f) \<Rightarrow> Some (p0, p1, f)))"

section \<open>Running a command\<close>

record env =
  e_open :: "nat \<times> nat \<Rightarrow> int \<Rightarrow> bool"
  e_pipe :: "nat list \<Rightarrow> bool"
  e_fork :: "nat list \<Rightarrow> bool"

datatype ptree =
    Exit int
  | Execs "(nat \<times> nat) list" fds   \<comment> \<open>\<open>exec\<close>; if it fails, a message and \<open>exit(0)\<close>\<close>
  | Forks ptree ptree              \<comment> \<open>the child, and how the parent goes on\<close>
  | Waits fds ptree                \<comment> \<open>\<open>wait(0)\<close>, with the files the parent has open meanwhile\<close>

text \<open>\<open>fork1\<close> exits through \<open>panic\<close> if there is no new process.\<close>

definition fork1 :: "env \<Rightarrow> nat list \<Rightarrow> ptree \<Rightarrow> ptree \<Rightarrow> ptree" where
  "fork1 e n child parent = (if e_fork e n then Forks child parent else Exit 1)"

primrec runcmd :: "env \<Rightarrow> cmd \<Rightarrow> nat list \<Rightarrow> fds \<Rightarrow> ptree" where
  "runcmd e (EXEC argv) n f = (if argv = [] then Exit 1 else Execs argv f)"
| "runcmd e (REDIR c fname mode fd) n f =
     (let f = u_close (nat fd) f in
      if \<not> e_open e fname mode then Exit 1
      else case u_new (Opened fname mode) f of None \<Rightarrow> Exit 1 | Some (_, f) \<Rightarrow> runcmd e c n f)"
| "runcmd e (LIST l r) n f = fork1 e n (runcmd e l (0 # n) f) (Waits f (runcmd e r (1 # n) f))"
| "runcmd e (PIPE l r) n f =
     (if \<not> e_pipe e n then Exit 1
      else
        case u_pipe n f of
          None \<Rightarrow> Exit 1
        | Some (p0, p1, f) \<Rightarrow>
            fork1 e (0 # n) (runcmd e l (0 # n) (u_close p1 (u_close p0 (u_dup p1 (u_close 1 f)))))
              (fork1 e (1 # n) (runcmd e r (1 # n) (u_close p1 (u_close p0 (u_dup p0 (u_close 0 f)))))
                (let f = u_close p1 (u_close p0 f) in Waits f (Waits f (Exit 0)))))"
| "runcmd e (BACK c) n f = fork1 e n (runcmd e c (0 # n) f) (Exit 0)"

section \<open>Results\<close>

text \<open>The programs that are run, with their arguments and open files.\<close>

primrec leaves :: "ptree \<Rightarrow> ((nat \<times> nat) list \<times> fds) set" where
  "leaves (Exit x) = {}"
| "leaves (Execs argv f) = {(argv, f)}"
| "leaves (Forks c p) = leaves c \<union> leaves p"
| "leaves (Waits f p) = leaves p"

text \<open>What a process itself has open whenever it waits for a child.\<close>

primrec waiting_files :: "ptree \<Rightarrow> fds set" where
  "waiting_files (Exit x) = {}"
| "waiting_files (Execs argv f) = {}"
| "waiting_files (Forks c p) = waiting_files p"
| "waiting_files (Waits f p) = insert f (waiting_files p)"

definition open3 :: "fds \<Rightarrow> bool" where
  "open3 f \<longleftrightarrow> (\<forall>fd<3. f fd \<noteq> None)"

text \<open>Redirections are those of the parser, of standard input and output.\<close>

primrec std_redirs :: "cmd \<Rightarrow> bool" where
  "std_redirs (EXEC argv) = True"
| "std_redirs (REDIR c fname mode fd) = ((fd = 0 \<or> fd = 1) \<and> std_redirs c)"
| "std_redirs (LIST l r) = (std_redirs l \<and> std_redirs r)"
| "std_redirs (PIPE l r) = (std_redirs l \<and> std_redirs r)"
| "std_redirs (BACK c) = std_redirs c"

lemma leaves_fork1: "leaves (fork1 e n c p) \<subseteq> leaves c \<union> leaves p"
  by (simp add: fork1_def)

lemma lowest_SomeD: "lowest f = Some i \<Longrightarrow> i < FDS \<and> f i = None \<and> (\<forall>j<i. f j \<noteq> None)"
  by (simp add: lowest_def scan_Some_iff)

lemma lowest_closed:
  assumes "open3 f" "fd < 3"
  shows "lowest (f(fd := None)) = Some fd"
  using assms by (auto simp: lowest_def scan_Some_iff open3_def FDS_def)

text \<open>A redirection replaces the descriptor it names, and nothing else.\<close>

lemma redir_new:
  assumes "open3 f" "fd < 3"
  shows "u_new ob (u_close fd f) = Some (fd, f(fd := Some ob))"
  using lowest_closed [OF assms] by (simp add: u_new_def u_close_def)

lemma open3_upd [simp]: "open3 f \<Longrightarrow> open3 (f(fd := Some ob))"
  by (simp add: open3_def)

lemma u_pipe_SomeD:
  assumes "open3 f" "u_pipe n f = Some (p0, p1, f')"
  shows "3 \<le> p0 \<and> 3 \<le> p1 \<and> p0 \<noteq> p1 \<and> f p0 = None \<and> f p1 = None \<and> f' = f(p0 := Some (PipeR n), p1 := Some (PipeW n))"
proof -
  from assms(2) have l: "lowest f = Some p0" "lowest (f(p0 := Some (PipeR n))) = Some p1"
    "f' = f(p0 := Some (PipeR n), p1 := Some (PipeW n))"
    by (auto simp: u_pipe_def u_new_def split: option.splits)
  note d = lowest_SomeD [OF l(1)] lowest_SomeD [OF l(2)]
  have "3 \<le> p0" using d(1) assms(1) by (metis not_less open3_def)
  moreover have "p1 \<noteq> p0" "f p1 = None" using d(2) by (auto split: if_splits)
  moreover have "3 \<le> p1" using \<open>f p1 = None\<close> assms(1) by (metis not_less open3_def)
  ultimately show ?thesis using d l by simp
qed

text \<open>The child that becomes one side of a pipe has its end as standard input or output, and no other end of it.\<close>

lemma pipe_child:
  assumes "open3 f" "u_pipe n f = Some (p0, p1, f')"
  shows "u_close p1 (u_close p0 (u_dup p1 (u_close 1 f'))) = f(1 := Some (PipeW n))"
    and "u_close p1 (u_close p0 (u_dup p0 (u_close 0 f'))) = f(0 := Some (PipeR n))"
proof -
  note p = u_pipe_SomeD [OF assms]
  have o: "open3 f'" using p assms(1) by simp
  have l: "lowest (f'(1 := None)) = Some 1" "lowest (f'(0 := None)) = Some 0"
    using lowest_closed [OF o, of 1] lowest_closed [OF o, of 0] by simp_all
  have d: "u_dup p1 (u_close 1 f') = f'(1 := Some (PipeW n))" "u_dup p0 (u_close 0 f') = f'(0 := Some (PipeR n))"
    using p l by (auto simp: u_dup_def u_close_def u_new_def)
  show "u_close p1 (u_close p0 (u_dup p1 (u_close 1 f'))) = f(1 := Some (PipeW n))"
    unfolding d unfolding u_close_def using p by (auto simp: fun_eq_iff)
  show "u_close p1 (u_close p0 (u_dup p0 (u_close 0 f'))) = f(0 := Some (PipeR n))"
    unfolding d unfolding u_close_def using p by (auto simp: fun_eq_iff)
qed

text \<open>
  The process that forked the two sides has closed both ends when it waits: its files are again those
  it had before the pipe, so the reader sees the end of the data when the writer exits.
\<close>

lemma pipe_parent_closes:
  assumes "open3 f"
  shows "waiting_files (runcmd e (PIPE l r) n f) \<subseteq> {f}"
proof (cases "u_pipe n f")
  case (Some a)
  obtain p0 p1 f' where p: "u_pipe n f = Some (p0, p1, f')" using Some by (cases a) auto
  have "u_close p1 (u_close p0 f') = f"
    using u_pipe_SomeD [OF assms p] by (auto simp: u_close_def fun_eq_iff)
  then show ?thesis by (simp add: p fork1_def Let_def)
qed simp

text \<open>What a command's programs have open: what the shell had there, files, and pipes of the command itself.\<close>

definition from_cmd :: "nat list \<Rightarrow> fds \<Rightarrow> fds \<Rightarrow> bool" where
  "from_cmd n f g \<longleftrightarrow>
     open3 g \<and> (\<forall>fd ob. g fd = Some ob \<longrightarrow> f fd = Some ob \<or>
       (case ob of PipeR m \<Rightarrow> length n \<le> length m | PipeW m \<Rightarrow> length n \<le> length m | Opened _ _ \<Rightarrow> True | Inherited _ \<Rightarrow> False))"

lemma from_cmd_upd:
  assumes "from_cmd m (f(fd := Some ob)) g" "length n \<le> length m"
    and "case ob of PipeR m \<Rightarrow> length n \<le> length m | PipeW m \<Rightarrow> length n \<le> length m | Opened _ _ \<Rightarrow> True | Inherited _ \<Rightarrow> False"
  shows "from_cmd n f g"
  using assms unfolding from_cmd_def by (fastforce split: fobj.splits if_splits)

lemma from_cmd_deeper:
  assumes "from_cmd m f g" "length n \<le> length m"
  shows "from_cmd n f g"
  using assms unfolding from_cmd_def by (fastforce split: fobj.splits)

lemma pipe_leaves:
  assumes "open3 f" "(argv, g) \<in> leaves (runcmd e (PIPE l r) n f)"
  shows "(argv, g) \<in> leaves (runcmd e l (0 # n) (f(1 := Some (PipeW n)))) \<union> leaves (runcmd e r (1 # n) (f(0 := Some (PipeR n))))"
proof -
  obtain p0 p1 f' where p: "u_pipe n f = Some (p0, p1, f')"
    using assms(2) by (cases "u_pipe n f") (auto split: if_splits)
  show ?thesis
    using assms(2) by (auto simp: p pipe_child [OF assms(1) p] fork1_def Let_def simp del: One_nat_def split: if_splits)
qed

lemma leaves_from_cmd:
  assumes "open3 f" "std_redirs c" "(argv, g) \<in> leaves (runcmd e c n f)"
  shows "from_cmd n f g"
  using assms
proof (induction c arbitrary: n f)
  case (EXEC as)
  then show ?case by (auto simp: from_cmd_def split: if_splits)
next
  case (REDIR c fname mode fd)
  then have fd: "nat fd < 3" by auto
  from REDIR.prems(3) have "(argv, g) \<in> leaves (runcmd e c n (f(nat fd := Some (Opened fname mode))))"
    by (simp add: Let_def redir_new [OF REDIR.prems(1) fd] split: if_splits)
  moreover have "std_redirs c" "open3 (f(nat fd := Some (Opened fname mode)))" using REDIR.prems by simp_all
  ultimately have "from_cmd n (f(nat fd := Some (Opened fname mode))) g" by (intro REDIR.IH)
  then show ?case by (rule from_cmd_upd) simp_all
next
  case (PIPE l r)
  from pipe_leaves [OF PIPE.prems(1,3)] show ?case
  proof
    assume "(argv, g) \<in> leaves (runcmd e l (0 # n) (f(1 := Some (PipeW n))))"
    moreover have "open3 (f(1 := Some (PipeW n)))" "std_redirs l" using PIPE.prems(1,2) by simp_all
    ultimately have "from_cmd (0 # n) (f(1 := Some (PipeW n))) g" by (rule PIPE.IH(1) [rotated 2])
    then show ?case by (rule from_cmd_upd) simp_all
  next
    assume "(argv, g) \<in> leaves (runcmd e r (1 # n) (f(0 := Some (PipeR n))))"
    moreover have "open3 (f(0 := Some (PipeR n)))" "std_redirs r" using PIPE.prems(1,2) by simp_all
    ultimately have "from_cmd (1 # n) (f(0 := Some (PipeR n))) g" by (rule PIPE.IH(2) [rotated 2])
    then show ?case by (rule from_cmd_upd) simp_all
  qed
next
  case (LIST l r)
  then have "(argv, g) \<in> leaves (runcmd e l (0 # n) f) \<or> (argv, g) \<in> leaves (runcmd e r (1 # n) f)"
    by (auto simp: fork1_def split: if_splits)
  then show ?case using LIST.IH(1) [of f "0 # n"] LIST.IH(2) [of f "1 # n"] LIST.prems(1,2)
    by (auto intro: from_cmd_deeper)
next
  case (BACK c)
  then have "(argv, g) \<in> leaves (runcmd e c (0 # n) f)" by (auto simp: fork1_def split: if_splits)
  then show ?case using BACK.IH [of f "0 # n"] BACK.prems(1,2) by (auto intro: from_cmd_deeper)
qed

text \<open>
  C28. Every program the shell runs in a pipeline, however pipes, lists, redirections and background
  commands are nested in it, has descriptors 0, 1 and 2 open. It holds an end of the pipe only as
  its standard input or as its standard output, and never both ends: no reader keeps the pipe it
  reads from open for writing.
\<close>

theorem shell_pipe_ends:
  assumes "open3 f" "std_redirs l" "std_redirs r" "\<And>fd. f fd \<noteq> Some (PipeR n) \<and> f fd \<noteq> Some (PipeW n)"
    and "(argv, g) \<in> leaves (runcmd e (PIPE l r) n f)"
  shows "open3 g \<and> (\<forall>fd. g fd = Some (PipeW n) \<longrightarrow> fd = 1) \<and> (\<forall>fd. g fd = Some (PipeR n) \<longrightarrow> fd = 0) \<and>
    (g 1 = Some (PipeW n) \<longrightarrow> g 0 \<noteq> Some (PipeR n))"
proof -
  have only: "g fd = Some ob \<Longrightarrow> f' fd = Some ob" if "from_cmd m f' g" "length n < length m" "ob = PipeR n \<or> ob = PipeW n" for m f' fd ob
    using that unfolding from_cmd_def by fastforce
  from pipe_leaves [OF assms(1,5)] show ?thesis
  proof
    assume "(argv, g) \<in> leaves (runcmd e l (0 # n) (f(1 := Some (PipeW n))))"
    from leaves_from_cmd [OF _ assms(2) this] have c: "from_cmd (0 # n) (f(1 := Some (PipeW n))) g" using assms(1) by simp
    have "fd = 1" if "g fd = Some (PipeW n)" for fd using only [OF c _ _ that] assms(4) by (auto split: if_splits)
    moreover have "g fd \<noteq> Some (PipeR n)" for fd using only [OF c, of "PipeR n" fd] assms(4) by (auto split: if_splits)
    ultimately show ?thesis using c by (simp add: from_cmd_def)
  next
    assume "(argv, g) \<in> leaves (runcmd e r (1 # n) (f(0 := Some (PipeR n))))"
    from leaves_from_cmd [OF _ assms(3) this] have c: "from_cmd (1 # n) (f(0 := Some (PipeR n))) g" using assms(1) by simp
    have "fd = 0" if "g fd = Some (PipeR n)" for fd using only [OF c _ _ that] assms(4) by (auto split: if_splits)
    moreover have "g fd \<noteq> Some (PipeW n)" for fd using only [OF c, of "PipeW n" fd] assms(4) by (auto split: if_splits)
    ultimately show ?thesis using c by (simp add: from_cmd_def)
  qed
qed

definition env0 :: env where
  "env0 = \<lparr>e_open = (\<lambda>_ _. True), e_pipe = (\<lambda>_. True), e_fork = (\<lambda>_. True)\<rparr>"

definition fds0 :: fds where
  "fds0 fd = (if fd < 3 then Some (Inherited fd) else None)"

lemma u_pipe_fds0: "u_pipe [] fds0 = Some (3, 4, fds0(3 := Some (PipeR []), 4 := Some (PipeW [])))"
proof -
  have "lowest fds0 = Some 3" "lowest (fds0(3 := Some (PipeR []))) = Some 4"
    by (auto simp: lowest_def scan_Some_iff FDS_def fds0_def)
  then show ?thesis by (simp add: u_pipe_def u_new_def)
qed

theorem shell_pipe_ends_witness:
  "\<exists>g. ([(0, 2)], g) \<in> leaves (runcmd env0 (PIPE (EXEC [(0, 2)]) (EXEC [(5, 7)])) [] fds0) \<and> open3 g \<and>
     g 1 = Some (PipeW []) \<and> g 0 \<noteq> Some (PipeR [])"
proof -
  let ?g = "fds0(1 := Some (PipeW []))"
  have o: "open3 fds0" by (simp add: open3_def fds0_def)
  have m: "([(0, 2)], ?g) \<in> leaves (runcmd env0 (PIPE (EXEC [(0, 2)]) (EXEC [(5, 7)])) [] fds0)"
    using pipe_child(1) [OF o u_pipe_fds0] by (simp add: u_pipe_fds0 fork1_def env0_def Let_def del: One_nat_def)
  have r: "open3 ?g \<and> (\<forall>fd. ?g fd = Some (PipeW []) \<longrightarrow> fd = 1) \<and> (\<forall>fd. ?g fd = Some (PipeR []) \<longrightarrow> fd = 0) \<and>
      (?g 1 = Some (PipeW []) \<longrightarrow> ?g 0 \<noteq> Some (PipeR []))"
    by (rule shell_pipe_ends [OF o _ _ _ m]) (simp_all add: fds0_def)
  show ?thesis
  proof (intro exI [of _ ?g] conjI)
    show "([(0, 2)], ?g) \<in> leaves (runcmd env0 (PIPE (EXEC [(0, 2)]) (EXEC [(5, 7)])) [] fds0)" by (rule m)
    show "open3 ?g" using r by blast
    show "?g 1 = Some (PipeW [])" by simp
    then show "?g 0 \<noteq> Some (PipeR [])" using r by blast
  qed
qed

end
