(* ===== verification/Ring.thy ===== *)
theory Ring
  imports Prelude
begin

text \<open>
  The ring buffers of the kernel: an array with two free-running counters of \<open>w\<close> bits, used by pipes
  (\<open>pipe.c\<close>) and console input (\<open>console.c\<close>) with 32-bit counters and by the queues shared with the disk
  (\<open>virtio_disk.c\<close>) with 16-bit counters. The contents are a list; storing at the write counter
  appends to it and advancing the read counter removes its head, also across the wrap-around of
  the counters.
\<close>

definition ring_list :: "nat \<Rightarrow> (nat \<Rightarrow> 'a) \<Rightarrow> 'w::len word \<Rightarrow> 'w word \<Rightarrow> 'a list" where
  "ring_list n d r w = map (\<lambda>k. d (unat (r + of_nat k) mod n)) [0..<unat (w - r)]"

lemma ring_list_length [simp]: "length (ring_list n d r w) = unat (w - r)"
  by (simp add: ring_list_def)

lemma ring_list_empty [simp]: "ring_list n d r r = []"
  by (simp add: ring_list_def)

lemma ring_list_Nil_iff: "ring_list n d r w = [] \<longleftrightarrow> r = w"
  using ring_list_length [of n d r w] by (metis length_0_conv right_minus_eq unat_eq_zero)

lemma ring_pop:
  fixes r w :: "'w::len word"
  assumes "r \<noteq> w"
  shows "ring_list n d r w = d (unat r mod n) # ring_list n d (r + 1) w"
proof -
  have e: "w - (r + 1) = w - r - 1" by (simp add: algebra_simps)
  have "0 < unat (w - r)" using assms by (simp add: unat_gt_0)
  moreover have "unat (w - (r + 1)) = unat (w - r) - 1"
    unfolding e using assms by (intro unat_sub_1) (simp add: unat_gt_0)
  ultimately have "unat (w - r) = Suc (unat (w - (r + 1)))" by linarith
  then show ?thesis
    unfolding ring_list_def by (simp add: upt_conv_Cons map_Suc_upt [symmetric] algebra_simps del: upt_Suc)
qed

text \<open>The capacity divides the range of the counters, whose type is given by \<open>ty\<close>.\<close>

locale ring =
  fixes n :: nat and ty :: "'w::len itself"
  assumes n_pos: "0 < n" and n_dvd: "n dvd 2 ^ LENGTH('w)" and n_less: "n < 2 ^ LENGTH('w)"
begin

lemma unat_add_mod: "unat (r + of_nat k :: 'w word) mod n = (unat r + k) mod n"
proof -
  have "unat (r + of_nat k :: 'w word) = (unat r + k) mod 2 ^ LENGTH('w)"
    by (simp add: unat_word_ariths unat_of_nat take_bit_eq_mod mod_simps)
  then show ?thesis using n_dvd by (simp add: mod_mod_cancel)
qed

lemma distinct_slots:
  assumes "k < m" "m < n"
  shows "unat (r + of_nat k :: 'w word) mod n \<noteq> unat (r + of_nat m :: 'w word) mod n"
proof
  assume "unat (r + of_nat k :: 'w word) mod n = unat (r + of_nat m :: 'w word) mod n"
  then have "(unat r + m) mod n = (unat r + k) mod n" by (simp add: unat_add_mod)
  then have "n dvd (unat r + m) - (unat r + k)" using assms by (intro mod_eq_dvd_iff_nat [THEN iffD1]) auto
  with assms show False by (auto dest: dvd_imp_le)
qed

lemma push:
  fixes r w :: "'w word"
  assumes "unat (w - r) < n"
  shows "ring_list n (d(unat w mod n := c)) r (w + 1) = ring_list n d r w @ [c]"
proof -
  let ?m = "unat (w - r)"
  have w: "w = r + of_nat ?m" by simp
  have "Suc ?m < 2 ^ LENGTH('w)" using assms n_less by linarith
  then have "unat (w - r + 1) = Suc ?m" by (intro unat_add_1) simp
  then have s: "unat (w + 1 - r) = Suc ?m" by (simp add: algebra_simps)
  have "(d(unat w mod n := c)) (unat (r + of_nat k) mod n) = d (unat (r + of_nat k) mod n)" if "k < ?m" for k
    using distinct_slots [OF that assms, of r] w by simp
  moreover have "(d(unat w mod n := c)) (unat (r + of_nat ?m) mod n) = c" using w by simp
  ultimately show ?thesis
    unfolding ring_list_def s by simp
qed

lemma full: "(w :: 'w word) = r + of_nat n \<longleftrightarrow> unat (w - r) = n"
proof -
  have n: "unat (of_nat n :: 'w word) = n" using n_less by (intro unat_of_nat_small) simp
  have "w = r + of_nat n \<longleftrightarrow> w - r = of_nat n" by (auto simp: algebra_simps)
  also have "\<dots> \<longleftrightarrow> unat (w - r) = n" by (simp only: word_unat_eq_iff n)
  finally show ?thesis .
qed

end

end
