(* ===== verification/Journal.thy ===== *)
theory Journal
  imports Bio
begin

text \<open>
  \<open>kernel/log.c\<close>: the redo log. The operations are given first. The main results are that \<open>commit\<close>
  performs a certain sequence of disk writes, and that whichever prefix of that sequence has
  reached the disk when the machine stops, \<open>recover_from_log\<close> brings back either all of the
  transaction's blocks or none of them.
\<close>

section \<open>State\<close>

definition MAXOPBLOCKS :: nat where "MAXOPBLOCKS = 10"
definition LOGBLOCKS :: nat where "LOGBLOCKS = MAXOPBLOCKS * 3"

text \<open>\<open>struct log\<close>, with its \<open>struct logheader lh\<close>.\<close>

record logst =
  lg_start :: uint32
  lg_outstanding :: int
  lg_committing :: bool
  lg_dev :: uint32
  lh_n :: int
  lh_block :: "nat \<Rightarrow> uint32"

record lstate = bstate +
  lg :: logst

section \<open>Operations\<close>

text \<open>One iteration of the loop of \<open>install_trans\<close>; the messages printed during recovery are not modelled.\<close>

definition install_block :: "bool \<Rightarrow> nat \<Rightarrow> 'a lstate_scheme \<Rightarrow> 'a lstate_scheme res" where
  "install_block recovering tail s =
     (let log = lg s in
      bindr (bread s (lg_dev log) (lg_start log + of_nat tail + 1)) (\<lambda>(lbuf, s).
      bindr (bread s (lg_dev log) (lh_block log tail)) (\<lambda>(dbuf, s).
      bindr (bwrite (set_data dbuf (b_data (bufs s lbuf)) s) dbuf) (\<lambda>s.
        let s = (if \<not> recovering then bunpin s dbuf else s) in
        bindr (brelse s lbuf) (\<lambda>s. brelse s dbuf)))))"

definition install_trans :: "bool \<Rightarrow> 'a lstate_scheme \<Rightarrow> 'a lstate_scheme res" where
  "install_trans recovering s = for_upto (nat (lh_n (lg s))) (install_block recovering) s"

definition read_head :: "'a lstate_scheme \<Rightarrow> 'a lstate_scheme res" where
  "read_head s =
     bindr (bread s (lg_dev (lg s)) (lg_start (lg s))) (\<lambda>(i, s).
       let lh = b_data (bufs s i);
           n = sint (ld32 lh 0);
           s = s\<lparr>lg := (lg s)\<lparr>lh_n := n,
                 lh_block := (\<lambda>k. if int k < n then ld32 lh (4 + 4 * k) else lh_block (lg s) k)\<rparr>\<rparr>
       in brelse s i)"

text \<open>\<open>hb->block[i] = log.lh.block[i]\<close> for \<open>i < n\<close>, on the bytes of the header block.\<close>

primrec put_blocks :: "nat \<Rightarrow> (nat \<Rightarrow> uint32) \<Rightarrow> bytes \<Rightarrow> bytes" where
  "put_blocks 0 f d = d"
| "put_blocks (Suc n) f d = sd32 (put_blocks n f d) (4 + 4 * n) (f n)"

definition head_block :: "logst \<Rightarrow> bytes \<Rightarrow> bytes" where
  "head_block l d = put_blocks (nat (lh_n l)) (lh_block l) (sd32 d 0 (word_of_int (lh_n l)))"

definition write_head :: "'a lstate_scheme \<Rightarrow> 'a lstate_scheme res" where
  "write_head s =
     (let log = lg s in
      bindr (bread s (lg_dev log) (lg_start log)) (\<lambda>(i, s).
        bindr (bwrite (set_data i (head_block log (b_data (bufs s i))) s) i) (\<lambda>s. brelse s i)))"

abbreviation set_n :: "int \<Rightarrow> 'a lstate_scheme \<Rightarrow> 'a lstate_scheme" where
  "set_n n s \<equiv> s\<lparr>lg := (lg s)\<lparr>lh_n := n\<rparr>\<rparr>"

definition recover_from_log :: "'a lstate_scheme \<Rightarrow> 'a lstate_scheme res" where
  "recover_from_log s =
     bindr (read_head s) (\<lambda>s. bindr (install_trans True s) (\<lambda>s. write_head (set_n 0 s)))"

text \<open>\<open>logstart\<close> is \<open>sb->logstart\<close>; a \<open>struct logheader\<close> is an \<open>int\<close> and \<open>LOGBLOCKS\<close> more.\<close>

definition initlog :: "'a lstate_scheme \<Rightarrow> uint32 \<Rightarrow> uint32 \<Rightarrow> 'a lstate_scheme res" where
  "initlog s dev logstart =
     (if 4 + 4 * LOGBLOCKS \<ge> BSIZE then Panic ''initlog: too big logheader''
      else recover_from_log (s\<lparr>lg := (lg s)\<lparr>lg_start := logstart, lg_dev := dev\<rparr>\<rparr>))"

text \<open>Sleeping in \<open>begin_op\<close> ends when another process commits, so it is \<open>Block ChLog\<close>.\<close>

definition begin_op :: "'a lstate_scheme \<Rightarrow> 'a lstate_scheme res" where
  "begin_op s =
     (let l = lg s in
      if lg_committing l then Block ChLog
      else if lh_n l + (lg_outstanding l + 1) * int MAXOPBLOCKS > int LOGBLOCKS then Block ChLog
      else Ok (s\<lparr>lg := l\<lparr>lg_outstanding := lg_outstanding l + 1\<rparr>\<rparr>))"

definition write_log_block :: "nat \<Rightarrow> 'a lstate_scheme \<Rightarrow> 'a lstate_scheme res" where
  "write_log_block tail s =
     (let log = lg s in
      bindr (bread s (lg_dev log) (lg_start log + of_nat tail + 1)) (\<lambda>(to, s).
      bindr (bread s (lg_dev log) (lh_block log tail)) (\<lambda>(fr, s).
      bindr (bwrite (set_data to (b_data (bufs s fr)) s) to) (\<lambda>s.
      bindr (brelse s fr) (\<lambda>s. brelse s to)))))"

definition write_log :: "'a lstate_scheme \<Rightarrow> 'a lstate_scheme res" where
  "write_log s = for_upto (nat (lh_n (lg s))) write_log_block s"

definition commit :: "'a lstate_scheme \<Rightarrow> 'a lstate_scheme res" where
  "commit s =
     (if lh_n (lg s) > 0
      then bindr (write_log s) (\<lambda>s. bindr (write_head s) (\<lambda>s.
           bindr (install_trans False s) (\<lambda>s. write_head (set_n 0 s))))
      else Ok s)"

definition end_op :: "'a lstate_scheme \<Rightarrow> 'a lstate_scheme res" where
  "end_op s =
     (let s = s\<lparr>lg := (lg s)\<lparr>lg_outstanding := lg_outstanding (lg s) - 1\<rparr>\<rparr> in
      if lg_committing (lg s) then Panic ''log.committing''
      else if lg_outstanding (lg s) = 0
      then bindr (commit (s\<lparr>lg := (lg s)\<lparr>lg_committing := True\<rparr>\<rparr>)) (\<lambda>s.
             Ok (s\<lparr>lg := (lg s)\<lparr>lg_committing := False\<rparr>, wakes := wakes s @ [ChLog]\<rparr>))
      else Ok (s\<lparr>wakes := wakes s @ [ChLog]\<rparr>))"

text \<open>The index at which the block is already logged, or \<open>n\<close>.\<close>

definition absorb_index :: "logst \<Rightarrow> uint32 \<Rightarrow> nat" where
  "absorb_index l b = (case scan (\<lambda>i. lh_block l i = b) (nat (lh_n l)) of Some i \<Rightarrow> i | None \<Rightarrow> nat (lh_n l))"

definition log_write :: "'a lstate_scheme \<Rightarrow> nat \<Rightarrow> 'a lstate_scheme res" where
  "log_write s b =
     (if lh_n (lg s) \<ge> int LOGBLOCKS then Panic ''too big a transaction''
      else if lg_outstanding (lg s) < 1 then Panic ''log_write outside of trans''
      else
        let blockno = b_blockno (bufs s b); i = absorb_index (lg s) blockno;
            s = s\<lparr>lg := (lg s)\<lparr>lh_block := (lh_block (lg s))(i := blockno)\<rparr>\<rparr>
        in if int i = lh_n (lg s)
           then let s = bpin s b in Ok (s\<lparr>lg := (lg s)\<lparr>lh_n := lh_n (lg s) + 1\<rparr>\<rparr>)
           else Ok s)"

section \<open>Sequences of disk writes\<close>

definition apply_writes :: "(uint32 \<Rightarrow> bytes) \<Rightarrow> (uint32 \<times> bytes) list \<Rightarrow> uint32 \<Rightarrow> bytes" where
  "apply_writes D ws = foldl (\<lambda>D (b, d). D(b := d)) D ws"

lemma apply_writes_simps [simp]:
  "apply_writes D [] = D" "apply_writes D (ws @ [(b, d)]) = (apply_writes D ws)(b := d)"
  by (simp_all add: apply_writes_def)

lemma apply_writes_append: "apply_writes D (vs @ ws) = apply_writes (apply_writes D vs) ws"
  by (simp add: apply_writes_def)

lemma apply_writes_other: "b \<notin> fst ` set ws \<Longrightarrow> apply_writes D ws b = D b"
  by (induction ws rule: rev_induct) auto

lemma apply_writes_in:
  "(b, d) \<in> set ws \<Longrightarrow> (\<And>d'. (b, d') \<in> set ws \<Longrightarrow> d' = d) \<Longrightarrow> apply_writes D ws b = d"
proof (induction ws rule: rev_induct)
  case (snoc w ws)
  obtain b' e where w: "w = (b', e)" by (cases w)
  show ?case
  proof (cases "b' = b")
    case True
    then have "e = d" using snoc.prems(2) w by simp
    then show ?thesis using w True by simp
  next
    case False
    then have "(b, d) \<in> set ws" using snoc.prems(1) w by auto
    then have "apply_writes D ws b = d" by (rule snoc.IH) (simp add: snoc.prems(2))
    then show ?thesis using w False by simp
  qed
qed simp

lemma apply_writes_cong: "D b = D' b \<Longrightarrow> apply_writes D ws b = apply_writes D' ws b"
  by (induction ws rule: rev_induct) auto

section \<open>The header block\<close>

lemma ld32_put_blocks:
  "k < n \<Longrightarrow> ld32 (put_blocks n f d) (4 + 4 * k) = f k" "ld32 (put_blocks n f d) 0 = ld32 d 0"
proof -
  show "ld32 (put_blocks n f d) 0 = ld32 d 0" by (induction n) auto
  show "k < n \<Longrightarrow> ld32 (put_blocks n f d) (4 + 4 * k) = f k"
  proof (induction n)
    case (Suc n)
    then show ?case by (cases "k = n") auto
  qed simp
qed

lemma head_block_read:
  assumes "0 \<le> lh_n l" and "lh_n l < 2 ^ 31"
  shows "sint (ld32 (head_block l d) 0) = lh_n l"
    and "k < nat (lh_n l) \<Longrightarrow> ld32 (head_block l d) (4 + 4 * k) = lh_block l k"
proof -
  have "sint (word_of_int (lh_n l) :: uint32) = lh_n l"
    using assms by (simp add: sint_sbintrunc' signed_take_bit_int_eq_self)
  then show "sint (ld32 (head_block l d) 0) = lh_n l" by (simp add: head_block_def ld32_put_blocks)
  show "k < nat (lh_n l) \<Longrightarrow> ld32 (head_block l d) (4 + 4 * k) = lh_block l k"
    by (simp add: head_block_def ld32_put_blocks)
qed

section \<open>The pieces of a commit\<close>

lemma lg_frame: "bio_frame s s' \<Longrightarrow> lg s' = lg s" for s :: "'a lstate_scheme"
  by (cases s; cases s') (simp add: bio_frame_def)

lemma lg_upd_rel [simp]:
  "bio_rel dev (s\<lparr>lg := l\<rparr>) C D L P = bio_rel dev s C D L P" "bufs_for dev (s\<lparr>lg := l\<rparr>) i b = bufs_for dev s i b"
  by (simp_all add: bio_rel_def bufs_for_def)

lemma write_head_rel:
  assumes "bio_rel dev s C D {} P" and "lg_dev (lg s) = dev" and "card P < NBUF"
  defines "b \<equiv> lg_start (lg s)" and "h \<equiv> head_block (lg s) (C (lg_start (lg s)))"
  shows "\<exists>s'. write_head s = Ok s' \<and> bio_rel dev s' (C(b := h)) (D(b := h)) {} P \<and> bio_frame s s' \<and>
           dtrace s' = dtrace s @ [(b, h)]"
  using bc.update_through [OF assms(1), of b "head_block (lg s)"] assms(2,3)
  by (simp add: write_head_def b_def h_def Let_def)

lemma write_log_block_rel:
  assumes "bio_rel dev s C D {} P" and "lg_dev (lg s) = dev" and "card P < NBUF"
    and "lh_block (lg s) t \<in> P" and "lg_start (lg s) + of_nat t + 1 \<notin> P"
  defines "a \<equiv> lg_start (lg s) + of_nat t + 1" and "b \<equiv> lh_block (lg s) t"
  shows "\<exists>s'. write_log_block t s = Ok s' \<and> bio_rel dev s' (C(a := C b)) (D(a := C b)) {} P \<and> bio_frame s s' \<and>
           dtrace s' = dtrace s @ [(a, C b)]"
proof -
  have "a \<noteq> b" using assms(4,5) by (auto simp: a_def b_def)
  with bc.copy_to_first [OF assms(1), of a b] assms(2-5) show ?thesis
    by (simp add: write_log_block_def a_def b_def Let_def)
qed

lemma install_block_rel:
  assumes "bio_rel dev s C D {} P" and "lg_dev (lg s) = dev" and "Suc (card P) < NBUF \<or> card P < NBUF \<and> lh_block (lg s) t \<in> P"
    and "\<not> r \<Longrightarrow> lh_block (lg s) t \<in> P" and "lg_start (lg s) + of_nat t + 1 \<notin> P"
    and "lg_start (lg s) + of_nat t + 1 \<noteq> lh_block (lg s) t"
  defines "a \<equiv> lg_start (lg s) + of_nat t + 1" and "b \<equiv> lh_block (lg s) t"
  shows "\<exists>s'. install_block r t s = Ok s' \<and>
           bio_rel dev s' (C(b := C a)) (D(b := C a)) {} (if r then P else P - {b}) \<and> bio_frame s s' \<and>
           dtrace s' = dtrace s @ [(b, C a)]"
proof -
  have "C a = D a" using bio_relD(8) [OF assms(1)] assms(5) by (simp add: a_def)
  moreover have "card P < NBUF" "b \<in> P \<or> card (insert a P) < NBUF"
    using assms(3,5) by (auto simp: b_def a_def card_insert_if)
  ultimately show ?thesis
    using bc.copy_to_second [OF assms(1), of a b "\<not> r"] assms(2,4-6)
    by (cases r) (simp_all add: install_block_def a_def b_def Let_def)
qed

section \<open>What a commit and a recovery write\<close>

text \<open>The header block and the \<open>LOGBLOCKS\<close> blocks after it.\<close>

definition log_region :: "uint32 \<Rightarrow> uint32 set" where
  "log_region start = (\<lambda>k. start + of_nat k) ` {..LOGBLOCKS}"

lemma log_region_start [simp]: "start \<in> log_region start"
  by (auto simp: log_region_def intro: image_eqI [of _ _ 0])

lemma log_region_block: "j < LOGBLOCKS \<Longrightarrow> start + of_nat j + 1 \<in> log_region start"
  by (auto simp: log_region_def intro: image_eqI [of _ _ "Suc j"])

lemma log_addr_inj:
  assumes "start + of_nat j + 1 = start + of_nat k + (1 :: uint32)" and "j < LOGBLOCKS" and "k < LOGBLOCKS"
  shows "j = k"
proof -
  have "(of_nat j :: uint32) = of_nat k" using assms(1) by simp
  moreover have "unat (of_nat j :: uint32) = j" "unat (of_nat k :: uint32) = k"
    using assms(2,3) by (simp_all add: LOGBLOCKS_def MAXOPBLOCKS_def unat_of_nat_small)
  ultimately show ?thesis by metis
qed

lemma log_addr_not_start: "j < LOGBLOCKS \<Longrightarrow> start + of_nat j + 1 \<noteq> (start :: uint32)"
proof
  assume j: "j < LOGBLOCKS" and "start + of_nat j + 1 = start"
  then have "(of_nat (Suc j) :: uint32) = 0" by (simp add: algebra_simps)
  moreover have "unat (of_nat (Suc j) :: uint32) = Suc j"
    using j by (simp add: LOGBLOCKS_def MAXOPBLOCKS_def unat_of_nat_small del: of_nat_Suc)
  ultimately show False by (metis nat.distinct(1) unat_0)
qed

definition logged_writes :: "uint32 \<Rightarrow> (uint32 \<Rightarrow> bytes) \<Rightarrow> uint32 list \<Rightarrow> nat \<Rightarrow> (uint32 \<times> bytes) list" where
  "logged_writes start C bs n = map (\<lambda>j. (start + of_nat j + 1, C (bs ! j))) [0..<n]"

definition home_writes :: "uint32 \<Rightarrow> (uint32 \<Rightarrow> bytes) \<Rightarrow> uint32 list \<Rightarrow> nat \<Rightarrow> (uint32 \<times> bytes) list" where
  "home_writes start C bs n = map (\<lambda>j. (bs ! j, C (start + of_nat j + 1))) [0..<n]"

lemma write_log_rel:
  assumes rel: "bio_rel dev s C D {} (set bs)" and dev: "lg_dev (lg s) = dev" and n: "lh_n (lg s) = int (length bs)"
    and blk: "\<And>k. k < length bs \<Longrightarrow> lh_block (lg s) k = bs ! k"
    and dj: "set bs \<inter> log_region (lg_start (lg s)) = {}" and len: "length bs < NBUF"
  defines "W \<equiv> logged_writes (lg_start (lg s)) C bs"
  shows "\<exists>s'. write_log s = Ok s' \<and> bio_rel dev s' (apply_writes C (W (length bs))) (apply_writes D (W (length bs))) {} (set bs) \<and>
           bio_frame s s' \<and> dtrace s' = dtrace s @ W (length bs)"
proof -
  let ?I = "\<lambda>k t. bio_rel dev t (apply_writes C (W k)) (apply_writes D (W k)) {} (set bs) \<and>
      bio_frame s t \<and> dtrace t = dtrace s @ W k"
  have card: "card (set bs) < NBUF" using len card_length le_less_trans by blast
  have "\<exists>s'. for_upto (length bs) write_log_block s = Ok s' \<and> ?I (length bs) s'"
  proof (rule for_upto_total)
    show "?I 0 s" using rel by (simp add: W_def logged_writes_def)
    fix k t assume k: "k < length bs" and I: "?I k t"
    let ?a = "lg_start (lg s) + of_nat k + 1"
    have lgt: "lg t = lg s" using I lg_frame by blast
    have kl: "k < LOGBLOCKS" using k len by (simp add: LOGBLOCKS_def MAXOPBLOCKS_def NBUF_def)
    have Ck: "apply_writes C (W k) (bs ! k) = C (bs ! k)"
    proof (rule apply_writes_other)
      have "fst ` set (W k) \<subseteq> log_region (lg_start (lg s))"
        using kl by (auto simp: W_def logged_writes_def log_region_block)
      then show "bs ! k \<notin> fst ` set (W k)" using dj k by (auto dest: nth_mem)
    qed
    have "?a \<notin> set bs" using dj log_region_block [OF kl] by auto
    then obtain t' where t': "write_log_block k t = Ok t'" "bio_frame t t'" "dtrace t' = dtrace t @ [(?a, C (bs ! k))]"
        "bio_rel dev t' ((apply_writes C (W k))(?a := C (bs ! k))) ((apply_writes D (W k))(?a := C (bs ! k))) {} (set bs)"
      using write_log_block_rel [of dev t "apply_writes C (W k)" "apply_writes D (W k)" "set bs" k] I dev lgt card k blk [OF k] Ck by auto
    moreover have "W (Suc k) = W k @ [(?a, C (bs ! k))]" by (simp add: W_def logged_writes_def)
    moreover have "bio_frame s t'" by (rule bio_frame_trans [OF _ t'(2)]) (use I in simp)
    ultimately show "\<exists>t'. write_log_block k t = Ok t' \<and> ?I (Suc k) t'" using I by simp
  qed
  then show ?thesis by (simp add: write_log_def n)
qed

lemma install_trans_rel:
  assumes rel: "bio_rel dev s C D {} (if r then {} else set bs)" and dev: "lg_dev (lg s) = dev"
    and n: "lh_n (lg s) = int (length bs)" and blk: "\<And>k. k < length bs \<Longrightarrow> lh_block (lg s) k = bs ! k"
    and dj: "set bs \<inter> log_region (lg_start (lg s)) = {}" and len: "length bs \<le> LOGBLOCKS"
    and d: "\<not> r \<Longrightarrow> distinct bs \<and> length bs < NBUF"
  defines "W \<equiv> home_writes (lg_start (lg s)) C bs"
  shows "\<exists>s'. install_trans r s = Ok s' \<and>
           bio_rel dev s' (apply_writes C (W (length bs))) (apply_writes D (W (length bs))) {} {} \<and>
           bio_frame s s' \<and> dtrace s' = dtrace s @ W (length bs)"
proof -
  let ?P = "\<lambda>k. if r then {} else set (drop k bs)"
  let ?I = "\<lambda>k t. bio_rel dev t (apply_writes C (W k)) (apply_writes D (W k)) {} (?P k) \<and>
      bio_frame s t \<and> dtrace t = dtrace s @ W k"
  have "\<exists>s'. for_upto (length bs) (install_block r) s = Ok s' \<and> ?I (length bs) s'"
  proof (rule for_upto_total)
    show "?I 0 s" using rel by (auto simp: W_def home_writes_def split: if_splits)
    fix k t assume k: "k < length bs" and I: "?I k t"
    let ?a = "lg_start (lg s) + of_nat k + 1"
    have lgt: "lg t = lg s" using I lg_frame by blast
    have a: "?a \<in> log_region (lg_start (lg s))" using k len by (intro log_region_block) simp
    have "fst ` set (W k) \<subseteq> set bs" using k by (auto simp: W_def home_writes_def)
    then have "?a \<notin> fst ` set (W k)" using a dj by blast
    then have Ck: "apply_writes C (W k) ?a = C ?a" by (rule apply_writes_other)
    have drop: "drop k bs = bs ! k # drop (Suc k) bs" using k by (simp add: Cons_nth_drop_Suc)
    have Pk: "?P k - {bs ! k} = ?P (Suc k)" if "\<not> r"
      using that d k drop distinct_drop [of bs k] by auto
    have card: "Suc (card (?P k)) < NBUF \<or> card (?P k) < NBUF \<and> bs ! k \<in> ?P k"
    proof (cases r)
      case False
      then have "length (drop k bs) < NBUF" using d by (simp add: less_imp_diff_less)
      then have "card (set (drop k bs)) < NBUF" by (rule le_less_trans [OF card_length])
      then show ?thesis using False drop by simp
    qed (simp add: NBUF_def)
    have "?a \<notin> ?P k" "?a \<noteq> bs ! k" using dj a k by (auto dest: in_set_dropD nth_mem)
    then obtain t' where t': "install_block r k t = Ok t'" "bio_frame t t'" "dtrace t' = dtrace t @ [(bs ! k, C ?a)]"
        "bio_rel dev t' ((apply_writes C (W k))(bs ! k := C ?a)) ((apply_writes D (W k))(bs ! k := C ?a)) {}
           (if r then ?P k else ?P k - {bs ! k})"
      using install_block_rel [of dev t "apply_writes C (W k)" "apply_writes D (W k)" "?P k" k r] I dev lgt card k blk [OF k] Ck drop by (cases r) auto
    moreover have "(if r then ?P k else ?P k - {bs ! k}) = ?P (Suc k)" using Pk by simp
    moreover have "W (Suc k) = W k @ [(bs ! k, C ?a)]" by (simp add: W_def home_writes_def)
    moreover have "bio_frame s t'" by (rule bio_frame_trans [OF _ t'(2)]) (use I in simp)
    ultimately show "\<exists>t'. install_block r k t = Ok t' \<and> ?I (Suc k) t'" using I by simp
  qed
  then show ?thesis by (cases r) (simp_all add: install_trans_def n)
qed

text \<open>
  \<open>txn s C D L bs\<close>: the blocks \<open>bs\<close> are logged and pinned, \<open>L\<close> are locked by the running process, \<open>C\<close> are
  the contents the file system sees, \<open>D\<close> the disk, whose log header says that the log is empty.
\<close>

definition txn ::
  "'a lstate_scheme \<Rightarrow> (uint32 \<Rightarrow> bytes) \<Rightarrow> (uint32 \<Rightarrow> bytes) \<Rightarrow> uint32 set \<Rightarrow> uint32 list \<Rightarrow> bool" where
  "txn s C D L bs \<longleftrightarrow> bio_rel (lg_dev (lg s)) s C D L (set bs) \<and> lh_n (lg s) = int (length bs) \<and>
     (\<forall>k<length bs. lh_block (lg s) k = bs ! k) \<and> distinct bs \<and> length bs \<le> LOGBLOCKS \<and>
     set bs \<inter> log_region (lg_start (lg s)) = {} \<and> sint (ld32 (D (lg_start (lg s))) 0) = 0"

text \<open>The writes of a commit, in order: log blocks, header, home blocks, header.\<close>

definition commit_writes :: "logst \<Rightarrow> (uint32 \<Rightarrow> bytes) \<Rightarrow> uint32 list \<Rightarrow> (uint32 \<times> bytes) list" where
  "commit_writes l C bs =
     (let h = head_block l (C (lg_start l)); h0 = head_block (l\<lparr>lh_n := 0\<rparr>) h in
      logged_writes (lg_start l) C bs (length bs) @ [(lg_start l, h)] @
      map (\<lambda>b. (b, C b)) bs @ [(lg_start l, h0)])"

lemma apply_logged:
  assumes "j < length bs" and "length bs \<le> LOGBLOCKS"
  shows "apply_writes C' (logged_writes start C bs (length bs)) (start + of_nat j + 1) = C (bs ! j)"
proof (rule apply_writes_in)
  fix d' assume "(start + of_nat j + 1, d') \<in> set (logged_writes start C bs (length bs))"
  then obtain k where "k < length bs" "start + of_nat j + 1 = start + of_nat k + 1" "d' = C (bs ! k)"
    by (auto simp: logged_writes_def)
  then show "d' = C (bs ! j)" using log_addr_inj [of start j k] assms by auto
qed (use assms in \<open>auto simp: logged_writes_def\<close>)

lemma logged_not_start: "length bs \<le> LOGBLOCKS \<Longrightarrow> start \<notin> fst ` set (logged_writes start C bs (length bs))"
  using log_addr_not_start [of _ start] by (fastforce simp: logged_writes_def)

lemma commit_rel:
  assumes t: "txn s C D {} bs" and len: "0 < length bs" "length bs < NBUF"
  shows "\<exists>s'. commit s = Ok s' \<and> lg s' = (lg s)\<lparr>lh_n := 0\<rparr> \<and> dtrace s' = dtrace s @ commit_writes (lg s) C bs \<and>
           bio_rel (lg_dev (lg s)) s' (apply_writes D (commit_writes (lg s) C bs)) (apply_writes D (commit_writes (lg s) C bs)) {} {}"
proof -
  let ?l = "lg s" and ?n = "length bs"
  let ?start = "lg_start ?l" and ?A = "logged_writes (lg_start ?l) C bs ?n"
  let ?h = "head_block ?l (C ?start)" and ?B = "map (\<lambda>b. (b, C b)) bs"
  let ?hz = "head_block (?l\<lparr>lh_n := 0\<rparr>) ?h"
  note T = t [unfolded txn_def]
  have card: "card (set bs) < NBUF" using len(2) card_length le_less_trans by blast
  from T len obtain s1 where s1: "write_log s = Ok s1" "bio_frame s s1" "dtrace s1 = dtrace s @ ?A"
      "bio_rel (lg_dev ?l) s1 (apply_writes C ?A) (apply_writes D ?A) {} (set bs)"
    using write_log_rel [of "lg_dev ?l" s C D bs] by auto
  have l1: "lg s1 = ?l" using lg_frame [OF s1(2)] .
  have C1: "apply_writes C ?A ?start = C ?start"
    using T by (intro apply_writes_other logged_not_start) simp
  obtain s2 where s2: "write_head s1 = Ok s2" "bio_frame s1 s2" "dtrace s2 = dtrace s1 @ [(?start, ?h)]"
      "bio_rel (lg_dev ?l) s2 (apply_writes C (?A @ [(?start, ?h)])) (apply_writes D (?A @ [(?start, ?h)])) {} (set bs)"
    using write_head_rel [OF s1(4)] card C1 by (auto simp: l1)
  have l2: "lg s2 = ?l" using lg_frame [OF s2(2)] l1 by simp
  let ?CC = "apply_writes C (?A @ [(?start, ?h)])" and ?DD = "apply_writes D (?A @ [(?start, ?h)])"
  have C2: "?CC (?start + of_nat j + 1) = C (bs ! j)" if "j < ?n" for j
    using that T log_addr_not_start [of j ?start] apply_logged [of j bs C] by auto
  then have home: "home_writes ?start ?CC bs ?n = ?B"
    by (intro nth_equalityI) (simp_all add: home_writes_def del: apply_writes_simps)
  obtain s3 where s3: "install_trans False s2 = Ok s3" "bio_frame s2 s3" "dtrace s3 = dtrace s2 @ ?B"
      "bio_rel (lg_dev ?l) s3 (apply_writes ?CC ?B) (apply_writes ?DD ?B) {} {}"
    using install_trans_rel [of "lg_dev ?l" s2 ?CC ?DD False bs] s2(4) T len(2) home by (auto simp: l2)
  have l3: "lg s3 = ?l" using lg_frame [OF s3(2)] l2 by simp
  have eq: "apply_writes ?CC ?B = apply_writes ?DD ?B" using bio_relD(8) [OF s3(4)] by auto
  have rel3: "bio_rel (lg_dev ?l) s3 (apply_writes ?DD ?B) (apply_writes ?DD ?B) {} {}"
    using s3(4) unfolding eq .
  have C3: "apply_writes ?DD ?B ?start = ?h"
  proof -
    have "?start \<notin> fst ` set ?B" using T by (auto simp: disjoint_iff)
    then show ?thesis by (simp add: apply_writes_other)
  qed
  obtain s4 where s4: "write_head (set_n 0 s3) = Ok s4" "bio_frame (set_n 0 s3) s4"
      "dtrace s4 = dtrace s3 @ [(?start, ?hz)]"
      "bio_rel (lg_dev ?l) s4 ((apply_writes ?DD ?B)(?start := ?hz)) ((apply_writes ?DD ?B)(?start := ?hz)) {} {}"
    using write_head_rel [of "lg_dev ?l" "set_n 0 s3" "apply_writes ?DD ?B" "apply_writes ?DD ?B" "{}"] rel3 C3
    by (auto simp: l3 NBUF_def)
  have "commit s = Ok s4" using s1 s2 s3 s4 T len by (simp add: commit_def)
  moreover have "lg s4 = ?l\<lparr>lh_n := 0\<rparr>" using lg_frame [OF s4(2)] l3 by simp
  moreover have "dtrace s4 = dtrace s @ commit_writes ?l C bs"
    using s1 s2 s3 s4 by (simp add: commit_writes_def Let_def)
  moreover have "apply_writes D (commit_writes ?l C bs) = (apply_writes ?DD ?B)(?start := ?hz)"
    by (simp add: commit_writes_def Let_def apply_writes_def)
  ultimately show ?thesis using s4(4) by simp
qed

section \<open>Recovery\<close>

lemma read_head_rel:
  assumes rel: "bio_rel dev s C D {} P" and dev: "lg_dev (lg s) = dev" and card: "card P < NBUF"
    and clean: "lg_start (lg s) \<in> P \<or> C (lg_start (lg s)) = D (lg_start (lg s))"
  shows "\<exists>s'. read_head s = Ok s' \<and> bio_rel dev s' C D {} P \<and> lg_start (lg s') = lg_start (lg s) \<and>
           lg_dev (lg s') = dev \<and> lh_n (lg s') = sint (ld32 (C (lg_start (lg s))) 0) \<and>
           (\<forall>k. int k < lh_n (lg s') \<longrightarrow> lh_block (lg s') k = ld32 (C (lg_start (lg s))) (4 + 4 * k))"
proof -
  let ?b = "lg_start (lg s)"
  obtain i s1 where s1: "bread s dev ?b = Ok (i, s1)" "bufs_for dev s1 i ?b" "b_data (bufs s1 i) = C ?b"
      "bio_rel dev s1 C D (insert ?b {}) P" "bio_frame s s1"
    by (rule bread_rel [OF rel, of ?b]) (use card in auto)
  define s2 where "s2 = s1\<lparr>lg := (lg s1)\<lparr>lh_n := sint (ld32 (C ?b) 0),
      lh_block := (\<lambda>k. if int k < sint (ld32 (C ?b) 0) then ld32 (C ?b) (4 + 4 * k) else lh_block (lg s1) k)\<rparr>\<rparr>"
  have "bio_rel dev s2 C D (insert ?b {}) P" "bufs_for dev s2 i ?b" using s1 by (simp_all add: s2_def)
  from bc.rel_law [OF this _ clean] obtain s3 where s3: "brelse s2 i = Ok s3" "bio_rel dev s3 C D ({?b} - {?b}) P"
      "bio_frame s2 s3" by auto
  have "read_head s = Ok s3" using s1 s3(1) dev by (simp add: read_head_def Let_def s2_def cong: if_cong)
  moreover have "lg s3 = lg s2" "lg s1 = lg s" using lg_frame s3(3) s1(5) by auto
  ultimately show ?thesis using s3(2) dev by (simp add: s2_def)
qed

lemma recover_rel:
  assumes rel: "bio_rel dev s d d {} {}" and dev: "lg_dev (lg s) = dev" and start: "lg_start (lg s) = start"
    and hn: "sint (ld32 (d start) 0) = int (length bs)"
    and hb: "\<And>k. k < length bs \<Longrightarrow> ld32 (d start) (4 + 4 * k) = bs ! k"
    and dj: "set bs \<inter> log_region start = {}" and len: "length bs \<le> LOGBLOCKS"
  shows "\<exists>s' h. recover_from_log s = Ok s' \<and> sint (ld32 h 0) = 0 \<and> lh_n (lg s') = 0 \<and>
           disk s' = (apply_writes d (home_writes start d bs (length bs)))(start := h) \<and>
           bio_rel dev s' (disk s') (disk s') {} {}"
proof -
  let ?W = "home_writes start d bs (length bs)"
  have "card ({} :: uint32 set) < NBUF" by (simp add: NBUF_def)
  from read_head_rel [OF rel dev this disjI2 [OF refl]] obtain s1 where
    s1: "read_head s = Ok s1" "bio_rel dev s1 d d {} {}" "lg_start (lg s1) = start" "lg_dev (lg s1) = dev"
      "lh_n (lg s1) = int (length bs)" "\<forall>k. int k < lh_n (lg s1) \<longrightarrow> lh_block (lg s1) k = ld32 (d start) (4 + 4 * k)"
    unfolding start hn by blast
  then have blk: "\<And>k. k < length bs \<Longrightarrow> lh_block (lg s1) k = bs ! k" using hb by simp
  obtain s2 where s2: "install_trans True s1 = Ok s2" "bio_frame s1 s2"
      "bio_rel dev s2 (apply_writes d ?W) (apply_writes d ?W) {} {}"
    using install_trans_rel [of dev s1 d d True bs] s1(2-5) blk dj len by auto
  have l2: "lg s2 = lg s1" using lg_frame [OF s2(2)] .
  obtain s3 where s3: "write_head (set_n 0 s2) = Ok s3" "bio_frame (set_n 0 s2) s3"
      "bio_rel dev s3 ((apply_writes d ?W)(start := head_block ((lg s1)\<lparr>lh_n := 0\<rparr>) (apply_writes d ?W start)))
         ((apply_writes d ?W)(start := head_block ((lg s1)\<lparr>lh_n := 0\<rparr>) (apply_writes d ?W start))) {} {}"
    using write_head_rel [of dev "set_n 0 s2" "apply_writes d ?W" "apply_writes d ?W" "{}"] s2(3) s1(3,4)
    by (auto simp: l2 NBUF_def)
  have "recover_from_log s = Ok s3" using s1 s2 s3 by (simp add: recover_from_log_def)
  moreover have "lh_n (lg s3) = 0" using lg_frame [OF s3(2)] by simp
  moreover have "sint (ld32 (head_block ((lg s1)\<lparr>lh_n := 0\<rparr>) (apply_writes d ?W start)) 0) = 0"
    using head_block_read(1) [of "(lg s1)\<lparr>lh_n := 0\<rparr>"] by simp
  ultimately show ?thesis using s3(3) bio_relD(2) [OF s3(3)] by auto
qed

section \<open>Crashes\<close>

text \<open>The disk when the first \<open>k\<close> writes of a commit have been done, in the three phases.\<close>

lemma commit_prefix:
  fixes l C bs
  defines "h \<equiv> head_block l (C (lg_start l))" and "n \<equiv> length bs"
  assumes "k \<le> length (commit_writes l C bs)"
  obtains "k \<le> n" and "take k (commit_writes l C bs) = take k (logged_writes (lg_start l) C bs n)"
  | j where "n < k" and "j \<le> n" and
      "take k (commit_writes l C bs) = logged_writes (lg_start l) C bs n @ [(lg_start l, h)] @ map (\<lambda>b. (b, C b)) (take j bs)"
  | "n < k" and "take k (commit_writes l C bs) = logged_writes (lg_start l) C bs n @ [(lg_start l, h)] @ map (\<lambda>b. (b, C b)) bs @
      [(lg_start l, head_block (l\<lparr>lh_n := 0\<rparr>) h)]"
proof -
  have ll: "length (logged_writes (lg_start l) C bs n) = n" by (simp add: logged_writes_def)
  have lw: "length (commit_writes l C bs) = 2 * n + 2" using ll by (simp add: commit_writes_def Let_def n_def)
  consider "k \<le> n" | "n < k" "k \<le> 2 * n + 1" | "k = 2 * n + 2" using assms(3) lw by linarith
  then show ?thesis
  proof cases
    case 1
    then have "take k (commit_writes l C bs) = take k (logged_writes (lg_start l) C bs n)"
      using ll by (simp add: commit_writes_def Let_def n_def)
    with 1 show ?thesis by (rule that(1))
  next
    case 2
    define j where "j = k - n - 1"
    then have k: "k = n + Suc j" and j: "j \<le> n" using 2 by simp_all
    have "take k (commit_writes l C bs) =
        logged_writes (lg_start l) C bs n @ [(lg_start l, h)] @ map (\<lambda>b. (b, C b)) (take j bs)"
      using ll j unfolding k by (simp add: commit_writes_def Let_def n_def h_def take_map)
    with 2(1) j show ?thesis by (rule that(2))
  next
    case 3
    have "take k (commit_writes l C bs) = commit_writes l C bs" using lw 3 by simp
    then show ?thesis using that(3) 3 by (simp add: commit_writes_def Let_def n_def h_def)
  qed
qed

text \<open>After the header with the block list is on disk, replaying it restores every logged block.\<close>

lemma replay_home:
  assumes t: "txn s C D {} bs" and b: "b \<notin> log_region (lg_start (lg s))"
    and d: "\<And>j. j < length bs \<Longrightarrow> d (lg_start (lg s) + of_nat j + 1) = C (bs ! j)"
    and other: "b \<notin> set bs \<Longrightarrow> d b = D b"
  shows "apply_writes d (home_writes (lg_start (lg s)) d bs (length bs)) b = C b"
proof (cases "b \<in> set bs")
  case True
  show ?thesis
  proof (rule apply_writes_in)
    from True obtain j where "j < length bs" "bs ! j = b" by (auto simp: in_set_conv_nth)
    then show "(b, C b) \<in> set (home_writes (lg_start (lg s)) d bs (length bs))"
      using d [of j] by (force simp: home_writes_def)
    fix d' assume "(b, d') \<in> set (home_writes (lg_start (lg s)) d bs (length bs))"
    then show "d' = C b" using d by (auto simp: home_writes_def)
  qed
next
  case False
  then have "b \<notin> fst ` set (home_writes (lg_start (lg s)) d bs (length bs))"
    by (auto simp: home_writes_def)
  moreover have "D b = C b" using t False bio_relD(8) [of _ s C D "{}" "set bs" b] by (auto simp: txn_def)
  ultimately show ?thesis using False other by (simp add: apply_writes_other)
qed

lemma crash_recovery:
  assumes t: "txn s C D {} bs" and k: "k \<le> length (commit_writes (lg s) C bs)"
    and rel: "bio_rel dev s0 d d {} {}" and d: "d = apply_writes D (take k (commit_writes (lg s) C bs))"
    and l0: "lg_dev (lg s0) = dev" "lg_start (lg s0) = lg_start (lg s)"
  shows "\<exists>s1. recover_from_log s0 = Ok s1 \<and>
           (\<forall>b. b \<notin> log_region (lg_start (lg s)) \<longrightarrow> disk s1 b = (if k \<le> length bs then D b else C b))"
proof -
  let ?l = "lg s" and ?n = "length bs"
  let ?start = "lg_start ?l" and ?A = "logged_writes (lg_start ?l) C bs ?n"
  let ?h = "head_block ?l (C ?start)"
  note T = t [unfolded txn_def]
  have Areg: "fst ` set ?A \<subseteq> log_region ?start"
    using T by (auto simp: logged_writes_def log_region_block)
  have nb: "?n < 2 ^ 31" using T by (simp add: LOGBLOCKS_def MAXOPBLOCKS_def)
  from k show ?thesis
  proof (cases rule: commit_prefix)
    case 1
    have sub: "fst ` set (take k ?A) \<subseteq> fst ` set ?A" by (auto dest: in_set_takeD)
    have "?start \<notin> fst ` set (take k ?A)" using T sub logged_not_start [of bs ?start C] by blast
    then have "d ?start = D ?start" using d 1(2) by (simp add: apply_writes_other)
    then have "sint (ld32 (d ?start) 0) = int (length ([] :: uint32 list))" using T by simp
    from recover_rel [OF rel l0 this] obtain s1 h where
      s1: "recover_from_log s0 = Ok s1" "disk s1 = d(?start := h)" by (auto simp: home_writes_def)
    have "disk s1 b = D b" if b: "b \<notin> log_region ?start" for b
    proof -
      have "b \<noteq> ?start" "b \<notin> fst ` set (take k ?A)" using b Areg sub log_region_start [of ?start] by blast+
      then show ?thesis using s1(2) d 1(2) by (simp add: apply_writes_other)
    qed
    then show ?thesis using s1(1) 1(1) by simp
  next
    case (2 j)
    have dd: "d = apply_writes ((apply_writes D ?A)(?start := ?h)) (map (\<lambda>b. (b, C b)) (take j bs))"
      using d 2(3) by (simp add: apply_writes_def)
    have st: "?start \<notin> set bs" using T log_region_start [of ?start] by blast
    then have "?start \<notin> fst ` set (map (\<lambda>b. (b, C b)) (take j bs))" by (auto dest: in_set_takeD)
    then have ds: "d ?start = ?h"
      by (simp add: dd apply_writes_other)
    have dl: "d (?start + of_nat i + 1) = C (bs ! i)" if i: "i < ?n" for i
    proof -
      have "?start + of_nat i + 1 \<in> log_region ?start" using i T by (intro log_region_block) simp
      then have "?start + of_nat i + 1 \<notin> fst ` set (map (\<lambda>b. (b, C b)) (take j bs))"
        using T by (auto dest: in_set_takeD)
      then show ?thesis
        using apply_logged [OF i, of D] T log_addr_not_start [of i ?start] i
        by (simp add: dd apply_writes_other)
    qed
    have "sint (ld32 (d ?start) 0) = int ?n" and "\<And>i. i < ?n \<Longrightarrow> ld32 (d ?start) (4 + 4 * i) = bs ! i"
      using T head_block_read [where l = ?l and d = "C ?start"] nb by (simp_all add: ds)
    from recover_rel [OF rel l0 this] T obtain s1 h where
      s1: "recover_from_log s0 = Ok s1" "disk s1 = (apply_writes d (home_writes ?start d bs ?n))(?start := h)" by auto
    have "disk s1 b = C b" if b: "b \<notin> log_region ?start" for b
    proof -
      have bs: "b \<noteq> ?start" "b \<notin> fst ` set ?A" using b Areg log_region_start [of ?start] by blast+
      have "d b = D b" if "b \<notin> set bs"
      proof -
        have "b \<notin> fst ` set (map (\<lambda>b. (b, C b)) (take j bs))" using that by (auto dest: in_set_takeD)
        then show ?thesis
          using bs by (simp add: dd apply_writes_other)
      qed
      then show ?thesis using s1(2) bs replay_home [OF t b dl] by simp
    qed
    then show ?thesis using s1(1) 2(1) by auto
  next
    case 3
    let ?B = "map (\<lambda>b. (b, C b)) bs" and ?hz = "head_block (?l\<lparr>lh_n := 0\<rparr>) ?h"
    have dd: "d = (apply_writes ((apply_writes D ?A)(?start := ?h)) ?B)(?start := ?hz)"
      using d 3(2) by (simp add: apply_writes_def)
    then have "sint (ld32 (d ?start) 0) = int (length ([] :: uint32 list))"
      using head_block_read(1) [of "?l\<lparr>lh_n := 0\<rparr>" ?h] by simp
    from recover_rel [OF rel l0 this] obtain s1 h where
      s1: "recover_from_log s0 = Ok s1" "disk s1 = d(?start := h)" by (auto simp: home_writes_def)
    have "disk s1 b = C b" if b: "b \<notin> log_region ?start" for b
    proof -
      have bs: "b \<noteq> ?start" "b \<notin> fst ` set ?A" using b Areg log_region_start [of ?start] by blast+
      have "apply_writes ((apply_writes D ?A)(?start := ?h)) ?B b = C b"
      proof (cases "b \<in> set bs")
        case True
        then show ?thesis by (intro apply_writes_in) auto
      next
        case False
        then have "b \<notin> fst ` set ?B" by auto
        then have "apply_writes ((apply_writes D ?A)(?start := ?h)) ?B b = D b"
          using bs by (simp add: apply_writes_other)
        also have "D b = C b" using T False bio_relD(8) [of _ s C D "{}" "set bs" b] by auto
        finally show ?thesis .
      qed
      then show ?thesis using s1(2) bs dd by simp
    qed
    then show ?thesis using s1(1) 3(1) by auto
  qed
qed

section \<open>Logging a block\<close>

lemma absorb_index_logged:
  assumes "txn s C D L bs"
  shows "b \<in> set bs \<Longrightarrow> absorb_index (lg s) b < length bs \<and> bs ! absorb_index (lg s) b = b"
    and "b \<notin> set bs \<Longrightarrow> absorb_index (lg s) b = length bs"
proof -
  note T = assms [unfolded txn_def]
  have n: "nat (lh_n (lg s)) = length bs" using T by simp
  show "absorb_index (lg s) b < length bs \<and> bs ! absorb_index (lg s) b = b" if b: "b \<in> set bs"
  proof -
    obtain i where "i < length bs" "lh_block (lg s) i = b" using b T by (auto simp: in_set_conv_nth)
    then obtain j where j: "scan (\<lambda>i. lh_block (lg s) i = b) (length bs) = Some j"
      using scan_total [of i "length bs" "\<lambda>i. lh_block (lg s) i = b"] by blast
    then have "j < length bs" "bs ! j = b" using T by (auto simp: scan_Some_iff)
    with j show ?thesis by (simp add: absorb_index_def n)
  qed
  show "absorb_index (lg s) b = length bs" if "b \<notin> set bs"
  proof -
    have "scan (\<lambda>i. lh_block (lg s) i = b) (length bs) = None"
      using T that by (auto simp: scan_None_iff dest: nth_mem)
    then show ?thesis by (simp add: absorb_index_def n)
  qed
qed

lemma log_write_txn:
  assumes t: "txn s C D L bs" and i: "bufs_for (lg_dev (lg s)) s i b" and b: "b \<in> L" "b \<notin> log_region (lg_start (lg s))"
    and room: "length bs < LOGBLOCKS" and out: "1 \<le> lg_outstanding (lg s)"
  defines "bs' \<equiv> if b \<in> set bs then bs else bs @ [b]"
  shows "\<exists>s'. log_write s i = Ok s' \<and> txn s' C D L bs' \<and> bufs_for (lg_dev (lg s)) s' = bufs_for (lg_dev (lg s)) s \<and>
           lg s' = (lg s)\<lparr>lh_n := int (length bs'), lh_block := lh_block (lg s')\<rparr> \<and> dtrace s' = dtrace s"
proof -
  note T = t [unfolded txn_def]
  have bn: "b_blockno (bufs s i) = b" using i by (simp add: bufs_for_def)
  have ok: "\<not> lh_n (lg s) \<ge> int LOGBLOCKS" "\<not> lg_outstanding (lg s) < 1" using T room out by auto
  show ?thesis
  proof (cases "b \<in> set bs")
    case True
    note a = absorb_index_logged(1) [OF t True]
    then have "(lh_block (lg s))(absorb_index (lg s) b := b) = lh_block (lg s)"
      using T by (intro fun_upd_idem) simp
    then have "log_write s i = Ok (s\<lparr>lg := lg s\<rparr>)"
      using ok a T bn by (simp add: log_write_def Let_def)
    then show ?thesis using t True T by (simp add: bs'_def)
  next
    case False
    have a: "absorb_index (lg s) b = length bs" by (rule absorb_index_logged(2) [OF t False])
    let ?l = "(lg s)\<lparr>lh_block := (lh_block (lg s))(length bs := b)\<rparr>"
    let ?s = "(bpin (s\<lparr>lg := ?l\<rparr>) i)\<lparr>lg := ?l\<lparr>lh_n := lh_n (lg s) + 1\<rparr>\<rparr>"
    have lgp: "lg (bpin (s\<lparr>lg := ?l\<rparr>) i) = ?l" by (simp add: bpin_def)
    have "log_write s i = Ok ?s"
      using ok a T bn lgp by (simp add: log_write_def Let_def)
    moreover have "bio_rel (lg_dev (lg s)) ?s C D L (insert b (set bs))"
      using bpin_rel [of "lg_dev (lg s)" "s\<lparr>lg := ?l\<rparr>" C D L "set bs" i b] T i b False by simp
    then have "txn ?s C D L (bs @ [b])"
      using T False b(2) room by (auto simp: txn_def nth_append less_Suc_eq)
    moreover have "bufs_for (lg_dev (lg s)) ?s = bufs_for (lg_dev (lg s)) s"
      by (intro ext) simp
    ultimately show ?thesis using T False by (simp add: bs'_def)
  qed
qed

section \<open>Properties\<close>

text \<open>
  C1. Crash atomicity. Committing a transaction succeeds and performs a sequence \<open>W\<close> of block writes.
  If the machine stops after any number \<open>k\<close> of them, then booting with the disk as it was left
  (\<open>binit\<close>, then \<open>initlog\<close>) succeeds and every block outside the log has its old contents if the
  header had not been written, and its new contents if it had: all of the transaction or
  none. The completed commit leaves the new contents.
\<close>

theorem log_crash_atomic:
  fixes s :: "'a lstate_scheme"
  assumes "txn s C D {} bs" and "0 < length bs" and "length bs < NBUF"
  shows "\<exists>s' W. commit s = Ok s' \<and> dtrace s' = dtrace s @ W \<and> disk s' = apply_writes D W \<and>
     (\<forall>k. \<forall>s0 :: 'a lstate_scheme. k \<le> length W \<longrightarrow> disk s0 = apply_writes D (take k W) \<longrightarrow>
        (\<exists>s1. initlog (binit s0) (lg_dev (lg s)) (lg_start (lg s)) = Ok s1 \<and>
           (\<forall>b. b \<notin> log_region (lg_start (lg s)) \<longrightarrow> disk s1 b = (if k \<le> length bs then D b else C b))))"
proof -
  let ?W = "commit_writes (lg s) C bs"
  from commit_rel [OF assms] obtain s' where s': "commit s = Ok s'" "dtrace s' = dtrace s @ ?W" "disk s' = apply_writes D ?W"
    using bio_relD(2) by blast
  have dev: "lg_dev (lg s) \<noteq> 0" using assms(1) by (auto simp: txn_def dest: bio_relD(1))
  have "\<exists>s1. initlog (binit s0) (lg_dev (lg s)) (lg_start (lg s)) = Ok s1 \<and>
      (\<forall>b. b \<notin> log_region (lg_start (lg s)) \<longrightarrow> disk s1 b = (if k \<le> length bs then D b else C b))"
    if k: "k \<le> length ?W" "disk s0 = apply_writes D (take k ?W)" for k and s0 :: "'a lstate_scheme"
  proof -
    let ?s = "(binit s0)\<lparr>lg := (lg (binit s0))\<lparr>lg_start := lg_start (lg s), lg_dev := lg_dev (lg s)\<rparr>\<rparr>"
    have "bio_rel (lg_dev (lg s)) ?s (disk s0) (disk s0) {} {}" using binit_rel [OF dev, of s0] by simp
    from crash_recovery [OF assms(1) k(1) this k(2)] show ?thesis
      by (simp add: initlog_def LOGBLOCKS_def MAXOPBLOCKS_def BSIZE_def)
  qed
  with s' show ?thesis by (intro exI [of _ s'] exI [of _ ?W]) simp
qed

text \<open>One logged block: block 50 of an otherwise zero disk holds ones in the cache.\<close>

definition one_logged :: lstate where
  "one_logged = \<lparr>phys = (\<lambda>_. 0), freelist = 0, kend = 0, mypid = 1, wakes = [], disk = (\<lambda>_ _. 0), dtrace = [],
     bufs = (\<lambda>i. if i = 0
        then \<lparr>b_valid = True, b_dev = 1, b_blockno = 50, b_lock = initsleeplock, b_refcnt = 1, b_data = (\<lambda>_. 1)\<rparr>
        else \<lparr>b_valid = False, b_dev = 0, b_blockno = 0, b_lock = initsleeplock, b_refcnt = 0, b_data = (\<lambda>_. 0)\<rparr>),
     lru = [0..<NBUF],
     lg = \<lparr>lg_start = 2, lg_outstanding = 1, lg_committing = False, lg_dev = 1, lh_n = 1, lh_block = (\<lambda>_. 50)\<rparr>\<rparr>"

lemma one_logged_txn: "txn one_logged ((\<lambda>_ _. 0)(50 := (\<lambda>_. 1))) (\<lambda>_ _. 0) {} [50]"
proof -
  have "ld32 (\<lambda>_. 0) 0 = 0" by (simp add: ld32_def blk_get_def numeral_eq_Suc)
  moreover have "50 \<notin> log_region 2"
  proof
    assume "50 \<in> log_region 2"
    then obtain k where k: "k \<le> 30" "(50 :: uint32) = 2 + of_nat k"
      by (auto simp: log_region_def LOGBLOCKS_def MAXOPBLOCKS_def)
    then have "(of_nat k :: uint32) = 48" by (simp add: algebra_simps)
    then have "unat (of_nat k :: uint32) = 48" by simp
    then show False using k(1) by (simp add: unat_of_nat_small)
  qed
  moreover have "bio_rel 1 one_logged ((\<lambda>_ _. 0)(50 := (\<lambda>_. 1))) (\<lambda>_ _. 0) {} {50}"
    by (rule bio_relI) (auto simp: one_logged_def buf_ok_def bufs_for_def initsleeplock_def NBUF_def split: if_splits)
  ultimately show ?thesis
    by (simp add: txn_def one_logged_def LOGBLOCKS_def MAXOPBLOCKS_def)
qed

theorem log_crash_atomic_witness:
  "\<exists>s' W. commit one_logged = Ok s' \<and> dtrace s' = W \<and>
     (\<forall>k. \<forall>s0 :: lstate. k \<le> length W \<longrightarrow> disk s0 = apply_writes (\<lambda>_ _. 0) (take k W) \<longrightarrow>
        (\<exists>s1. initlog (binit s0) 1 2 = Ok s1 \<and>
           (50 \<notin> log_region 2 \<longrightarrow> disk s1 50 = (if k \<le> 1 then (\<lambda>_. 0) else (\<lambda>_. 1)))))"
proof -
  have "lg_dev (lg one_logged) = 1" "lg_start (lg one_logged) = 2" "dtrace one_logged = []"
    by (simp_all add: one_logged_def)
  moreover have "0 < length [50 :: uint32]" "length [50 :: uint32] < NBUF" by (simp_all add: NBUF_def)
  from log_crash_atomic [OF one_logged_txn this] obtain s' W where
    "commit one_logged = Ok s'" "dtrace s' = dtrace one_logged @ W"
    "\<forall>k. \<forall>s0 :: lstate. k \<le> length W \<longrightarrow> disk s0 = apply_writes (\<lambda>_ _. 0) (take k W) \<longrightarrow>
        (\<exists>s1. initlog (binit s0) (lg_dev (lg one_logged)) (lg_start (lg one_logged)) = Ok s1 \<and>
           (\<forall>b. b \<notin> log_region (lg_start (lg one_logged)) \<longrightarrow>
              disk s1 b = (if k \<le> length [50 :: uint32] then (\<lambda>_. 0) else ((\<lambda>_ _. 0)(50 := (\<lambda>_. 1))) b)))"
    by blast
  ultimately show ?thesis by (intro exI [of _ s'] exI [of _ W]) fastforce
qed

text \<open>
  \<open>log_write\<close> of a locked block inside a transaction adds the block to the log once: a block that is
  already logged is absorbed, a new one is pinned and appended. It neither panics nor writes to
  the disk, and every block keeps its contents.
\<close>

theorem log_write_absorbs:
  assumes "txn s C D L bs" and "bufs_for (lg_dev (lg s)) s i b" and "b \<in> L" and "b \<notin> log_region (lg_start (lg s))"
    and "length bs < LOGBLOCKS" and "1 \<le> lg_outstanding (lg s)"
  shows "\<exists>s'. log_write s i = Ok s' \<and> txn s' C D L (if b \<in> set bs then bs else bs @ [b]) \<and> disk s' = disk s"
proof -
  obtain s' where s': "log_write s i = Ok s'" "txn s' C D L (if b \<in> set bs then bs else bs @ [b])"
    using log_write_txn [OF assms] by blast
  moreover have "disk s' = disk s"
    using s'(2) assms(1) by (auto simp: txn_def dest!: bio_relD(2))
  ultimately show ?thesis by blast
qed

theorem log_write_absorbs_witness:
  "\<exists>i s1 s2. bread one_logged 1 50 = Ok (i, s1) \<and> log_write s1 i = Ok s2 \<and> lh_n (lg s2) = 1"
proof -
  have rel: "bio_rel 1 one_logged ((\<lambda>_ _. 0)(50 := (\<lambda>_. 1))) (\<lambda>_ _. 0) {} (set [50])"
    and lg: "lg_dev (lg one_logged) = 1" "lg_start (lg one_logged) = 2" "lg_outstanding (lg one_logged) = 1"
    using one_logged_txn by (simp_all add: txn_def one_logged_def)
  obtain i s1 where s1: "bread one_logged 1 50 = Ok (i, s1)" "bufs_for 1 s1 i 50" "bio_frame one_logged s1"
      "bio_rel 1 s1 ((\<lambda>_ _. 0)(50 := (\<lambda>_. 1))) (\<lambda>_ _. 0) (insert 50 {}) (set [50])"
    by (rule bread_rel [OF rel, of 50]) auto
  have l1: "lg s1 = lg one_logged" by (rule lg_frame [OF s1(3)])
  have t1: "txn s1 ((\<lambda>_ _. 0)(50 := (\<lambda>_. 1))) (\<lambda>_ _. 0) {50} [50]"
    using one_logged_txn s1(4) lg by (simp add: txn_def l1)
  moreover have "50 \<notin> log_region 2" using one_logged_txn lg by (simp add: txn_def)
  ultimately obtain s2 where "log_write s1 i = Ok s2" "txn s2 ((\<lambda>_ _. 0)(50 := (\<lambda>_. 1))) (\<lambda>_ _. 0) {50} [50]"
    using log_write_absorbs [OF t1, of i 50] s1(2) lg by (auto simp: l1 LOGBLOCKS_def MAXOPBLOCKS_def)
  then show ?thesis using s1(1) by (auto simp: txn_def)
qed

text \<open>
  The cache operations never touch the log's state, whether or not the cache is in a sensible state.
\<close>

lemma bio_ops_lg:
  fixes s :: "'a lstate_scheme"
  shows "bread s dev b = Ok (i, s') \<Longrightarrow> lg s' = lg s" and "bwrite s i = Ok s' \<Longrightarrow> lg s' = lg s"
    and "brelse s i = Ok s' \<Longrightarrow> lg s' = lg s" and "lg (set_data i d s) = lg s" and "lg (bpin s i) = lg s"
    and "lg (bunpin s i) = lg s"
  by (auto simp: bread_def bget_def bwrite_def brelse_def virtio_transfer_def set_data_def bpin_def bunpin_def Let_def
      split: option.splits if_splits)

lemma write_log_lg: "write_log s = Ok s' \<Longrightarrow> lg s' = lg s"
  unfolding write_log_def
  by (rule for_upto_inv [where P = "\<lambda>i t. lg t = lg s"])
    (auto simp: write_log_block_def Let_def bio_ops_lg dest!: bio_ops_lg(1-3))

lemma write_head_lg: "write_head s = Ok s' \<Longrightarrow> lg s' = lg s"
  by (auto simp: write_head_def Let_def bio_ops_lg dest!: bio_ops_lg(1-3))

lemma install_trans_lg: "install_trans r s = Ok s' \<Longrightarrow> lg s' = lg s"
  unfolding install_trans_def
  by (rule for_upto_inv [where P = "\<lambda>i t. lg t = lg s"])
    (auto simp: install_block_def Let_def bio_ops_lg dest!: bio_ops_lg(1-3) split: if_splits)

lemma commit_lg: "commit s = Ok s' \<Longrightarrow> 0 \<le> lh_n (lg s) \<Longrightarrow> lg s' = (lg s)\<lparr>lh_n := 0\<rparr>"
  by (auto simp: commit_def split: if_splits dest!: write_log_lg write_head_lg install_trans_lg)

text \<open>
  The log as all system calls see it. \<open>os\<close> has an entry for every call between \<open>begin_op\<close> and \<open>end_op\<close>: how
  many blocks it has added to the log.
\<close>

inductive log_reach :: "'a lstate_scheme \<Rightarrow> nat list \<Rightarrow> bool" where
  start: "lh_n (lg s) = 0 \<Longrightarrow> lg_outstanding (lg s) = 0 \<Longrightarrow> \<not> lg_committing (lg s) \<Longrightarrow> log_reach s []"
| enter: "log_reach s os \<Longrightarrow> begin_op s = Ok s' \<Longrightarrow> log_reach s' (0 # os)"
| add: "log_reach s (os @ n # os') \<Longrightarrow> n < MAXOPBLOCKS \<Longrightarrow> log_write s i = Ok s' \<Longrightarrow>
    log_reach s' (os @ (if lh_n (lg s') = lh_n (lg s) then n else Suc n) # os')"
| finish: "log_reach s (os @ n # os') \<Longrightarrow> end_op s = Ok s' \<Longrightarrow> log_reach s' (os @ os')"
| other: "log_reach s os \<Longrightarrow> lg s' = lg s \<Longrightarrow> log_reach s' os"

lemma log_write_n:
  "log_write s i = Ok s' \<Longrightarrow> (lh_n (lg s') = lh_n (lg s) \<or> lh_n (lg s') = lh_n (lg s) + 1) \<and>
     lg_outstanding (lg s') = lg_outstanding (lg s) \<and> lg_committing (lg s') = lg_committing (lg s)"
  by (auto simp: log_write_def Let_def bio_ops_lg split: if_splits)

definition log_room :: "'a lstate_scheme \<Rightarrow> nat list \<Rightarrow> bool" where
  "log_room s os \<longleftrightarrow> 0 \<le> lh_n (lg s) \<and> lg_outstanding (lg s) = int (length os) \<and> \<not> lg_committing (lg s) \<and>
     (\<forall>n\<in>set os. n \<le> MAXOPBLOCKS) \<and>
     lh_n (lg s) + int (length os * MAXOPBLOCKS) \<le> int LOGBLOCKS + int (sum_list os)"

lemma sum_list_le_bound: "(\<And>n. n \<in> set os \<Longrightarrow> n \<le> m) \<Longrightarrow> sum_list os \<le> length os * m" for os :: "nat list"
  by (induction os) (auto intro: add_mono)

lemma log_reach_room: "log_reach s os \<Longrightarrow> log_room s os"
proof (induction rule: log_reach.induct)
  case (start s)
  then show ?case by (simp add: log_room_def)
next
  case (enter s os s')
  then show ?case
    using sum_list_le_bound [of os MAXOPBLOCKS]
    by (auto simp: log_room_def begin_op_def Let_def algebra_simps split: if_splits)
next
  case (add s os n os' i s')
  from log_write_n [OF add.hyps(3)] add.IH add.hyps(2) show ?case
    by (auto simp: log_room_def)
next
  case (finish s os n os' s')
  have n: "n \<le> MAXOPBLOCKS" using finish.IH by (simp add: log_room_def)
  show ?case
  proof (cases "os @ os' = []")
    case True
    then have "lg_outstanding (lg s) = 1" "\<not> lg_committing (lg s)" "0 \<le> lh_n (lg s)"
      using finish.IH by (auto simp: log_room_def)
    then show ?thesis
      using finish.hyps(2) True by (auto simp: end_op_def Let_def log_room_def dest!: commit_lg)
  next
    case False
    then have "lg_outstanding (lg s) \<noteq> 1" using finish.IH by (cases os; cases os') (auto simp: log_room_def)
    then have "lg s' = (lg s)\<lparr>lg_outstanding := lg_outstanding (lg s) - 1\<rparr>"
      using finish by (auto simp: end_op_def Let_def log_room_def split: if_splits)
    then show ?thesis using finish.IH n by (auto simp: log_room_def algebra_simps)
  qed
next
  case (other s os s')
  then show ?case by (simp add: log_room_def)
qed

text \<open>
  C10. The reservation made by \<open>begin_op\<close> is enough: in every state that system calls can reach, in any
  order and number, a call that has added fewer than \<open>MAXOPBLOCKS\<close> blocks to the log can write another one
  without \<open>log_write\<close> panicking, and the log never holds more than \<open>LOGBLOCKS\<close> blocks.
\<close>

theorem log_space_reserved:
  assumes "log_reach s (os @ n # os')" and "n < MAXOPBLOCKS"
  shows "is_ok (log_write s i) \<and> lh_n (lg s) < int LOGBLOCKS"
proof -
  note r = log_reach_room [OF assms(1), unfolded log_room_def]
  have "sum_list (os @ os') \<le> length (os @ os') * MAXOPBLOCKS" using r by (intro sum_list_le_bound) auto
  then have "int (sum_list (os @ os')) \<le> int (length (os @ os') * MAXOPBLOCKS)" by (simp only: of_nat_le_iff)
  then have "lh_n (lg s) < int LOGBLOCKS" using r assms(2) by (auto simp: algebra_simps)
  moreover have "1 \<le> lg_outstanding (lg s)" using r by simp
  ultimately show ?thesis by (auto simp: log_write_def Let_def)
qed

theorem log_space_reserved_witness:
  "log_reach (one_logged\<lparr>lg := (lg one_logged)\<lparr>lh_n := 0, lg_outstanding := 1\<rparr>\<rparr>) [0] \<and>
   is_ok (log_write (one_logged\<lparr>lg := (lg one_logged)\<lparr>lh_n := 0, lg_outstanding := 1\<rparr>\<rparr>) 0)"
proof -
  let ?s = "one_logged\<lparr>lg := (lg one_logged)\<lparr>lh_n := 0, lg_outstanding := 0\<rparr>\<rparr>"
  have "log_reach ?s []" by (rule log_reach.start) (simp_all add: one_logged_def)
  moreover have "begin_op ?s = Ok (one_logged\<lparr>lg := (lg one_logged)\<lparr>lh_n := 0, lg_outstanding := 1\<rparr>\<rparr>)"
    by (simp add: begin_op_def one_logged_def MAXOPBLOCKS_def LOGBLOCKS_def)
  ultimately have r: "log_reach (one_logged\<lparr>lg := (lg one_logged)\<lparr>lh_n := 0, lg_outstanding := 1\<rparr>\<rparr>) ([] @ 0 # [])"
    using log_reach.enter by force
  from log_space_reserved [OF r] r show ?thesis by (simp add: MAXOPBLOCKS_def)
qed

text \<open>
  C40. A transaction that fills the log cannot be committed: \<open>LOGBLOCKS\<close> pinned blocks occupy all \<open>NBUF\<close> buffers, so the
  first \<open>bread\<close> of \<open>write_log\<close> finds none to recycle and the kernel panics.
\<close>

theorem commit_full_log_panics:
  assumes t: "txn s C D {} bs" and len: "length bs = LOGBLOCKS"
  shows "commit s = Panic ''bget: no buffers''"
proof -
  note T = t [unfolded txn_def]
  let ?a = "lg_start (lg s) + of_nat 0 + 1"
  have n: "length bs = 30" "NBUF = 30" using len by (simp_all add: LOGBLOCKS_def MAXOPBLOCKS_def NBUF_def)
  have "?a \<notin> {} \<union> set bs" "NBUF \<le> card ({} \<union> set bs)"
    using T n log_region_block [of 0 "lg_start (lg s)"] distinct_card [of bs]
    by (auto simp: LOGBLOCKS_def MAXOPBLOCKS_def)
  with T have "bread s (lg_dev (lg s)) ?a = Panic ''bget: no buffers''"
    by (intro bread_full [of "lg_dev (lg s)" s C D "{}" "set bs"]) auto
  then have first: "write_log_block 0 s = Panic ''bget: no buffers''" by (simp add: write_log_block_def Let_def)
  have "for_upto (Suc n) write_log_block s = Panic ''bget: no buffers''" for n
    by (induction n) (simp_all add: first)
  moreover have "nat (lh_n (lg s)) = Suc 29" "0 < lh_n (lg s)" using T n by auto
  ultimately have "write_log s = Panic ''bget: no buffers''" by (simp only: write_log_def)
  then show ?thesis using \<open>0 < lh_n (lg s)\<close> by (simp add: commit_def)
qed

text \<open>Every buffer pinned: blocks 100 to 129 are logged.\<close>

definition full_logged :: lstate where
  "full_logged = one_logged\<lparr>
     bufs := (\<lambda>i. \<lparr>b_valid = True, b_dev = 1, b_blockno = 100 + of_nat i, b_lock = initsleeplock, b_refcnt = 1, b_data = (\<lambda>_. 0)\<rparr>),
     lg := (lg one_logged)\<lparr>lh_n := 30, lh_block := (\<lambda>i. 100 + of_nat i)\<rparr>\<rparr>"

lemma of_nat32_inj:
  assumes "(of_nat i :: uint32) = of_nat j" and "i < 2 ^ 32" and "j < 2 ^ 32"
  shows "i = j"
proof -
  have "unat (of_nat i :: uint32) = i" "unat (of_nat j :: uint32) = j"
    using assms(2,3) by (auto intro!: unat_of_nat_small)
  then show ?thesis using assms(1) by metis
qed

lemma full_logged_txn:
  "txn full_logged (\<lambda>_ _. 0) (\<lambda>_ _. 0) {} (map (\<lambda>i. 100 + of_nat i) [0..<LOGBLOCKS])"
proof -
  let ?bs = "map (\<lambda>i. 100 + of_nat i) [0..<LOGBLOCKS] :: uint32 list"
  have z: "ld32 (\<lambda>_. 0) 0 = 0" by (simp add: ld32_def blk_get_def numeral_eq_Suc)
  have L: "LOGBLOCKS = 30" by (simp add: LOGBLOCKS_def MAXOPBLOCKS_def)
  have S: "set ?bs = (\<lambda>i. 100 + of_nat i) ` {..<30}" unfolding set_map set_upt L by (simp add: lessThan_atLeast0)
  have d: "distinct ?bs" unfolding distinct_map set_upt L by (auto simp: inj_on_def dest!: of_nat32_inj)
  have dj: "set ?bs \<inter> log_region 2 = {}"
  proof -
    have False if "(100 :: uint32) + of_nat i = 2 + of_nat k" "i < 30" "k \<le> 30" for i k
    proof -
      have "(of_nat (98 + i) :: uint32) = of_nat k" using that(1) by (simp add: algebra_simps)
      from of_nat32_inj [OF this] that(2,3) show False by simp
    qed
    then show ?thesis unfolding S log_region_def L by auto
  qed
  have mem: "100 + of_nat i \<in> set ?bs" if "i < 30" for i using that unfolding S by blast
  have for': "bufs_for 1 full_logged i b \<longleftrightarrow> i < 30 \<and> 100 + of_nat i = b" for i b
    by (simp add: full_logged_def bufs_for_def NBUF_def)
  have "bio_rel 1 full_logged (\<lambda>_ _. 0) (\<lambda>_ _. 0) {} (set ?bs)"
  proof (rule bio_relI)
    show "buf_ok 1 (mypid full_logged) (\<lambda>_ _. 0) {} (set ?bs) (bufs full_logged i)" if "i < NBUF" for i
      using mem [of i] that by (simp add: full_logged_def buf_ok_def initsleeplock_def NBUF_def)
    show "i = j" if "bufs_for 1 full_logged i b" "bufs_for 1 full_logged j b" for i j b
      using that unfolding for' by (auto dest!: of_nat32_inj)
    show "\<exists>i. bufs_for 1 full_logged i b" if "b \<in> {} \<union> set ?bs" for b
      using that unfolding for' S by auto
  qed (auto simp: full_logged_def one_logged_def)
  moreover have "lg_dev (lg full_logged) = 1" "lg_start (lg full_logged) = 2" "lh_n (lg full_logged) = int LOGBLOCKS"
    "\<And>k. lh_block (lg full_logged) k = 100 + of_nat k" "disk full_logged = (\<lambda>_ _. 0)"
    by (simp_all add: full_logged_def one_logged_def L)
  ultimately show ?thesis using z d dj unfolding txn_def by simp
qed

theorem commit_full_log_panics_witness: "commit full_logged = Panic ''bget: no buffers''"
  using commit_full_log_panics [OF full_logged_txn] by simp

end
