(* ===== verification/Fs.thy ===== *)
theory Fs
  imports Journal Cstring
begin

text \<open>
  \<open>kernel/fs.c\<close>: the block allocator, inodes, file contents, directories and path names, on top of
  the log and the buffer cache. An inode pointer is an index of the inode table; a null result
  is \<open>None\<close>. \<open>readi\<close> and \<open>writei\<close> take the copy they make per block (\<open>either_copyout\<close>,
  \<open>either_copyin\<close>) as an argument over the whole state, so that the same definition serves a
  kernel address, a local variable of the caller and a user address. The spinlock \<open>itable.lock\<close>
  is held for the whole of each table operation, which is one step here.
\<close>

section \<open>Layout and state\<close>

definition ROOTINO :: uint32 where "ROOTINO = 1"
definition ROOTDEV :: uint32 where "ROOTDEV = 1"
definition FSMAGIC :: uint32 where "FSMAGIC = 0x10203040"
definition NDIRECT :: nat where "NDIRECT = 12"
definition NINDIRECT :: nat where "NINDIRECT = BSIZE div 4"
definition MAXFILE :: nat where "MAXFILE = NDIRECT + NINDIRECT"
definition DINODE_SIZE :: nat where "DINODE_SIZE = 64"
definition IPB :: nat where "IPB = BSIZE div DINODE_SIZE"
definition BPB :: nat where "BPB = BSIZE * 8"
definition DIRSIZ :: nat where "DIRSIZ = 14"
definition DIRENT_SIZE :: nat where "DIRENT_SIZE = 16"
definition NINODE :: nat where "NINODE = 50"

definition T_DIR :: uint16 where "T_DIR = 1"
definition T_FILE :: uint16 where "T_FILE = 2"
definition T_DEVICE :: uint16 where "T_DEVICE = 3"

record superblock =
  sb_magic :: uint32
  sb_size :: uint32
  sb_nblocks :: uint32
  sb_ninodes :: uint32
  sb_nlog :: uint32
  sb_logstart :: uint32
  sb_inodestart :: uint32
  sb_bmapstart :: uint32

record inode =
  i_dev :: uint32
  i_inum :: uint32
  i_ref :: int
  i_lock :: sleeplock
  i_valid :: bool
  i_type :: uint16
  i_major :: uint16
  i_minor :: uint16
  i_nlink :: uint16
  i_size :: uint32
  i_addrs :: "nat \<Rightarrow> uint32"

record fstate = lstate +
  sb :: superblock
  itable :: "nat \<Rightarrow> inode"

definition upd_inode :: "nat \<Rightarrow> (inode \<Rightarrow> inode) \<Rightarrow> 'a fstate_scheme \<Rightarrow> 'a fstate_scheme" where
  "upd_inode ip f s = s\<lparr>itable := (itable s)(ip := f (itable s ip))\<rparr>"

definition IBLOCK :: "nat \<Rightarrow> superblock \<Rightarrow> uint32" where
  "IBLOCK i b = of_nat (i div IPB) + sb_inodestart b"

definition BBLOCK :: "nat \<Rightarrow> superblock \<Rightarrow> uint32" where
  "BBLOCK b sblk = of_nat (b div BPB) + sb_bmapstart sblk"

section \<open>Blocks\<close>

text \<open>\<open>memmove(sb, bp->data, sizeof(*sb))\<close>: eight words.\<close>

definition get_superblock :: "bytes \<Rightarrow> superblock" where
  "get_superblock d =
     \<lparr>sb_magic = ld32 d 0, sb_size = ld32 d 4, sb_nblocks = ld32 d 8, sb_ninodes = ld32 d 12,
      sb_nlog = ld32 d 16, sb_logstart = ld32 d 20, sb_inodestart = ld32 d 24, sb_bmapstart = ld32 d 28\<rparr>"

definition readsb :: "'a fstate_scheme \<Rightarrow> uint32 \<Rightarrow> 'a fstate_scheme res" where
  "readsb s dev =
     bindr (bread s dev 1) (\<lambda>(bp, s). brelse (s\<lparr>sb := get_superblock (b_data (bufs s bp))\<rparr>) bp)"

text \<open>\<open>log_write(bp); brelse(bp);\<close> after new contents have been stored in the buffer.\<close>

definition put_block :: "'a fstate_scheme \<Rightarrow> nat \<Rightarrow> bytes \<Rightarrow> 'a fstate_scheme res" where
  "put_block s bp d = bindr (log_write (set_data bp d s) bp) (\<lambda>s. brelse s bp)"

definition zero_block :: "bytes \<Rightarrow> bytes" where
  "zero_block d = (\<lambda>i. if i < BSIZE then 0 else d i)"

definition bzero :: "'a fstate_scheme \<Rightarrow> uint32 \<Rightarrow> uint32 \<Rightarrow> 'a fstate_scheme res" where
  "bzero s dev bno = bindr (bread s dev bno) (\<lambda>(bp, s). put_block s bp (zero_block (b_data (bufs s bp))))"

definition bit_mask :: "nat \<Rightarrow> uint8" where "bit_mask bi = push_bit (bi mod 8) 1"

definition bit_used :: "bytes \<Rightarrow> nat \<Rightarrow> bool" where
  "bit_used d bi \<longleftrightarrow> d (bi div 8) AND bit_mask bi \<noteq> 0"

definition bit_set :: "bytes \<Rightarrow> nat \<Rightarrow> bytes" where
  "bit_set d bi = d(bi div 8 := d (bi div 8) OR bit_mask bi)"

definition bit_clear :: "bytes \<Rightarrow> nat \<Rightarrow> bytes" where
  "bit_clear d bi = d(bi div 8 := d (bi div 8) AND NOT (bit_mask bi))"

text \<open>
  The loop of \<open>balloc\<close> from block \<open>b\<close> on; the result 0 is "out of blocks". The loops over the disk
  take the superblock, which no operation below changes, as an argument.
\<close>

function balloc_from :: "'a fstate_scheme \<Rightarrow> superblock \<Rightarrow> uint32 \<Rightarrow> nat \<Rightarrow> (uint32 \<times> 'a fstate_scheme) res" where
  "balloc_from s sblk dev b =
     (if b < unat (sb_size sblk) then
        bindr (bread s dev (BBLOCK b sblk)) (\<lambda>(bp, s).
          case scan (\<lambda>bi. \<not> bit_used (b_data (bufs s bp)) bi) (min BPB (unat (sb_size sblk) - b)) of
            Some bi \<Rightarrow>
              bindr (put_block s bp (bit_set (b_data (bufs s bp)) bi)) (\<lambda>s.
              bindr (bzero s dev (of_nat (b + bi))) (\<lambda>s. Ok (of_nat (b + bi), s)))
          | None \<Rightarrow> bindr (brelse s bp) (\<lambda>s. balloc_from s sblk dev (b + BPB)))
      else Ok (0, s))"
  by pat_completeness auto
termination
  by (relation "measure (\<lambda>(_, sblk, _, b). unat (sb_size sblk) - b)") (auto simp: BPB_def BSIZE_def)

declare balloc_from.simps [simp del]

definition balloc :: "'a fstate_scheme \<Rightarrow> uint32 \<Rightarrow> (uint32 \<times> 'a fstate_scheme) res" where
  "balloc s dev = balloc_from s (sb s) dev 0"

definition bfree :: "'a fstate_scheme \<Rightarrow> uint32 \<Rightarrow> uint32 \<Rightarrow> 'a fstate_scheme res" where
  "bfree s dev b =
     bindr (bread s dev (BBLOCK (unat b) (sb s))) (\<lambda>(bp, s).
       let bi = unat b mod BPB; d = b_data (bufs s bp) in
       if \<not> bit_used d bi then Panic ''freeing free block''
       else put_block s bp (bit_clear d bi))"

section \<open>Inodes\<close>

definition iinit :: "'a fstate_scheme \<Rightarrow> 'a fstate_scheme" where
  "iinit s = s\<lparr>itable := (\<lambda>i. if i < NINODE then (itable s i)\<lparr>i_lock := initsleeplock\<rparr> else itable s i)\<rparr>"

definition iget :: "'a fstate_scheme \<Rightarrow> uint32 \<Rightarrow> uint32 \<Rightarrow> (nat \<times> 'a fstate_scheme) res" where
  "iget s dev inum =
     (case scan (\<lambda>i. i_ref (itable s i) > 0 \<and> i_dev (itable s i) = dev \<and> i_inum (itable s i) = inum) NINODE of
        Some ip \<Rightarrow> Ok (ip, upd_inode ip (\<lambda>i. i\<lparr>i_ref := i_ref i + 1\<rparr>) s)
      | None \<Rightarrow>
          (case scan (\<lambda>i. i_ref (itable s i) = 0) NINODE of
             Some ip \<Rightarrow>
               Ok (ip, upd_inode ip (\<lambda>i. i\<lparr>i_dev := dev, i_inum := inum, i_ref := 1, i_valid := False\<rparr>) s)
           | None \<Rightarrow> Panic ''iget: no inodes''))"

definition dinode_off :: "nat \<Rightarrow> nat" where "dinode_off inum = (inum mod IPB) * DINODE_SIZE"

text \<open>The fields of a \<open>struct dinode\<close> at byte \<open>o\<close> of its block, read into and written from an inode.\<close>

definition get_dinode :: "bytes \<Rightarrow> nat \<Rightarrow> inode \<Rightarrow> inode" where
  "get_dinode d off i =
     i\<lparr>i_type := ld16 d off, i_major := ld16 d (off + 2), i_minor := ld16 d (off + 4),
       i_nlink := ld16 d (off + 6), i_size := ld32 d (off + 8),
       i_addrs := (\<lambda>k. if k \<le> NDIRECT then ld32 d (off + 12 + 4 * k) else i_addrs i k)\<rparr>"

primrec put_addrs :: "nat \<Rightarrow> (nat \<Rightarrow> uint32) \<Rightarrow> nat \<Rightarrow> bytes \<Rightarrow> bytes" where
  "put_addrs 0 a off d = d"
| "put_addrs (Suc n) a off d = sd32 (put_addrs n a off d) (off + 4 * n) (a n)"

definition put_dinode :: "inode \<Rightarrow> nat \<Rightarrow> bytes \<Rightarrow> bytes" where
  "put_dinode i off d =
     put_addrs (NDIRECT + 1) (i_addrs i) (off + 12)
       (sd32 (sd16 (sd16 (sd16 (sd16 d off (i_type i)) (off + 2) (i_major i)) (off + 4) (i_minor i))
         (off + 6) (i_nlink i)) (off + 8) (i_size i))"

text \<open>\<open>memset(dip, 0, sizeof(*dip)); dip->type = type;\<close>\<close>

definition fresh_dinode :: "uint16 \<Rightarrow> nat \<Rightarrow> bytes \<Rightarrow> bytes" where
  "fresh_dinode type off d = sd16 (\<lambda>i. if off \<le> i \<and> i < off + DINODE_SIZE then 0 else d i) off type"

function ialloc_from :: "'a fstate_scheme \<Rightarrow> superblock \<Rightarrow> uint32 \<Rightarrow> uint16 \<Rightarrow> nat \<Rightarrow> (nat option \<times> 'a fstate_scheme) res" where
  "ialloc_from s sblk dev type inum =
     (if inum < unat (sb_ninodes sblk) then
        bindr (bread s dev (IBLOCK inum sblk)) (\<lambda>(bp, s).
          let d = b_data (bufs s bp); off = dinode_off inum in
          if ld16 d off = 0 then
            bindr (put_block s bp (fresh_dinode type off d)) (\<lambda>s.
            bindr (iget s dev (of_nat inum)) (\<lambda>(ip, s). Ok (Some ip, s)))
          else bindr (brelse s bp) (\<lambda>s. ialloc_from s sblk dev type (inum + 1)))
      else Ok (None, s))"
  by pat_completeness auto
termination
  by (relation "measure (\<lambda>(_, sblk, _, _, inum). unat (sb_ninodes sblk) - inum)") auto

declare ialloc_from.simps [simp del]

definition ialloc :: "'a fstate_scheme \<Rightarrow> uint32 \<Rightarrow> uint16 \<Rightarrow> (nat option \<times> 'a fstate_scheme) res" where
  "ialloc s dev type = ialloc_from s (sb s) dev type 1"

definition iupdate :: "'a fstate_scheme \<Rightarrow> nat \<Rightarrow> 'a fstate_scheme res" where
  "iupdate s ip =
     (let i = itable s ip; inum = unat (i_inum i) in
      bindr (bread s (i_dev i) (IBLOCK inum (sb s))) (\<lambda>(bp, s).
        put_block s bp (put_dinode i (dinode_off inum) (b_data (bufs s bp)))))"

definition idup :: "'a fstate_scheme \<Rightarrow> nat \<Rightarrow> nat \<times> 'a fstate_scheme" where
  "idup s ip = (ip, upd_inode ip (\<lambda>i. i\<lparr>i_ref := i_ref i + 1\<rparr>) s)"

definition ilock :: "'a fstate_scheme \<Rightarrow> nat \<Rightarrow> 'a fstate_scheme res" where
  "ilock s ip =
     (if i_ref (itable s ip) < 1 then Panic ''ilock''
      else
        bindr (acquiresleep (mypid s) (ChInodeLock ip) (i_lock (itable s ip))) (\<lambda>lk.
          let s = upd_inode ip (\<lambda>i. i\<lparr>i_lock := lk\<rparr>) s; i = itable s ip; inum = unat (i_inum i) in
          if i_valid i then Ok s
          else
            bindr (bread s (i_dev i) (IBLOCK inum (sb s))) (\<lambda>(bp, s).
              let s = upd_inode ip (get_dinode (b_data (bufs s bp)) (dinode_off inum)) s in
              bindr (brelse s bp) (\<lambda>s.
                let s = upd_inode ip (\<lambda>i. i\<lparr>i_valid := True\<rparr>) s in
                if i_type (itable s ip) = 0 then Panic ''ilock: no type'' else Ok s))))"

definition release_inode :: "'a fstate_scheme \<Rightarrow> nat \<Rightarrow> 'a fstate_scheme" where
  "release_inode s ip =
     (upd_inode ip (\<lambda>i. i\<lparr>i_lock := releasesleep (i_lock i)\<rparr>) s)\<lparr>wakes := wakes s @ [ChInodeLock ip]\<rparr>"

definition iunlock :: "'a fstate_scheme \<Rightarrow> nat \<Rightarrow> 'a fstate_scheme res" where
  "iunlock s ip =
     (if \<not> holdingsleep (mypid s) (i_lock (itable s ip)) \<or> i_ref (itable s ip) < 1 then Panic ''iunlock''
      else Ok (release_inode s ip))"

text \<open>\<open>bmap\<close>: the block of the file's \<open>bn\<close>-th block, 0 when the disk is full.\<close>

definition bmap :: "'a fstate_scheme \<Rightarrow> nat \<Rightarrow> nat \<Rightarrow> (uint32 \<times> 'a fstate_scheme) res" where
  "bmap s ip bn =
     (let i = itable s ip; dev = i_dev i in
      if bn < NDIRECT then
        if i_addrs i bn = 0 then
          bindr (balloc s dev) (\<lambda>(addr, s).
            if addr = 0 then Ok (0, s)
            else Ok (addr, upd_inode ip (\<lambda>i. i\<lparr>i_addrs := (i_addrs i)(bn := addr)\<rparr>) s))
        else Ok (i_addrs i bn, s)
      else let bn = bn - NDIRECT in
      if bn < NINDIRECT then
        bindr
          (if i_addrs i NDIRECT = 0 then
             bindr (balloc s dev) (\<lambda>(addr, s).
               if addr = 0 then Ok (0, s)
               else Ok (addr, upd_inode ip (\<lambda>i. i\<lparr>i_addrs := (i_addrs i)(NDIRECT := addr)\<rparr>) s))
           else Ok (i_addrs i NDIRECT, s))
          (\<lambda>(addr, s).
             if addr = 0 then Ok (0, s)
             else
               bindr (bread s dev addr) (\<lambda>(bp, s).
                 let a = ld32 (b_data (bufs s bp)) (4 * bn) in
                 if a = 0 then
                   bindr (balloc s dev) (\<lambda>(addr, s).
                     if addr \<noteq> 0 then
                       bindr (put_block s bp (sd32 (b_data (bufs s bp)) (4 * bn) addr)) (\<lambda>s. Ok (addr, s))
                     else bindr (brelse s bp) (\<lambda>s. Ok (addr, s)))
                 else bindr (brelse s bp) (\<lambda>s. Ok (a, s))))
      else Panic ''bmap: out of range'')"

definition itrunc :: "'a fstate_scheme \<Rightarrow> nat \<Rightarrow> 'a fstate_scheme res" where
  "itrunc s ip =
     (let dev = i_dev (itable s ip) in
      bindr (for_upto NDIRECT (\<lambda>k s.
          if i_addrs (itable s ip) k \<noteq> 0 then
            bindr (bfree s dev (i_addrs (itable s ip) k)) (\<lambda>s.
              Ok (upd_inode ip (\<lambda>i. i\<lparr>i_addrs := (i_addrs i)(k := 0)\<rparr>) s))
          else Ok s) s) (\<lambda>s.
      bindr
        (if i_addrs (itable s ip) NDIRECT \<noteq> 0 then
           bindr (bread s dev (i_addrs (itable s ip) NDIRECT)) (\<lambda>(bp, s).
           bindr (for_upto NINDIRECT (\<lambda>j s.
               let a = ld32 (b_data (bufs s bp)) (4 * j) in
               if a \<noteq> 0 then bfree s dev a else Ok s) s) (\<lambda>s.
           bindr (brelse s bp) (\<lambda>s.
           bindr (bfree s dev (i_addrs (itable s ip) NDIRECT)) (\<lambda>s.
             Ok (upd_inode ip (\<lambda>i. i\<lparr>i_addrs := (i_addrs i)(NDIRECT := 0)\<rparr>) s)))))
         else Ok s) (\<lambda>s.
      iupdate (upd_inode ip (\<lambda>i. i\<lparr>i_size := 0\<rparr>) s) ip)))"

definition iput :: "'a fstate_scheme \<Rightarrow> nat \<Rightarrow> 'a fstate_scheme res" where
  "iput s ip =
     (let i = itable s ip in
      bindr
        (if i_ref i = 1 \<and> i_valid i \<and> i_nlink i = 0 then
           bindr (acquiresleep (mypid s) (ChInodeLock ip) (i_lock i)) (\<lambda>lk.
           bindr (itrunc (upd_inode ip (\<lambda>i. i\<lparr>i_lock := lk\<rparr>) s) ip) (\<lambda>s.
           bindr (iupdate (upd_inode ip (\<lambda>i. i\<lparr>i_type := 0\<rparr>) s) ip) (\<lambda>s.
             Ok (release_inode (upd_inode ip (\<lambda>i. i\<lparr>i_valid := False\<rparr>) s) ip))))
         else Ok s)
        (\<lambda>s. Ok (upd_inode ip (\<lambda>i. i\<lparr>i_ref := i_ref i - 1\<rparr>) s)))"

definition iunlockput :: "'a fstate_scheme \<Rightarrow> nat \<Rightarrow> 'a fstate_scheme res" where
  "iunlockput s ip = bindr (iunlock s ip) (\<lambda>s. iput s ip)"

text \<open>One iteration of \<open>ireclaim\<close>, for inode number \<open>inum\<close>.\<close>

definition ireclaim_one :: "uint32 \<Rightarrow> nat \<Rightarrow> 'a fstate_scheme \<Rightarrow> 'a fstate_scheme res" where
  "ireclaim_one dev inum s =
     bindr (bread s dev (IBLOCK inum (sb s))) (\<lambda>(bp, s).
       let d = b_data (bufs s bp); off = dinode_off inum in
       bindr (if ld16 d off \<noteq> 0 \<and> ld16 d (off + 6) = 0
              then bindr (iget s dev (of_nat inum)) (\<lambda>(ip, s). Ok (Some ip, s)) else Ok (None, s)) (\<lambda>(ip, s).
       bindr (brelse s bp) (\<lambda>s.
         case ip of
           None \<Rightarrow> Ok s
         | Some ip \<Rightarrow>
             bindr (begin_op s) (\<lambda>s. bindr (ilock s ip) (\<lambda>s. bindr (iunlock s ip) (\<lambda>s.
             bindr (iput s ip) (\<lambda>s. end_op s)))))))"

definition ireclaim :: "'a fstate_scheme \<Rightarrow> uint32 \<Rightarrow> 'a fstate_scheme res" where
  "ireclaim s dev = for_upto (unat (sb_ninodes (sb s)) - 1) (\<lambda>k. ireclaim_one dev (k + 1)) s"

definition fsinit :: "'a fstate_scheme \<Rightarrow> uint32 \<Rightarrow> 'a fstate_scheme res" where
  "fsinit s dev =
     bindr (readsb s dev) (\<lambda>s.
       if sb_magic (sb s) \<noteq> FSMAGIC then Panic ''invalid file system''
       else bindr (initlog s dev (sb_logstart (sb s))) (\<lambda>s. ireclaim s dev))"

section \<open>File contents\<close>

record stat =
  st_dev :: uint32
  st_ino :: uint32
  st_type :: uint16
  st_nlink :: uint16
  st_size :: uint64

definition stati :: "'a fstate_scheme \<Rightarrow> nat \<Rightarrow> stat" where
  "stati s ip =
     (let i = itable s ip in
      \<lparr>st_dev = i_dev i, st_ino = i_inum i, st_type = i_type i, st_nlink = i_nlink i, st_size = ucast (i_size i)\<rparr>)"

text \<open>
  \<open>cp (l, s) dst bs\<close> is \<open>either_copyout\<close> of the bytes \<open>bs\<close> to \<open>dst\<close>: whether it failed, and the new
  local variable and state.
\<close>

type_synonym ('l, 's) copy_out = "'l \<Rightarrow> 's \<Rightarrow> uint64 \<Rightarrow> uint8 list \<Rightarrow> (bool \<times> 'l \<times> 's) res"

text \<open>\<open>ci s src n\<close> is \<open>either_copyin\<close> of \<open>n\<close> bytes: whether it failed, and the bytes it had copied by then.\<close>

type_synonym 's copy_in = "'s \<Rightarrow> uint64 \<Rightarrow> nat \<Rightarrow> (bool \<times> uint8 list \<times> 's) res"

function readi_from ::
  "('l, 'a fstate_scheme) copy_out \<Rightarrow> 'l \<Rightarrow> 'a fstate_scheme \<Rightarrow> nat \<Rightarrow> uint64 \<Rightarrow> nat \<Rightarrow> nat \<Rightarrow> nat \<Rightarrow>
   (int \<times> 'l \<times> 'a fstate_scheme) res" where
  "readi_from cp l s ip dst off tot n =
     (if tot < n then
        bindr (bmap s ip (off div BSIZE)) (\<lambda>(addr, s).
          if addr = 0 then Ok (int tot, l, s)
          else
            bindr (bread s (i_dev (itable s ip)) addr) (\<lambda>(bp, s).
              let m = min (n - tot) (BSIZE - off mod BSIZE) in
              bindr (cp l s dst (blk_get (b_data (bufs s bp)) (off mod BSIZE) m)) (\<lambda>(failed, l, s).
              bindr (brelse s bp) (\<lambda>s.
                if failed then Ok (-1, l, s)
                else readi_from cp l s ip (dst + of_nat m) (off + m) (tot + m) n))))
      else Ok (int tot, l, s))"
  by pat_completeness auto
termination
  by (relation "measure (\<lambda>(_, _, _, _, _, _, tot, n). n - tot)") (auto simp: BSIZE_def)

declare readi_from.simps [simp del]

definition readi ::
  "('l, 'a fstate_scheme) copy_out \<Rightarrow> 'l \<Rightarrow> 'a fstate_scheme \<Rightarrow> nat \<Rightarrow> uint64 \<Rightarrow> uint32 \<Rightarrow> uint32 \<Rightarrow>
   (int \<times> 'l \<times> 'a fstate_scheme) res" where
  "readi cp l s ip dst off n =
     (let size = i_size (itable s ip) in
      if off > size \<or> off + n < off then Ok (0, l, s)
      else
        let n = (if off + n > size then size - off else n)
        in readi_from cp l s ip dst (unat off) 0 (unat n))"

function writei_from ::
  "'a fstate_scheme copy_in \<Rightarrow> 'a fstate_scheme \<Rightarrow> nat \<Rightarrow> uint64 \<Rightarrow> nat \<Rightarrow> nat \<Rightarrow> nat \<Rightarrow>
   (nat \<times> nat \<times> 'a fstate_scheme) res" where
  "writei_from ci s ip src off tot n =
     (if tot < n then
        bindr (bmap s ip (off div BSIZE)) (\<lambda>(addr, s).
          if addr = 0 then Ok (tot, off, s)
          else
            bindr (bread s (i_dev (itable s ip)) addr) (\<lambda>(bp, s).
              let m = min (n - tot) (BSIZE - off mod BSIZE) in
              bindr (ci s src m) (\<lambda>(failed, bs, s).
                let s = set_data bp (blk_put (b_data (bufs s bp)) (off mod BSIZE) bs) s in
                if failed then bindr (brelse s bp) (\<lambda>s. Ok (tot, off, s))
                else
                  bindr (log_write s bp) (\<lambda>s.
                  bindr (brelse s bp) (\<lambda>s.
                    writei_from ci s ip (src + of_nat m) (off + m) (tot + m) n)))))
      else Ok (tot, off, s))"
  by pat_completeness auto
termination
  by (relation "measure (\<lambda>(_, _, _, _, _, tot, n). n - tot)") (auto simp: BSIZE_def)

declare writei_from.simps [simp del]

definition writei ::
  "'a fstate_scheme copy_in \<Rightarrow> 'a fstate_scheme \<Rightarrow> nat \<Rightarrow> uint64 \<Rightarrow> uint32 \<Rightarrow> uint32 \<Rightarrow>
   (int \<times> 'a fstate_scheme) res" where
  "writei ci s ip src off n =
     (if off > i_size (itable s ip) \<or> off + n < off then Ok (-1, s)
      else if off + n > of_nat (MAXFILE * BSIZE) then Ok (-1, s)
      else
        bindr (writei_from ci s ip src (unat off) 0 (unat n)) (\<lambda>(tot, off, s).
          let s = (if off > unat (i_size (itable s ip))
                   then upd_inode ip (\<lambda>i. i\<lparr>i_size := of_nat off\<rparr>) s else s)
          in bindr (iupdate s ip) (\<lambda>s. Ok (int tot, s))))"

text \<open>The copies with a kernel address (\<open>user_dst == 0\<close>), and with a local variable of the caller.\<close>

definition kcopyout :: "('l, 'a fstate_scheme) copy_out" where
  "kcopyout l s dst bs = Ok (False, l, s\<lparr>phys := mem_put (phys s) dst bs\<rparr>)"

definition kcopyin :: "'a fstate_scheme copy_in" where
  "kcopyin s src n = Ok (False, mem_get (phys s) src n, s)"

definition lcopyout :: "(bytes, 'a fstate_scheme) copy_out" where
  "lcopyout l s dst bs = Ok (False, blk_put l (unat dst) bs, s)"

definition lcopyin :: "bytes \<Rightarrow> 'a fstate_scheme copy_in" where
  "lcopyin l s src n = Ok (False, blk_get l (unat src) n, s)"

section \<open>Directories\<close>

definition namecmp :: "bytes \<Rightarrow> bytes \<Rightarrow> int" where
  "namecmp s t = strncmp s t DIRSIZ"

definition de_inum :: "bytes \<Rightarrow> uint16" where "de_inum de = ld16 de 0"
definition de_name :: "bytes \<Rightarrow> bytes" where "de_name de = (\<lambda>i. de (2 + i))"

text \<open>The loop of \<open>dirlookup\<close>: the offset and the inode number of the entry.\<close>

function dirlookup_from ::
  "'a fstate_scheme \<Rightarrow> nat \<Rightarrow> bytes \<Rightarrow> nat \<Rightarrow> nat \<Rightarrow> ((nat \<times> uint16) option \<times> 'a fstate_scheme) res" where
  "dirlookup_from s dp name sz off =
     (if off < sz then
        bindr (readi lcopyout (\<lambda>_. 0) s dp 0 (of_nat off) (of_nat DIRENT_SIZE)) (\<lambda>(r, de, s).
          if r \<noteq> int DIRENT_SIZE then Panic ''dirlookup read''
          else if de_inum de = 0 then dirlookup_from s dp name sz (off + DIRENT_SIZE)
          else if namecmp name (de_name de) = 0 then Ok (Some (off, de_inum de), s)
          else dirlookup_from s dp name sz (off + DIRENT_SIZE))
      else Ok (None, s))"
  by pat_completeness auto
termination
  by (relation "measure (\<lambda>(_, _, _, sz, off). sz - off)") (auto simp: DIRENT_SIZE_def)

declare dirlookup_from.simps [simp del]

definition dirlookup :: "'a fstate_scheme \<Rightarrow> nat \<Rightarrow> bytes \<Rightarrow> ((nat \<times> nat) option \<times> 'a fstate_scheme) res" where
  "dirlookup s dp name =
     (if i_type (itable s dp) \<noteq> T_DIR then Panic ''dirlookup not DIR''
      else
        bindr (dirlookup_from s dp name (unat (i_size (itable s dp))) 0) (\<lambda>(r, s).
          case r of
            None \<Rightarrow> Ok (None, s)
          | Some (off, inum) \<Rightarrow>
              bindr (iget s (i_dev (itable s dp)) (ucast inum)) (\<lambda>(ip, s). Ok (Some (ip, off), s))))"

text \<open>The first empty entry of the directory, or its end; and the entry last read.\<close>

function dirlink_slot :: "'a fstate_scheme \<Rightarrow> nat \<Rightarrow> nat \<Rightarrow> bytes \<Rightarrow> nat \<Rightarrow> (nat \<times> bytes \<times> 'a fstate_scheme) res" where
  "dirlink_slot s dp sz de off =
     (if off < sz then
        bindr (readi lcopyout de s dp 0 (of_nat off) (of_nat DIRENT_SIZE)) (\<lambda>(r, de, s).
          if r \<noteq> int DIRENT_SIZE then Panic ''dirlink read''
          else if de_inum de = 0 then Ok (off, de, s)
          else dirlink_slot s dp sz de (off + DIRENT_SIZE))
      else Ok (off, de, s))"
  by pat_completeness auto
termination
  by (relation "measure (\<lambda>(_, _, sz, _, off). sz - off)") (auto simp: DIRENT_SIZE_def)

declare dirlink_slot.simps [simp del]

definition mk_dirent :: "bytes \<Rightarrow> bytes \<Rightarrow> uint16 \<Rightarrow> bytes" where
  "mk_dirent de name inum =
     (let nm = strncpy (de_name de) name (int DIRSIZ)
      in sd16 (\<lambda>i. if 2 \<le> i then nm (i - 2) else de i) 0 inum)"

definition dirlink :: "'a fstate_scheme \<Rightarrow> nat \<Rightarrow> bytes \<Rightarrow> uint32 \<Rightarrow> (int \<times> 'a fstate_scheme) res" where
  "dirlink s dp name inum =
     bindr (dirlookup s dp name) (\<lambda>(r, s).
       case r of
         Some (ip, _) \<Rightarrow> bindr (iput s ip) (\<lambda>s. Ok (-1, s))
       | None \<Rightarrow>
           bindr (dirlink_slot s dp (unat (i_size (itable s dp))) (\<lambda>_. 0) 0) (\<lambda>(off, de, s).
           bindr (writei (lcopyin (mk_dirent de name (ucast inum))) s dp 0 (of_nat off) (of_nat DIRENT_SIZE))
             (\<lambda>(r, s). Ok (if r \<noteq> int DIRENT_SIZE then -1 else 0, s))))"

section \<open>Paths\<close>

text \<open>A path is the list of its bytes before the NUL.\<close>

definition slash :: uint8 where "slash = 0x2F"

definition skipelem :: "uint8 list \<Rightarrow> bytes \<Rightarrow> (uint8 list \<times> bytes) option" where
  "skipelem path name =
     (let s = dropWhile (\<lambda>c. c = slash) path in
      if s = [] then None
      else
        let el = takeWhile (\<lambda>c. c \<noteq> slash) s; len = length el;
            name = (if len \<ge> DIRSIZ then blk_put name 0 (take DIRSIZ el) else (blk_put name 0 el)(len := 0))
        in Some (dropWhile (\<lambda>c. c = slash) (dropWhile (\<lambda>c. c \<noteq> slash) s), name))"

lemma skipelem_shorter:
  assumes "skipelem path name = Some (rest, name')"
  shows "length rest < length path"
proof -
  let ?s = "dropWhile (\<lambda>c. c = slash) path"
  have ne: "?s \<noteq> []" and r: "rest = dropWhile (\<lambda>c. c = slash) (dropWhile (\<lambda>c. c \<noteq> slash) ?s)"
    using assms by (auto simp: skipelem_def Let_def split: if_splits)
  have "hd ?s \<noteq> slash" using ne hd_dropWhile [of "\<lambda>c. c = slash" path] by blast
  then have "length (dropWhile (\<lambda>c. c \<noteq> slash) ?s) < length ?s"
    using ne by (cases ?s) (auto simp: le_imp_less_Suc length_dropWhile_le)
  then show ?thesis
    unfolding r using length_dropWhile_le le_less_trans less_le_trans by metis
qed

function namex_from ::
  "'a fstate_scheme \<Rightarrow> nat \<Rightarrow> uint8 list \<Rightarrow> bool \<Rightarrow> bytes \<Rightarrow> (nat option \<times> bytes \<times> 'a fstate_scheme) res" where
  "namex_from s ip path nameiparent name =
     (case skipelem path name of
        None \<Rightarrow>
          if nameiparent then bindr (iput s ip) (\<lambda>s. Ok (None, name, s)) else Ok (Some ip, name, s)
      | Some (path1, name1) \<Rightarrow>
          bindr (ilock s ip) (\<lambda>s.
            if i_type (itable s ip) \<noteq> T_DIR then bindr (iunlockput s ip) (\<lambda>s. Ok (None, name1, s))
            else if nameiparent \<and> path1 = [] then bindr (iunlock s ip) (\<lambda>s. Ok (Some ip, name1, s))
            else
              bindr (dirlookup s ip name1) (\<lambda>(r, s).
                case r of
                  None \<Rightarrow> bindr (iunlockput s ip) (\<lambda>s. Ok (None, name1, s))
                | Some (nxt, _) \<Rightarrow>
                    bindr (iunlockput s ip) (\<lambda>s. namex_from s nxt path1 nameiparent name1))))"
  by pat_completeness auto
termination
  by (relation "measure (\<lambda>(_, _, path, _, _). length path)") (auto dest: skipelem_shorter)

declare namex_from.simps [simp del]

text \<open>\<open>cwd\<close> is \<open>myproc()->cwd\<close>.\<close>

definition namex :: "'a fstate_scheme \<Rightarrow> nat \<Rightarrow> uint8 list \<Rightarrow> bool \<Rightarrow> bytes \<Rightarrow>
    (nat option \<times> bytes \<times> 'a fstate_scheme) res" where
  "namex s cwd path nameiparent name =
     bindr (if path \<noteq> [] \<and> hd path = slash then iget s ROOTDEV ROOTINO else Ok (idup s cwd))
       (\<lambda>(ip, s). namex_from s ip path nameiparent name)"

definition namei :: "'a fstate_scheme \<Rightarrow> nat \<Rightarrow> uint8 list \<Rightarrow> (nat option \<times> 'a fstate_scheme) res" where
  "namei s cwd path = bindr (namex s cwd path False (\<lambda>_. 0)) (\<lambda>(ip, _, s). Ok (ip, s))"

definition nameiparent :: "'a fstate_scheme \<Rightarrow> nat \<Rightarrow> uint8 list \<Rightarrow> bytes \<Rightarrow> (nat option \<times> bytes \<times> 'a fstate_scheme) res" where
  "nameiparent s cwd path name = namex s cwd path True name"

end
