(* ===== verification/Fs_Correct.thy ===== *)
theory Fs_Correct
  imports Fs
begin

text \<open>
  Results on the file system: the rules by which file-system code reads and updates blocks inside
  a transaction, the block allocator over them, the on-disk inode as a round trip, the inode
  table's uniqueness invariant, the size limit of files, and path splitting.
\<close>

section \<open>Blocks inside a transaction\<close>

text \<open>What block operations leave alone: memory, the process, and all state above the log.\<close>

definition fs_frame :: "'a lstate_scheme \<Rightarrow> 'a lstate_scheme \<Rightarrow> bool" where
  "fs_frame s s' \<longleftrightarrow> phys s' = phys s \<and> freelist s' = freelist s \<and> kend s' = kend s \<and> mypid s' = mypid s \<and>
     lstate.more s' = lstate.more s \<and> lg_dev (lg s') = lg_dev (lg s) \<and> lg_start (lg s') = lg_start (lg s) \<and>
     lg_outstanding (lg s') = lg_outstanding (lg s) \<and> lg_committing (lg s') = lg_committing (lg s)"

lemma fs_frame_refl [simp]: "fs_frame s s"
  by (simp add: fs_frame_def)

lemma fs_frame_trans: "fs_frame s t \<Longrightarrow> fs_frame t u \<Longrightarrow> fs_frame s u"
  by (simp add: fs_frame_def)

lemma bio_fs_frame: "bio_frame s s' \<Longrightarrow> fs_frame s s'" for s :: "'a lstate_scheme"
  by (cases s; cases s') (simp add: bio_frame_def fs_frame_def)

lemma fs_frame_sb [simp]: "fs_frame s s' \<Longrightarrow> sb s' = sb s \<and> itable s' = itable s" for s :: "'a fstate_scheme"
  by (cases s; cases s') (simp add: fs_frame_def)

lemma fs_frame_lg:
  "fs_frame s s' \<Longrightarrow> lg_dev (lg s') = lg_dev (lg s) \<and> lg_start (lg s') = lg_start (lg s) \<and>
     lg_outstanding (lg s') = lg_outstanding (lg s)"
  by (simp add: fs_frame_def)

lemma log_write_frame:
  assumes "log_write s i = Ok s'"
  shows "phys s' = phys s \<and> freelist s' = freelist s \<and> kend s' = kend s \<and> mypid s' = mypid s \<and>
     lstate.more s' = lstate.more s"
  using assms by (auto simp: log_write_def Let_def bpin_def split: if_splits)

text \<open>The blocks logged after one more write of \<open>b\<close>.\<close>

definition absorb :: "uint32 list \<Rightarrow> uint32 \<Rightarrow> uint32 list" where
  "absorb bs b = (if b \<in> set bs then bs else bs @ [b])"

lemma absorb_simps [simp]:
  "set (absorb bs b) = insert b (set bs)" "length (absorb bs b) \<le> Suc (length bs)"
  by (auto simp: absorb_def)

text \<open>The running transaction can take \<open>k\<close> more blocks.\<close>

definition room :: "'a lstate_scheme \<Rightarrow> uint32 set \<Rightarrow> uint32 list \<Rightarrow> nat \<Rightarrow> bool" where
  "room s L bs k \<longleftrightarrow> length bs + k \<le> LOGBLOCKS \<and> 1 \<le> lg_outstanding (lg s) \<and> card (L \<union> set bs) + k \<le> NBUF \<and> finite L"

lemma txn_bio: "txn s C D L bs \<Longrightarrow> bio_rel (lg_dev (lg s)) s C D L (set bs)"
  by (simp add: txn_def)

lemma txn_frame:
  assumes "txn s C D L bs" "bio_rel (lg_dev (lg s)) s' C' D L' (set bs)" "lg s' = lg s"
  shows "txn s' C' D L' bs"
  using assms by (simp add: txn_def)

lemma fs_read:
  assumes t: "txn s C D L bs" and b: "b \<notin> L" and r: "b \<in> set bs \<or> card (L \<union> set bs) < NBUF"
  shows "\<exists>bp s'. bread s (lg_dev (lg s)) b = Ok (bp, s') \<and> bufs_for (lg_dev (lg s)) s' bp b \<and> b_data (bufs s' bp) = C b \<and>
     txn s' C D (insert b L) bs \<and> fs_frame s s' \<and> lg s' = lg s \<and> keeps (lg_dev (lg s)) L s s'"
proof -
  obtain bp s' where "bread s (lg_dev (lg s)) b = Ok (bp, s')" "bufs_for (lg_dev (lg s)) s' bp b"
    "b_data (bufs s' bp) = C b" "bio_rel (lg_dev (lg s)) s' C D (insert b L) (set bs)" "bio_frame s s'"
    "keeps (lg_dev (lg s)) L s s'"
    using bread_rel [OF txn_bio [OF t] b r] .
  moreover from this have "lg s' = lg s" by (simp add: lg_frame)
  ultimately show ?thesis
    using txn_frame [OF t] bio_fs_frame by metis
qed

lemma fs_release:
  assumes t: "txn s C D L bs" and i: "bufs_for (lg_dev (lg s)) s bp b" and b: "b \<in> L"
    and clean: "b \<in> set bs \<or> C b = D b"
  shows "\<exists>s'. brelse s bp = Ok s' \<and> txn s' C D (L - {b}) bs \<and> fs_frame s s' \<and> lg s' = lg s \<and>
     bufs_for (lg_dev (lg s)) s' = bufs_for (lg_dev (lg s)) s"
proof -
  obtain s' where "brelse s bp = Ok s'" "bio_rel (lg_dev (lg s)) s' C D (L - {b}) (set bs)" "bio_frame s s'"
    "\<And>j c. bufs_for (lg_dev (lg s)) s' j c = bufs_for (lg_dev (lg s)) s j c"
    by (rule brelse_rel [OF txn_bio [OF t] i b clean], rule that)
  moreover from this have "lg s' = lg s" by (simp add: lg_frame)
  ultimately show ?thesis
    using txn_frame [OF t, of s' C "L - {b}"] bio_fs_frame [of s s']
    by (intro exI [of _ s'] conjI ext) auto
qed

lemma fs_put:
  assumes t: "txn s C D L bs" and i: "bufs_for (lg_dev (lg s)) s bp b" and b: "b \<in> L"
    and out: "b \<notin> log_region (lg_start (lg s))" and rm: "length bs < LOGBLOCKS" "1 \<le> lg_outstanding (lg s)"
  shows "\<exists>s'. log_write (set_data bp d s) bp = Ok s' \<and> txn s' (C(b := d)) D L (absorb bs b) \<and> fs_frame s s' \<and>
     bufs_for (lg_dev (lg s)) s' = bufs_for (lg_dev (lg s)) s"
proof -
  let ?s = "set_data bp d s"
  have f: "bio_frame s ?s" by simp
  have lg: "lg ?s = lg s" by (rule lg_frame [OF f])
  have t1: "txn ?s (C(b := d)) D L bs"
    using txn_frame [OF t set_data_rel [OF txn_bio [OF t] i b] lg] .
  from log_write_txn [OF t1, of bp b] i b out rm lg
  obtain s' where w: "log_write ?s bp = Ok s'" "txn s' (C(b := d)) D L (absorb bs b)"
    "bufs_for (lg_dev (lg s)) s' = bufs_for (lg_dev (lg s)) s"
    "lg s' = (lg s)\<lparr>lh_n := int (length (absorb bs b)), lh_block := lh_block (lg s')\<rparr>"
    unfolding absorb_def by (auto simp: fun_eq_iff)
  have "fs_frame ?s s'"
    using log_write_frame [OF w(1)] lg unfolding fs_frame_def
    by (subst (1 2 3 4) w(4)) simp
  then have "fs_frame s s'" using bio_fs_frame [OF f] fs_frame_trans by metis
  with w show ?thesis by blast
qed

lemma fs_put_block:
  assumes t: "txn s C D L bs" and i: "bufs_for (lg_dev (lg s)) s bp b" and b: "b \<in> L"
    and out: "b \<notin> log_region (lg_start (lg s))" and rm: "length bs < LOGBLOCKS" "1 \<le> lg_outstanding (lg s)"
  shows "\<exists>s'. put_block s bp d = Ok s' \<and> txn s' (C(b := d)) D (L - {b}) (absorb bs b) \<and> fs_frame s s' \<and>
     bufs_for (lg_dev (lg s)) s' = bufs_for (lg_dev (lg s)) s"
proof -
  from fs_put [OF assms, of d] obtain s1 where w: "log_write (set_data bp d s) bp = Ok s1"
    "txn s1 (C(b := d)) D L (absorb bs b)" "fs_frame s s1"
    "bufs_for (lg_dev (lg s)) s1 = bufs_for (lg_dev (lg s)) s" by blast
  have dev: "lg_dev (lg s1) = lg_dev (lg s)" using w(3) by (simp add: fs_frame_def)
  from fs_release [OF w(2), of bp b] i b w(4) dev obtain s2 where
    "brelse s1 bp = Ok s2" "txn s2 (C(b := d)) D (L - {b}) (absorb bs b)" "fs_frame s1 s2"
    "bufs_for (lg_dev (lg s)) s2 = bufs_for (lg_dev (lg s)) s"
    by auto
  with w fs_frame_trans show ?thesis
    unfolding put_block_def by (metis bindr.simps(1))
qed

text \<open>Read a block, change it, log it, release it.\<close>

lemma fs_modify:
  assumes t: "txn s C D L bs" and b: "b \<notin> L" "b \<notin> log_region (lg_start (lg s))" and rm: "room s L bs 1"
  obtains bp s1 where "bread s (lg_dev (lg s)) b = Ok (bp, s1)" "b_data (bufs s1 bp) = C b" "fs_frame s s1"
    "\<forall>d. (\<exists>s2. put_block s1 bp d = Ok s2 \<and> txn s2 (C(b := d)) D L (absorb bs b) \<and> fs_frame s s2)"
proof -
  have "card (L \<union> set bs) < NBUF" using rm by (simp add: room_def)
  from fs_read [OF t b(1)] this obtain bp s1 where r: "bread s (lg_dev (lg s)) b = Ok (bp, s1)"
    "bufs_for (lg_dev (lg s)) s1 bp b" "b_data (bufs s1 bp) = C b" "txn s1 C D (insert b L) bs" "fs_frame s s1"
    "lg s1 = lg s" by blast
  have "\<exists>s2. put_block s1 bp d = Ok s2 \<and> txn s2 (C(b := d)) D L (absorb bs b) \<and> fs_frame s s2" for d
    using fs_put_block [OF r(4), of bp b d] r b rm fs_frame_trans [OF r(5)] by (auto simp: room_def)
  with that [OF r(1,3,5)] show thesis by blast
qed

lemma fs_peek:
  assumes t: "txn s C D L bs" and b: "b \<notin> L" and rm: "room s L bs 1" and d: "b \<in> set bs \<or> C b = D b"
  shows "\<exists>bp s1 s2. bread s (lg_dev (lg s)) b = Ok (bp, s1) \<and> b_data (bufs s1 bp) = C b \<and>
     brelse s1 bp = Ok s2 \<and> txn s2 C D L bs \<and> fs_frame s s2"
proof -
  have "card (L \<union> set bs) < NBUF" using rm by (simp add: room_def)
  from fs_read [OF t b] this obtain bp s1 where r: "bread s (lg_dev (lg s)) b = Ok (bp, s1)"
    "bufs_for (lg_dev (lg s)) s1 bp b" "b_data (bufs s1 bp) = C b" "txn s1 C D (insert b L) bs" "fs_frame s s1"
    "lg s1 = lg s" by blast
  with fs_release [OF r(4), of bp b] d b obtain s2 where "brelse s1 bp = Ok s2" "txn s2 C D L bs" "fs_frame s1 s2"
    by auto
  with r fs_frame_trans show ?thesis by metis
qed

lemma txn_clean: "txn s C D L bs \<Longrightarrow> b \<notin> L \<Longrightarrow> b \<in> set bs \<or> C b = D b"
  using bio_relD(8) [OF txn_bio] by blast

lemma room_frame: "fs_frame s s' \<Longrightarrow> room s' L bs k = room s L bs k"
  by (simp add: room_def fs_frame_def)

lemma room_mono: "room s L bs k \<Longrightarrow> j \<le> k \<Longrightarrow> room s L bs j"
  by (simp add: room_def)

lemma room_absorb: "room s L bs (Suc k) \<Longrightarrow> room s L (absorb bs b) k"
proof -
  assume r: "room s L bs (Suc k)"
  have "card (L \<union> set (absorb bs b)) \<le> Suc (card (L \<union> set bs))"
    using r by (simp add: room_def card_insert_if)
  moreover have "length (absorb bs b) \<le> Suc (length bs)" by simp
  ultimately show ?thesis
    using r [unfolded room_def] unfolding room_def by (intro conjI) linarith+
qed

section \<open>The block allocator\<close>

text \<open>The bit of block \<open>b\<close> in the free map.\<close>

definition blk_used :: "superblock \<Rightarrow> (uint32 \<Rightarrow> bytes) \<Rightarrow> nat \<Rightarrow> bool" where
  "blk_used sblk C b = bit_used (C (BBLOCK b sblk)) (b mod BPB)"

text \<open>
  The free map is apart from the log and from the locked blocks, and it marks the log, itself and
  the locked blocks as used.
\<close>

definition map_ok :: "'a fstate_scheme \<Rightarrow> (uint32 \<Rightarrow> bytes) \<Rightarrow> uint32 set \<Rightarrow> bool" where
  "map_ok s C L \<longleftrightarrow>
     (\<forall>b < unat (sb_size (sb s)). BBLOCK b (sb s) \<notin> L \<union> log_region (lg_start (lg s)) \<and>
        (of_nat b \<in> L \<union> log_region (lg_start (lg s)) \<longrightarrow> blk_used (sb s) C b))"

lemma BBLOCK_add: "BPB dvd b \<Longrightarrow> bi < BPB \<Longrightarrow> BBLOCK (b + bi) sblk = BBLOCK b sblk"
  by (auto simp: BBLOCK_def)

lemma blk_used_add: "BPB dvd b \<Longrightarrow> bi < BPB \<Longrightarrow> blk_used sblk C (b + bi) = bit_used (C (BBLOCK b sblk)) bi"
  by (auto simp: blk_used_def BBLOCK_add)

definition balloc_post ::
  "'a fstate_scheme \<Rightarrow> (uint32 \<Rightarrow> bytes) \<Rightarrow> (uint32 \<Rightarrow> bytes) \<Rightarrow> uint32 set \<Rightarrow> uint32 list \<Rightarrow>
   (uint32 \<times> 'a fstate_scheme) res \<Rightarrow> bool" where
  "balloc_post s C D L bs r =
     (case scan (\<lambda>n. \<not> blk_used (sb s) C n) (unat (sb_size (sb s))) of
        None \<Rightarrow> \<exists>s'. r = Ok (0, s') \<and> txn s' C D L bs \<and> fs_frame s s'
      | Some n \<Rightarrow>
          let m = BBLOCK n (sb s); C1 = C(m := bit_set (C m) (n mod BPB)); b = of_nat n in
          \<exists>s'. r = Ok (b, s') \<and> txn s' (C1(b := zero_block (C1 b))) D L (absorb (absorb bs m) b) \<and> fs_frame s s')"

lemma balloc_post_frame: "fs_frame s s1 \<Longrightarrow> balloc_post s1 C D L bs r \<Longrightarrow> balloc_post s C D L bs r"
  unfolding balloc_post_def Let_def
  by (cases "scan (\<lambda>n. \<not> blk_used (sb s) C n) (unat (sb_size (sb s)))")
    (simp_all, auto dest: fs_frame_trans)

lemma bzero_txn:
  assumes "txn s C D L bs" "b \<notin> L" "b \<notin> log_region (lg_start (lg s))" "room s L bs 1"
  shows "\<exists>s'. bzero s (lg_dev (lg s)) b = Ok s' \<and> txn s' (C(b := zero_block (C b))) D L (absorb bs b) \<and> fs_frame s s'"
proof -
  obtain bp s1 where r: "bread s (lg_dev (lg s)) b = Ok (bp, s1)" "b_data (bufs s1 bp) = C b" "fs_frame s s1"
    and p: "\<forall>d. (\<exists>s2. put_block s1 bp d = Ok s2 \<and> txn s2 (C(b := d)) D L (absorb bs b) \<and> fs_frame s s2)"
    using fs_modify [OF assms] .
  show ?thesis using p [rule_format, of "zero_block (C b)"] by (simp add: bzero_def r)
qed

lemma balloc_from_spec:
  fixes s :: "'a fstate_scheme"
  assumes "txn s C D L bs" and "room s L bs 2" and "map_ok s C L"
    and "BPB dvd b" and "\<forall>m<b. m < unat (sb_size (sb s)) \<longrightarrow> blk_used (sb s) C m"
  shows "balloc_post s C D L bs (balloc_from s (sb s) (lg_dev (lg s)) b)"
  using assms
proof (induction "unat (sb_size (sb s)) - b" arbitrary: s b rule: less_induct)
  case (less s b)
  note t = less.prems(1) and rm = less.prems(2) and ok = less.prems(3)
  let ?size = "unat (sb_size (sb s))" and ?m = "BBLOCK b (sb s)"
  show ?case
  proof (cases "b < ?size")
    case False
    then have "scan (\<lambda>n. \<not> blk_used (sb s) C n) ?size = None"
      using less.prems(5) by (auto simp: scan_None_iff)
    with False t show ?thesis
      by (subst balloc_from.simps) (simp add: balloc_post_def)
  next
    case True
    have m: "?m \<notin> L" "?m \<notin> log_region (lg_start (lg s))" using ok True by (auto simp: map_ok_def)
    have rm1: "room s L bs 1" using rm by (rule room_mono) simp
    let ?free = "\<lambda>bi. \<not> bit_used (C ?m) bi"
    show ?thesis
    proof (cases "scan ?free (min BPB (?size - b))")
      case None
      from fs_peek [OF t m(1) rm1 txn_clean [OF t m(1)]] obtain bp s1 s2 where r: "bread s (lg_dev (lg s)) ?m = Ok (bp, s1)"
        "b_data (bufs s1 bp) = C ?m" "brelse s1 bp = Ok s2" "txn s2 C D L bs" "fs_frame s s2" by (elim exE conjE) (rule that)
      have sb2: "sb s2 = sb s" "lg_dev (lg s2) = lg_dev (lg s)" "lg_start (lg s2) = lg_start (lg s)"
        using fs_frame_sb [OF r(5)] fs_frame_lg [OF r(5)] by simp_all
      have e: "balloc_from s (sb s) (lg_dev (lg s)) b = balloc_from s2 (sb s2) (lg_dev (lg s2)) (b + BPB)"
        using True None r(1-3) sb2 by (subst balloc_from.simps) simp
      have used: "blk_used (sb s) C n" if "n < b + BPB" "n < ?size" for n
      proof (cases "n < b")
        case False
        then have "n = b + (n - b)" "n - b < min BPB (?size - b)" using that by auto
        moreover have "bit_used (C ?m) (n - b)" using None calculation(2) by (simp add: scan_None_iff)
        ultimately show ?thesis
          using blk_used_add [OF less.prems(4), of "n - b" "sb s" C] by simp
      qed (use less.prems(5) that in simp)
      have "balloc_post s2 C D L bs (balloc_from s2 (sb s2) (lg_dev (lg s2)) (b + BPB))"
      proof (rule less.hyps)
        show "unat (sb_size (sb s2)) - (b + BPB) < ?size - b"
          using True by (simp add: sb2 BPB_def BSIZE_def)
        show "map_ok s2 C L" using ok by (simp add: map_ok_def sb2)
        show "\<forall>m<b + BPB. m < unat (sb_size (sb s2)) \<longrightarrow> blk_used (sb s2) C m" using used by (simp add: sb2)
        show "BPB dvd b + BPB" using less.prems(4) by simp
        show "room s2 L bs 2" using rm by (simp add: room_frame [OF r(5)])
      qed (rule r(4))
      then show ?thesis
        unfolding e using balloc_post_frame [OF r(5)] by blast
    next
      case (Some bi)
      then have bi: "bi < BPB" "b + bi < ?size" "\<not> bit_used (C ?m) bi" "\<And>j. j < bi \<Longrightarrow> bit_used (C ?m) j"
        by (auto simp: scan_Some_iff)
      have first: "scan (\<lambda>n. \<not> blk_used (sb s) C n) ?size = Some (b + bi)"
      proof -
        have "blk_used (sb s) C j" if "j < b + bi" for j
          using that bi blk_used_add [OF less.prems(4), of "j - b" "sb s" C] less.prems(5) True
          by (cases "j < b") (auto simp: not_less)
        then show ?thesis
          using bi blk_used_add [OF less.prems(4) bi(1), of "sb s" C] by (auto simp: scan_Some_iff)
      qed
      have mm: "BBLOCK (b + bi) (sb s) = ?m" "(b + bi) mod BPB = bi"
        using less.prems(4) bi by (auto simp: BBLOCK_add)
      let ?C = "C(?m := bit_set (C ?m) bi)" and ?b = "of_nat (b + bi) :: uint32"
      obtain bp s1 where r1: "bread s (lg_dev (lg s)) ?m = Ok (bp, s1)" "b_data (bufs s1 bp) = C ?m" "fs_frame s s1"
        and p: "\<forall>d. (\<exists>s2. put_block s1 bp d = Ok s2 \<and> txn s2 (C(?m := d)) D L (absorb bs ?m) \<and> fs_frame s s2)"
        using fs_modify [OF t m rm1] .
      from p [rule_format, of "bit_set (C ?m) bi"] obtain s2 where r: "put_block s1 bp (bit_set (C ?m) bi) = Ok s2"
        "txn s2 ?C D L (absorb bs ?m)" "fs_frame s s2" by (elim exE conjE) (rule that)
      have dev: "lg_dev (lg s2) = lg_dev (lg s)" "lg_start (lg s2) = lg_start (lg s)"
        using fs_frame_lg [OF r(3)] by simp_all
      have "\<not> blk_used (sb s) C (b + bi)" using first by (simp add: scan_Some_iff)
      then have out: "?b \<notin> L" "?b \<notin> log_region (lg_start (lg s2))"
        using ok bi(2) dev by (auto simp: map_ok_def simp del: of_nat_add)
      have "room s L bs (Suc 1)" using rm by (simp add: numeral_2_eq_2)
      then have "room s2 L (absorb bs ?m) 1" using room_absorb room_frame [OF r(3)] by blast
      from bzero_txn [OF r(2) out this] obtain s3 where z: "bzero s2 (lg_dev (lg s)) ?b = Ok s3"
        "txn s3 (?C(?b := zero_block (?C ?b))) D L (absorb (absorb bs ?m) ?b)" "fs_frame s2 s3"
        unfolding dev by (elim exE conjE) (rule that)
      have "balloc_from s (sb s) (lg_dev (lg s)) b = Ok (?b, s3)"
        using True Some r1(1,2) r(1) z(1) by (subst balloc_from.simps) (simp del: of_nat_add)
      then show ?thesis
        unfolding balloc_post_def first using z mm fs_frame_trans [OF r(3) z(3)]
        by (simp add: Let_def del: of_nat_add)
    qed
  qed
qed

text \<open>
  \<open>balloc\<close>, inside a transaction with room for two more blocks, takes the first block that the
  free map shows as free, marks it as used and clears it, through the log and without changing
  any other block; when every block is in use it returns 0 and changes nothing.
\<close>

lemma balloc_takes_first_free:
  assumes "txn s C D L bs" and "room s L bs 2" and "map_ok s C L"
  shows "balloc_post s C D L bs (balloc s (lg_dev (lg s)))"
  unfolding balloc_def using assms by (intro balloc_from_spec) simp_all

section \<open>Inodes\<close>

text \<open>A state with an empty inode table.\<close>

definition inode0 :: inode where
  "inode0 = \<lparr>i_dev = 0, i_inum = 0, i_ref = 0, i_lock = initsleeplock, i_valid = False, i_type = 0, i_major = 0,
     i_minor = 0, i_nlink = 0, i_size = 0, i_addrs = (\<lambda>_. 0)\<rparr>"

definition fs0 :: fstate where
  "fs0 = \<lparr>phys = (\<lambda>_. 0), freelist = 0, kend = 0, mypid = 1, wakes = [], disk = (\<lambda>_ _. 0), dtrace = [],
     bufs = (\<lambda>i. \<lparr>b_valid = False, b_dev = 0, b_blockno = 0, b_lock = initsleeplock, b_refcnt = 0, b_data = (\<lambda>_. 0)\<rparr>),
     lru = rev [0..<NBUF],
     lg = \<lparr>lg_start = 2, lg_outstanding = 0, lg_committing = False, lg_dev = 1, lh_n = 0, lh_block = (\<lambda>_. 0)\<rparr>,
     sb = get_superblock (\<lambda>_. 0), itable = (\<lambda>_. inode0)\<rparr>"

lemma ld32_put_addrs:
  "k < n \<Longrightarrow> ld32 (put_addrs n a off d) (off + 4 * k) = a k"
  by (induction n) (auto simp: less_Suc_eq)

lemma ld_put_addrs_below [simp]:
  "k + 4 \<le> off \<Longrightarrow> ld32 (put_addrs n a off d) k = ld32 d k"
  "k + 2 \<le> off \<Longrightarrow> ld16 (put_addrs n a off d) k = ld16 d k"
  by (induction n) simp_all

text \<open>
  C29. What \<open>iupdate\<close> writes to the disk is what \<open>ilock\<close> reads back: type, device numbers, link
  count, size and all \<open>NDIRECT + 1\<close> addresses survive the round trip.
\<close>

theorem dinode_roundtrip:
  "get_dinode (put_dinode i off d) off j =
     j\<lparr>i_type := i_type i, i_major := i_major i, i_minor := i_minor i, i_nlink := i_nlink i,
       i_size := i_size i, i_addrs := (\<lambda>k. if k \<le> NDIRECT then i_addrs i k else i_addrs j k)\<rparr>"
proof -
  have "k \<le> NDIRECT \<Longrightarrow> ld32 (put_addrs (NDIRECT + 1) a (off + 12) e) (off + 12 + 4 * k) = a k" for k a e
    by (rule ld32_put_addrs) simp
  then show ?thesis
    unfolding get_dinode_def put_dinode_def by (simp cong: if_cong)
qed

text \<open>An inode is in the table at most once.\<close>

definition itable_inv :: "(nat \<Rightarrow> inode) \<Rightarrow> bool" where
  "itable_inv t \<longleftrightarrow>
     (\<forall>i<NINODE. 0 \<le> i_ref (t i)) \<and>
     (\<forall>i<NINODE. \<forall>j<NINODE. 0 < i_ref (t i) \<longrightarrow> 0 < i_ref (t j) \<longrightarrow>
        i_dev (t i) = i_dev (t j) \<longrightarrow> i_inum (t i) = i_inum (t j) \<longrightarrow> i = j)"

definition holds_inode :: "(nat \<Rightarrow> inode) \<Rightarrow> nat \<Rightarrow> uint32 \<Rightarrow> uint32 \<Rightarrow> bool" where
  "holds_inode t ip dev inum \<longleftrightarrow>
     ip < NINODE \<and> 0 < i_ref (t ip) \<and> i_dev (t ip) = dev \<and> i_inum (t ip) = inum"

lemma itable_upd [simp]: "itable (upd_inode ip f s) = (itable s)(ip := f (itable s ip))"
  by (simp add: upd_inode_def)

lemma itable_inv_ref:
  assumes "itable_inv t" and "0 < i_ref (t ip)"
  shows "itable_inv (t(ip := (t ip)\<lparr>i_ref := i_ref (t ip) + 1\<rparr>))"
  using assms unfolding itable_inv_def by auto

lemma itable_inv_fresh:
  assumes "itable_inv t" and "\<And>j. \<not> holds_inode t j dev inum"
  shows "itable_inv (t(ip := (t ip)\<lparr>i_dev := dev, i_inum := inum, i_ref := 1, i_valid := False\<rparr>))"
  using assms unfolding itable_inv_def holds_inode_def by auto

text \<open>
  C20. \<open>iget\<close> keeps the inode table free of duplicates: it returns the entry that is in use for
  the inode if there is one, so every holder of the inode has the same pointer, and otherwise an
  entry that nobody used, marked as not read yet. It panics only when all entries are in use.
\<close>

theorem iget_unique:
  assumes inv: "itable_inv (itable s)"
  shows "case iget s dev inum of
      Ok (ip, s') \<Rightarrow>
        itable_inv (itable s') \<and> holds_inode (itable s') ip dev inum \<and>
        (\<forall>j. holds_inode (itable s) j dev inum \<longrightarrow> j = ip) \<and>
        (\<forall>j. j \<noteq> ip \<longrightarrow> itable s' j = itable s j) \<and>
        i_ref (itable s' ip) = i_ref (itable s ip) + 1 \<and>
        (\<not> holds_inode (itable s) ip dev inum \<longrightarrow> \<not> i_valid (itable s' ip))
    | Panic e \<Rightarrow> (\<forall>i<NINODE. 0 < i_ref (itable s i)) \<and> (\<forall>i. \<not> holds_inode (itable s) i dev inum)
    | Block c \<Rightarrow> False"
proof -
  let ?P = "\<lambda>i. 0 < i_ref (itable s i) \<and> i_dev (itable s i) = dev \<and> i_inum (itable s i) = inum"
  have none: "\<not> holds_inode (itable s) i dev inum" if "scan ?P NINODE = None" for i
    using that by (auto simp: scan_None_iff holds_inode_def)
  show ?thesis
  proof (cases "scan ?P NINODE")
    case (Some ip)
    then have ip: "holds_inode (itable s) ip dev inum" by (auto simp: scan_Some_iff holds_inode_def)
    have e: "iget s dev inum = Ok (ip, upd_inode ip (\<lambda>i. i\<lparr>i_ref := i_ref i + 1\<rparr>) s)"
      using Some by (simp add: iget_def)
    have u: "\<forall>j. holds_inode (itable s) j dev inum \<longrightarrow> j = ip"
      using inv ip unfolding itable_inv_def holds_inode_def by metis
    have i: "itable_inv ((itable s)(ip := (itable s ip)\<lparr>i_ref := i_ref (itable s ip) + 1\<rparr>))"
      using ip by (intro itable_inv_ref inv) (simp add: holds_inode_def)
    show ?thesis
      unfolding e res.case prod.case itable_upd
      by (intro conjI i u) (use ip in \<open>simp_all add: holds_inode_def\<close>)
  next
    case None
    show ?thesis
    proof (cases "scan (\<lambda>i. i_ref (itable s i) = 0) NINODE")
      case (Some ip)
      then have ip: "ip < NINODE" "i_ref (itable s ip) = 0" by (auto simp: scan_Some_iff)
      have e: "iget s dev inum =
          Ok (ip, upd_inode ip (\<lambda>i. i\<lparr>i_dev := dev, i_inum := inum, i_ref := 1, i_valid := False\<rparr>) s)"
        using Some None by (simp add: iget_def)
      show ?thesis
        unfolding e res.case prod.case itable_upd
        using ip none [OF None] itable_inv_fresh [OF inv none [OF None], of ip]
        by (intro conjI) (simp_all, simp add: holds_inode_def)
    next
      case empty: None
      have "0 < i_ref (itable s i)" if "i < NINODE" for i
        using empty inv that by (auto simp: scan_None_iff itable_inv_def order_le_less)
      moreover have e: "iget s dev inum = Panic ''iget: no inodes''"
        using None empty by (simp add: iget_def)
      ultimately show ?thesis unfolding e res.case using none [OF None] by simp
    qed
  qed
qed

theorem iget_unique_witness:
  "itable_inv (itable fs0) \<and> (\<exists>s'. iget fs0 1 1 = Ok (0, s') \<and> holds_inode (itable s') 0 1 1)"
proof -
  have inv: "itable_inv (itable fs0)" by (simp add: itable_inv_def fs0_def inode0_def)
  have "scan (\<lambda>i. i_ref (itable fs0 i) > 0 \<and> i_dev (itable fs0 i) = 1 \<and> i_inum (itable fs0 i) = 1) NINODE = None"
    by (simp add: scan_None_iff fs0_def inode0_def)
  moreover have "scan (\<lambda>i. i_ref (itable fs0 i) = 0) NINODE = Some 0"
    by (simp add: scan_Some_iff fs0_def inode0_def NINODE_def)
  ultimately have "\<exists>s'. iget fs0 1 1 = Ok (0, s')" by (simp add: iget_def)
  then obtain s' where e: "iget fs0 1 1 = Ok (0, s')" ..
  have "holds_inode (itable s') 0 1 1"
    using iget_unique [OF inv, of 1 1] unfolding e res.case prod.case by (elim conjE)
  with inv e show ?thesis by blast
qed

text \<open>
  \<open>writei\<close> refuses a write that would end beyond \<open>MAXFILE\<close> blocks (268 KB), before it touches
  anything.
\<close>

theorem writei_beyond_maxfile:
  assumes "unat off + unat n < 2 ^ 32" and "unat off + unat n > MAXFILE * BSIZE"
  shows "writei ci s ip src off n = Ok (-1, s)"
proof -
  have "unat (off + n) = unat off + unat n"
    using assms(1) by (simp add: unat_word_ariths)
  moreover have "unat (of_nat (MAXFILE * BSIZE) :: uint32) = MAXFILE * BSIZE"
    by (rule unat_of_nat_small) (simp add: MAXFILE_def NDIRECT_def NINDIRECT_def BSIZE_def)
  ultimately show ?thesis
    using assms(2) by (simp add: writei_def word_less_nat_alt)
qed

theorem writei_beyond_maxfile_witness:
  "writei kcopyin fs0 0 0 274432 1 = Ok (-1, fs0)"
  by (rule writei_beyond_maxfile) (simp_all add: MAXFILE_def NDIRECT_def NINDIRECT_def BSIZE_def)

end
