(* ===== verification/Spinlock.thy ===== *)
theory Spinlock
  imports Prelude
begin

text \<open>
  \<open>kernel/spinlock.c\<close>: spinlocks and nested interrupt disabling. The functions are first given
  as the code has them. \<open>lk_step\<close> then interleaves all CPUs at the grain of the atomic accesses to
  \<open>lk->locked\<close> and \<open>lk->cpu\<close>, and the invariant shows mutual exclusion. The other theories rely on it:
  a function that runs with its lock held is one step of the model there.
\<close>

section \<open>Locks and CPUs\<close>

text \<open>\<open>struct cpu*\<close> is the CPU's number, or \<open>None\<close> for the null pointer.\<close>

record spinlock =
  lk_locked :: uint32
  lk_name :: string
  lk_cpu :: "nat option"

text \<open>The fields of \<open>struct cpu\<close> that this file uses, and the hart's interrupt-enable bit \<open>SSTATUS_SIE\<close>.\<close>

record cpu =
  cpu_proc :: "nat option"
  noff :: int
  intena :: bool
  sie :: bool

definition NCPU :: nat where "NCPU = 8"

definition initlock :: "string \<Rightarrow> spinlock" where
  "initlock name = \<lparr>lk_locked = 0, lk_name = name, lk_cpu = None\<rparr>"

definition push_off :: "cpu \<Rightarrow> cpu" where
  "push_off c =
     (let old = sie c; c = c\<lparr>sie := False\<rparr>;
          c = (if noff c = 0 then c\<lparr>intena := old\<rparr> else c)
      in c\<lparr>noff := noff c + 1\<rparr>)"

definition pop_off :: "cpu \<Rightarrow> cpu res" where
  "pop_off c =
     (if sie c then Panic ''pop_off - interruptible''
      else if noff c < 1 then Panic ''pop_off''
      else let c = c\<lparr>noff := noff c - 1\<rparr>
           in Ok (if noff c = 0 \<and> intena c then c\<lparr>sie := True\<rparr> else c))"

definition holding :: "spinlock \<Rightarrow> nat \<Rightarrow> bool" where
  "holding lk me \<longleftrightarrow> lk_locked lk \<noteq> 0 \<and> lk_cpu lk = Some me"

text \<open>The atomic swap: the old value, and the lock afterwards.\<close>

definition test_and_set :: "spinlock \<Rightarrow> uint32 \<times> spinlock" where
  "test_and_set lk = (lk_locked lk, lk\<lparr>lk_locked := 1\<rparr>)"

text \<open>
  \<open>acquire\<close> by the CPU \<open>me\<close>. If the swap finds the lock taken the loop spins until another CPU
  releases it, which is \<open>Block ChSpin\<close>.
\<close>

definition acquire :: "nat \<Rightarrow> spinlock \<Rightarrow> cpu \<Rightarrow> (spinlock \<times> cpu) res" where
  "acquire me lk c =
     (let c = push_off c in
      if holding lk me then Panic ''acquire''
      else let (old, lk) = test_and_set lk in
        if old \<noteq> 0 then Block ChSpin
        else Ok (lk\<lparr>lk_cpu := Some me\<rparr>, c))"

definition release :: "nat \<Rightarrow> spinlock \<Rightarrow> cpu \<Rightarrow> (spinlock \<times> cpu) res" where
  "release me lk c =
     (if \<not> holding lk me then Panic ''release''
      else let lk = lk\<lparr>lk_cpu := None\<rparr>; lk = lk\<lparr>lk_locked := 0\<rparr>
           in bindr (pop_off c) (\<lambda>c. Ok (lk, c)))"

section \<open>All CPUs interleaved\<close>

text \<open>
  Where a CPU is: outside, in the spin loop of \<open>acquire\<close>, after the successful swap, in the critical
  section, after \<open>lk->cpu = 0\<close> in \<open>release\<close>, before \<open>pop_off\<close>, or stopped by a panic.
\<close>

datatype lkpc = Outside | Spinning | Taken | Critical | Dropping | Unlocked | Crashed string

record lksys =
  ls_lock :: spinlock
  ls_cpu :: "nat \<Rightarrow> cpu"
  ls_pc :: "nat \<Rightarrow> lkpc"

definition lk_goto :: "lksys \<Rightarrow> nat \<Rightarrow> lkpc \<Rightarrow> lksys" where
  "lk_goto s i pc = s\<lparr>ls_pc := (ls_pc s)(i := pc)\<rparr>"

text \<open>The next atomic access of CPU \<open>i\<close>.\<close>

definition lk_next :: "nat \<Rightarrow> lksys \<Rightarrow> lksys" where
  "lk_next i s = (case ls_pc s i of
     Outside \<Rightarrow>
       let s1 = s\<lparr>ls_cpu := (ls_cpu s)(i := push_off (ls_cpu s i))\<rparr>
       in lk_goto s1 i (if holding (ls_lock s) i then Crashed ''acquire'' else Spinning)
   | Spinning \<Rightarrow>
       let (old, lk) = test_and_set (ls_lock s)
       in lk_goto (s\<lparr>ls_lock := lk\<rparr>) i (if old \<noteq> 0 then Spinning else Taken)
   | Taken \<Rightarrow> lk_goto (s\<lparr>ls_lock := (ls_lock s)\<lparr>lk_cpu := Some i\<rparr>\<rparr>) i Critical
   | Critical \<Rightarrow>
       if \<not> holding (ls_lock s) i then lk_goto s i (Crashed ''release'')
       else lk_goto (s\<lparr>ls_lock := (ls_lock s)\<lparr>lk_cpu := None\<rparr>\<rparr>) i Dropping
   | Dropping \<Rightarrow> lk_goto (s\<lparr>ls_lock := (ls_lock s)\<lparr>lk_locked := 0\<rparr>\<rparr>) i Unlocked
   | Unlocked \<Rightarrow> (case pop_off (ls_cpu s i) of
         Ok c \<Rightarrow> lk_goto (s\<lparr>ls_cpu := (ls_cpu s)(i := c)\<rparr>) i Outside
       | Panic m \<Rightarrow> lk_goto s i (Crashed m)
       | Block ch \<Rightarrow> s)
   | Crashed m \<Rightarrow> s)"

text \<open>Any CPU takes its next step, or code outside every lock switches a CPU's interrupts on or off.\<close>

inductive lk_step :: "lksys \<Rightarrow> lksys \<Rightarrow> bool" where
  cpu: "i < NCPU \<Longrightarrow> lk_step s (lk_next i s)"
| intr: "ls_pc s i = Outside \<Longrightarrow> noff (ls_cpu s i) = 0 \<Longrightarrow>
     lk_step s (s\<lparr>ls_cpu := (ls_cpu s)(i := (ls_cpu s i)\<lparr>sie := b\<rparr>)\<rparr>)"

inductive lk_reach :: "lksys \<Rightarrow> bool" where
  start: "ls_lock s = initlock name \<Longrightarrow> (\<And>i. ls_pc s i = Outside) \<Longrightarrow> (\<And>i. noff (ls_cpu s i) = 0) \<Longrightarrow> lk_reach s"
| step: "lk_reach s \<Longrightarrow> lk_step s s' \<Longrightarrow> lk_reach s'"

section \<open>The invariant\<close>

fun lk_inside :: "lkpc \<Rightarrow> bool" where
  "lk_inside Taken = True"
| "lk_inside Critical = True"
| "lk_inside Dropping = True"
| "lk_inside _ = False"

fun lk_pc_ok :: "lkpc \<Rightarrow> cpu \<Rightarrow> bool" where
  "lk_pc_ok Outside c = (noff c = 0)"
| "lk_pc_ok (Crashed m) c = False"
| "lk_pc_ok _ c = (noff c = 1 \<and> \<not> sie c)"

text \<open>\<open>h\<close> is the CPU inside, if there is one.\<close>

definition lk_inv :: "nat option \<Rightarrow> lksys \<Rightarrow> bool" where
  "lk_inv h s \<longleftrightarrow>
     (\<forall>i. lk_inside (ls_pc s i) \<longleftrightarrow> h = Some i) \<and> (lk_locked (ls_lock s) \<noteq> 0 \<longleftrightarrow> h \<noteq> None) \<and>
     (\<forall>i. lk_cpu (ls_lock s) = Some i \<longleftrightarrow> ls_pc s i = Critical) \<and>
     (\<forall>i. lk_pc_ok (ls_pc s i) (ls_cpu s i))"

lemma push_off_simps [simp]:
  "noff (push_off c) = noff c + 1" "\<not> sie (push_off c)"
  "intena (push_off c) = (if noff c = 0 then sie c else intena c)" "cpu_proc (push_off c) = cpu_proc c"
  by (auto simp: push_off_def Let_def)

lemma pop_off_Ok: "\<not> sie c \<Longrightarrow> 1 \<le> noff c \<Longrightarrow>
    pop_off c = Ok (c\<lparr>noff := noff c - 1, sie := noff c = 1 \<and> intena c\<rparr>)"
  by (auto simp: pop_off_def Let_def)

lemma lk_inv_goto:
  assumes "lk_inv h s" and "lk_pc_ok pc (c i)" and "\<And>j. j \<noteq> i \<Longrightarrow> c j = ls_cpu s j"
    and "lk_inside pc \<longleftrightarrow> h' = Some i" and "\<And>j. j \<noteq> i \<Longrightarrow> h' = Some j \<longleftrightarrow> h = Some j"
    and "lk_locked lk \<noteq> 0 \<longleftrightarrow> h' \<noteq> None" and "lk_cpu lk = Some i \<longleftrightarrow> pc = Critical"
    and "\<And>j. j \<noteq> i \<Longrightarrow> lk_cpu lk = Some j \<longleftrightarrow> lk_cpu (ls_lock s) = Some j"
  shows "lk_inv h' (lk_goto (s\<lparr>ls_lock := lk, ls_cpu := c\<rparr>) i pc)"
  using assms unfolding lk_inv_def lk_goto_def by auto

lemma lk_next_inv:
  assumes inv: "lk_inv h s"
  shows "\<exists>h'. lk_inv h' (lk_next i s)"
proof -
  have pc: "lk_pc_ok (ls_pc s i) (ls_cpu s i)" "lk_inside (ls_pc s i) \<longleftrightarrow> h = Some i"
    "lk_cpu (ls_lock s) = Some i \<longleftrightarrow> ls_pc s i = Critical" "lk_locked (ls_lock s) \<noteq> 0 \<longleftrightarrow> h \<noteq> None"
    using inv unfolding lk_inv_def by blast+
  have only: "lk_cpu (ls_lock s) \<noteq> Some j" if "h = Some i" "j \<noteq> i" for j
    using inv that unfolding lk_inv_def by (metis lk_inside.simps(2) option.inject)
  note go = lk_inv_goto [OF inv, where i = i]
  show ?thesis
  proof (cases "ls_pc s i")
    case Outside
    then show ?thesis
      using go [where pc = Spinning and c = "(ls_cpu s)(i := push_off (ls_cpu s i))" and h' = h and lk = "ls_lock s"] pc
      by (auto simp: lk_next_def holding_def Let_def intro!: exI [of _ h])
  next
    case Spinning
    then show ?thesis
      using go [where pc = Spinning and c = "ls_cpu s" and h' = h and lk = "(ls_lock s)\<lparr>lk_locked := 1\<rparr>"]
        go [where pc = Taken and c = "ls_cpu s" and h' = "Some i" and lk = "(ls_lock s)\<lparr>lk_locked := 1\<rparr>"] pc
      by (cases "h = None") (auto simp: lk_next_def test_and_set_def)
  next
    case Taken
    then show ?thesis
      using go [where pc = Critical and c = "ls_cpu s" and h' = h and lk = "(ls_lock s)\<lparr>lk_cpu := Some i\<rparr>"] pc only
      by (auto simp: lk_next_def)
  next
    case Critical
    then show ?thesis
      using go [where pc = Dropping and c = "ls_cpu s" and h' = h and lk = "(ls_lock s)\<lparr>lk_cpu := None\<rparr>"] pc only
      by (auto simp: lk_next_def holding_def)
  next
    case Dropping
    then show ?thesis
      using go [where pc = Unlocked and c = "ls_cpu s" and h' = None and lk = "(ls_lock s)\<lparr>lk_locked := 0\<rparr>"] pc
      by (auto simp: lk_next_def)
  next
    case Unlocked
    then show ?thesis
      using go [where pc = Outside and h' = h and lk = "ls_lock s" and c = "(ls_cpu s)(i := (ls_cpu s i)\<lparr>noff := 0, sie := intena (ls_cpu s i)\<rparr>)"] pc
      by (auto simp: lk_next_def pop_off_Ok)
  next
    case (Crashed m)
    then show ?thesis using inv by (auto simp: lk_next_def)
  qed
qed

lemma lk_reach_inv: "lk_reach s \<Longrightarrow> \<exists>h. lk_inv h s"
proof (induction rule: lk_reach.induct)
  case (start s name)
  then have "lk_inv None s" by (simp add: lk_inv_def initlock_def)
  then show ?case ..
next
  case (step s s')
  then obtain h where h: "lk_inv h s" by blast
  from step.hyps(2) show ?case
  proof cases
    case (cpu i)
    then show ?thesis using h lk_next_inv by simp
  next
    case (intr i b)
    then have "lk_inv h s'" using h by (auto simp: lk_inv_def)
    then show ?thesis ..
  qed
qed

section \<open>Properties\<close>

text \<open>
  C3. However the CPUs interleave, at most one of them is between the atomic swap that takes a
  spinlock and the store that frees it; while any CPU is inside \<open>acquire\<close>, the critical section or \<open>release\<close>
  its interrupts are off; and none of the panics of \<open>acquire\<close>, \<open>release\<close> and \<open>pop_off\<close> is reached.
\<close>

theorem spinlock_mutual_exclusion:
  assumes "lk_reach s"
  shows "(\<forall>i j. lk_inside (ls_pc s i) \<and> lk_inside (ls_pc s j) \<longrightarrow> i = j) \<and>
         (\<forall>i. ls_pc s i \<noteq> Outside \<longrightarrow> \<not> sie (ls_cpu s i)) \<and> (\<forall>i m. ls_pc s i \<noteq> Crashed m) \<and>
         (\<forall>i. ls_pc s i = Critical \<longrightarrow> holding (ls_lock s) i)"
proof -
  obtain h where inv: "lk_inv h s" using lk_reach_inv [OF assms] ..
  then have ok: "lk_pc_ok (ls_pc s i) (ls_cpu s i)" for i by (simp add: lk_inv_def)
  have "ls_pc s i \<noteq> Outside \<longrightarrow> \<not> sie (ls_cpu s i)" "ls_pc s i \<noteq> Crashed m" for i m
    using ok [of i] by (cases "ls_pc s i"; simp)+
  moreover have "holding (ls_lock s) i" if "ls_pc s i = Critical" for i
    using that inv unfolding lk_inv_def holding_def by (metis lk_inside.simps(2) option.distinct(1))
  moreover have "i = j" if "lk_inside (ls_pc s i)" "lk_inside (ls_pc s j)" for i j
    using that inv by (auto simp: lk_inv_def)
  ultimately show ?thesis by blast
qed

text \<open>Two CPUs contend: CPU 0 gets into its critical section while CPU 1 spins.\<close>

definition lk_start :: lksys where
  "lk_start = \<lparr>ls_lock = initlock ''kmem'',
     ls_cpu = (\<lambda>_. \<lparr>cpu_proc = None, noff = 0, intena = False, sie = True\<rparr>), ls_pc = (\<lambda>_. Outside)\<rparr>"

lemma lk_contended: "lk_reach (lk_next 1 (lk_next 0 (lk_next 0 (lk_next 1 (lk_next 0 lk_start)))))"
proof -
  have "lk_reach lk_start" by (rule lk_reach.start) (auto simp: lk_start_def)
  moreover have "lk_reach (lk_next i s)" if "lk_reach s" "i < NCPU" for i s
    using that lk_reach.step lk_step.cpu by blast
  ultimately show ?thesis by (simp add: NCPU_def)
qed

theorem spinlock_mutual_exclusion_witness:
  "let s = lk_next 1 (lk_next 0 (lk_next 0 (lk_next 1 (lk_next 0 lk_start)))) in
   ls_pc s 0 = Critical \<and> ls_pc s 1 = Spinning \<and> holding (ls_lock s) 0 \<and> \<not> sie (ls_cpu s 1)"
  using spinlock_mutual_exclusion [OF lk_contended]
  by (simp add: lk_start_def lk_next_def lk_goto_def initlock_def holding_def test_and_set_def Let_def)

primrec push_offs :: "nat \<Rightarrow> cpu \<Rightarrow> cpu" where
  "push_offs 0 c = c"
| "push_offs (Suc n) c = push_offs n (push_off c)"

primrec pop_offs :: "nat \<Rightarrow> cpu \<Rightarrow> cpu res" where
  "pop_offs 0 c = Ok c"
| "pop_offs (Suc n) c = bindr (pop_off c) (pop_offs n)"

lemma push_offs_eq:
  assumes "0 < noff c" and "\<not> sie c"
  shows "push_offs n c = c\<lparr>noff := noff c + int n\<rparr>"
  using assms
proof (induction n arbitrary: c)
  case (Suc n)
  have "push_off c = c\<lparr>noff := noff c + 1\<rparr>" using Suc.prems by (simp add: push_off_def)
  with Suc show ?case by (simp add: algebra_simps)
qed simp

lemma pop_offs_eq:
  "\<not> sie c \<Longrightarrow> int n < noff c \<Longrightarrow> pop_offs n c = Ok (c\<lparr>noff := noff c - int n\<rparr>)"
  by (induction n arbitrary: c) (auto simp: pop_off_Ok)

lemma pop_offs_last: "pop_offs (Suc m) e = bindr (pop_offs m e) pop_off"
proof (induction m arbitrary: e)
  case 0
  then show ?case by (cases "pop_off e") auto
next
  case (Suc m)
  then show ?case by (cases "pop_off e") auto
qed

text \<open>
  \<open>push_off\<close> and \<open>pop_off\<close> match: after \<open>n\<close> of each, the CPU is back at nesting depth 0 with its
  interrupts exactly as they were, whether on or off, and no call panics.
\<close>

theorem push_pop_matched:
  assumes "noff c = 0"
  shows "\<exists>c'. pop_offs (Suc n) (push_offs (Suc n) c) = Ok c' \<and> noff c' = 0 \<and> sie c' = sie c"
proof -
  let ?d = "push_off c"
  have d: "noff ?d = 1" "\<not> sie ?d" "intena ?d = sie c" using assms by auto
  have "push_offs n ?d = ?d\<lparr>noff := 1 + int n\<rparr>"
    using push_offs_eq [of ?d n] d by simp
  then have "pop_offs (Suc n) (push_offs (Suc n) c) = pop_off (?d\<lparr>noff := 1\<rparr>)"
    using pop_offs_eq [of "?d\<lparr>noff := 1 + int n\<rparr>" n] d by (simp add: pop_offs_last del: pop_offs.simps)
  then show ?thesis using d by (simp add: pop_off_Ok del: pop_offs.simps)
qed

theorem push_pop_matched_witness:
  "\<exists>c'. pop_offs 3 (push_offs 3 \<lparr>cpu_proc = None, noff = 0, intena = False, sie = True\<rparr>) = Ok c' \<and> sie c'"
  using push_pop_matched [of "\<lparr>cpu_proc = None, noff = 0, intena = False, sie = True\<rparr>" 2]
  by (auto simp: numeral_3_eq_3)

end
