(* ===== verification/Kstate.thy ===== *)
theory Kstate
  imports Fs_Correct Spinlock Pagetable
begin

text \<open>
  The kernel's state above the file system: the process table with the paging information of each
  process (\<open>kernel/proc.h\<close>, \<open>kernel/paging.h\<close>), the file table (\<open>kernel/file.h\<close>) and the pipes; and
  the operations of \<open>kernel/proc.c\<close> that only concern the process table: process ids, sleeping and
  waking, killing, the scheduler's loop. Pointers to table entries are indices, null is \<open>None\<close>.
  Every operation holds the lock of the process it changes, and is one step here.
\<close>

section \<open>State\<close>

definition NOFILE :: nat where "NOFILE = 16"
definition NFILE :: nat where "NFILE = 100"
definition NDEV :: nat where "NDEV = 10"
definition MAX_SWAP_PAGES :: nat where "MAX_SWAP_PAGES = 1024"
definition SWAP_BITMAP_SIZE :: nat where "SWAP_BITMAP_SIZE = (MAX_SWAP_PAGES + 7) div 8"
definition MAX_TRACKED_PAGES :: nat where "MAX_TRACKED_PAGES = 35000"
definition PIPESIZE :: nat where "PIPESIZE = 512"

datatype procstate = UNUSED | USED | SLEEPING | RUNNABLE | RUNNING | ZOMBIE

datatype pgstate = UNMAPPED | RESIDENT | SWAPPED

text \<open>
  A C \<open>int\<close> that counts is kept as an \<open>int\<close> and cut to its 32 bits when it is incremented, which is what
  the compiled code does when it passes \<open>INT_MAX\<close>.
\<close>

definition INT_MAX :: int where "INT_MAX = 0x7FFFFFFF"

definition c_int :: "int \<Rightarrow> int" where
  "c_int i = signed_take_bit 31 i"

lemma c_int_small: "- INT_MAX - 1 \<le> i \<Longrightarrow> i \<le> INT_MAX \<Longrightarrow> c_int i = i"
  by (simp add: c_int_def INT_MAX_def signed_take_bit_int_eq_self)

lemma c_int_overflow: "c_int (INT_MAX + 1) = - INT_MAX - 1"
  by (simp add: c_int_def INT_MAX_def signed_take_bit_eq_take_bit_shift take_bit_eq_mod)

record page_info =
  pg_va :: uint64
  pg_state :: pgstate
  pg_dirty :: bool
  pg_fifo_seq :: int
  pg_swap_slot :: int
  pg_exec_offset :: uint64
  pg_from_exec :: bool

record paging_info =
  swapfile :: "nat option"
  swappath :: bytes
  swap_bitmap :: bytes
  swap_used :: int
  next_fifo_seq :: int
  pages :: "nat \<Rightarrow> page_info"
  num_pages :: int
  text_start :: uint64
  text_end :: uint64
  data_start :: uint64
  data_end :: uint64
  heap_start :: uint64
  stack_top :: uint64
  text_offset :: uint64
  data_offset :: uint64
  text_filesz :: uint64
  data_filesz :: uint64
  exec_ip :: "nat option"

text \<open>Of \<open>struct context\<close>, the two registers that C code sets; the others are zeroed and only \<open>swtch.S\<close> uses them.\<close>

record kcontext =
  ctx_ra :: uint64
  ctx_sp :: uint64

record proc =
  p_state :: procstate
  p_chan :: "chan option"
  p_killed :: bool
  p_xstate :: uint32
  p_pid :: int
  p_parent :: "nat option"
  p_kstack :: uint64
  p_sz :: uint64
  p_pagetable :: uint64
  p_trapframe :: uint64
  p_context :: kcontext
  p_ofile :: "nat \<Rightarrow> nat option"
  p_cwd :: "nat option"
  p_name :: bytes
  p_paging :: paging_info

datatype fdtype = FD_NONE | FD_PIPE | FD_INODE | FD_DEVICE

record kfile =
  f_type :: fdtype
  f_ref :: int
  f_readable :: bool
  f_writable :: bool
  f_pipe :: uint64
  f_ip :: nat
  f_off :: uint32
  f_major :: uint16

record pipe =
  pi_data :: bytes
  pi_nread :: uint32
  pi_nwrite :: uint32
  pi_readopen :: bool
  pi_writeopen :: bool

text \<open>
  \<open>cur\<close> is \<open>myproc()\<close>. A pipe lives in a page of its own; \<open>pipes\<close> holds the structure by the address
  of the page.
\<close>

record kstate = fstate +
  procs :: "nat \<Rightarrow> proc"
  cur :: nat
  initproc :: "nat option"
  nextpid :: int
  ftable :: "nat \<Rightarrow> kfile"
  pipes :: "uint64 \<Rightarrow> pipe"
  ticks :: uint32

abbreviation myproc :: "'a kstate_scheme \<Rightarrow> proc" where
  "myproc s \<equiv> procs s (cur s)"

abbreviation mypaging :: "'a kstate_scheme \<Rightarrow> paging_info" where
  "mypaging s \<equiv> p_paging (procs s (cur s))"

definition upd_proc :: "nat \<Rightarrow> (proc \<Rightarrow> proc) \<Rightarrow> 'a kstate_scheme \<Rightarrow> 'a kstate_scheme" where
  "upd_proc p f s = s\<lparr>procs := (procs s)(p := f (procs s p))\<rparr>"

definition upd_paging :: "nat \<Rightarrow> (paging_info \<Rightarrow> paging_info) \<Rightarrow> 'a kstate_scheme \<Rightarrow> 'a kstate_scheme" where
  "upd_paging p f s = upd_proc p (\<lambda>x. x\<lparr>p_paging := f (p_paging x)\<rparr>) s"

definition upd_file :: "nat \<Rightarrow> (kfile \<Rightarrow> kfile) \<Rightarrow> 'a kstate_scheme \<Rightarrow> 'a kstate_scheme" where
  "upd_file f g s = s\<lparr>ftable := (ftable s)(f := g (ftable s f))\<rparr>"

lemma upd_proc_simps [simp]:
  "procs (upd_proc p f s) = (procs s)(p := f (procs s p))" "cur (upd_proc p f s) = cur s"
  "ftable (upd_proc p f s) = ftable s" "pipes (upd_proc p f s) = pipes s" "initproc (upd_proc p f s) = initproc s"
  "itable (upd_proc p f s) = itable s" "phys (upd_proc p f s) = phys s" "nextpid (upd_proc p f s) = nextpid s"
  by (simp_all add: upd_proc_def)

lemma upd_paging_simps [simp]:
  "procs (upd_paging p f s) = (procs s)(p := (procs s p)\<lparr>p_paging := f (p_paging (procs s p))\<rparr>)"
  "cur (upd_paging p f s) = cur s" "ftable (upd_paging p f s) = ftable s" "phys (upd_paging p f s) = phys s"
  by (simp_all add: upd_paging_def)

lemma upd_file_simps [simp]:
  "ftable (upd_file f g s) = (ftable s)(f := g (ftable s f))" "procs (upd_file f g s) = procs s"
  "cur (upd_file f g s) = cur s" "pipes (upd_file f g s) = pipes s" "itable (upd_file f g s) = itable s"
  by (simp_all add: upd_file_def)

section \<open>Process table\<close>

definition procinit :: "'a kstate_scheme \<Rightarrow> 'a kstate_scheme" where
  "procinit s = s\<lparr>procs := (\<lambda>p. if p < NPROC then (procs s p)\<lparr>p_state := UNUSED, p_kstack := KSTACK p\<rparr> else procs s p)\<rparr>"

definition allocpid :: "'a kstate_scheme \<Rightarrow> int \<times> 'a kstate_scheme" where
  "allocpid s = (nextpid s, s\<lparr>nextpid := nextpid s + 1\<rparr>)"

definition wakeup :: "chan \<Rightarrow> 'a kstate_scheme \<Rightarrow> 'a kstate_scheme" where
  "wakeup ch s = s\<lparr>procs := (\<lambda>p.
     if p < NPROC \<and> p \<noteq> cur s \<and> p_state (procs s p) = SLEEPING \<and> p_chan (procs s p) = Some ch
     then (procs s p)\<lparr>p_state := RUNNABLE\<rparr> else procs s p)\<rparr>"

text \<open>The wakeups that lower layers asked for, delivered to the process table in their order.\<close>

definition deliver_wakes :: "'a kstate_scheme \<Rightarrow> 'a kstate_scheme" where
  "deliver_wakes s = (fold wakeup (wakes s) s)\<lparr>wakes := []\<rparr>"

text \<open>\<open>sleep\<close> before its call of \<open>sched\<close>, and after its return from it.\<close>

definition sleep_enter :: "chan \<Rightarrow> 'a kstate_scheme \<Rightarrow> 'a kstate_scheme" where
  "sleep_enter ch s = upd_proc (cur s) (\<lambda>p. p\<lparr>p_chan := Some ch, p_state := SLEEPING\<rparr>) s"

definition sleep_leave :: "'a kstate_scheme \<Rightarrow> 'a kstate_scheme" where
  "sleep_leave s = upd_proc (cur s) (\<lambda>p. p\<lparr>p_chan := None\<rparr>) s"

definition kkill :: "int \<Rightarrow> 'a kstate_scheme \<Rightarrow> int \<times> 'a kstate_scheme" where
  "kkill pid s =
     (case scan (\<lambda>p. p_pid (procs s p) = pid) NPROC of
        None \<Rightarrow> (-1, s)
      | Some p \<Rightarrow>
          (0, upd_proc p (\<lambda>x.
             let x = x\<lparr>p_killed := True\<rparr> in if p_state x = SLEEPING then x\<lparr>p_state := RUNNABLE\<rparr> else x) s))"

definition setkilled :: "nat \<Rightarrow> 'a kstate_scheme \<Rightarrow> 'a kstate_scheme" where
  "setkilled p s = upd_proc p (\<lambda>x. x\<lparr>p_killed := True\<rparr>) s"

definition killed :: "nat \<Rightarrow> 'a kstate_scheme \<Rightarrow> bool" where
  "killed p s = p_killed (procs s p)"

text \<open>\<open>reparent\<close>; \<open>initproc\<close> is woken when there was a child to hand over.\<close>

definition reparent_one :: "nat \<Rightarrow> nat \<Rightarrow> 'a kstate_scheme \<Rightarrow> 'a kstate_scheme" where
  "reparent_one p pp s =
     (if p_parent (procs s pp) = Some p then
        let s = upd_proc pp (\<lambda>x. x\<lparr>p_parent := initproc s\<rparr>) s
        in (case initproc s of Some i \<Rightarrow> wakeup (ChProc i) s | None \<Rightarrow> s)
      else s)"

definition reparent :: "nat \<Rightarrow> 'a kstate_scheme \<Rightarrow> 'a kstate_scheme" where
  "reparent p s = fold (reparent_one p) [0..<NPROC] s"

text \<open>
  The checks of \<open>sched\<close>, on the lock of the process and the state of the CPU \<open>c\<close> that runs it; \<open>Ok\<close>
  is the call of \<open>swtch\<close>.
\<close>

definition sched :: "nat \<Rightarrow> spinlock \<Rightarrow> cpu \<Rightarrow> proc \<Rightarrow> unit res" where
  "sched me lk c p =
     (if \<not> holding lk me then Panic ''sched p->lock''
      else if noff c \<noteq> 1 then Panic ''sched locks''
      else if p_state p = RUNNING then Panic ''sched RUNNING''
      else if sie c then Panic ''sched interruptible''
      else Ok ())"

definition yield :: "'a kstate_scheme \<Rightarrow> 'a kstate_scheme" where
  "yield s = upd_proc (cur s) (\<lambda>p. p\<lparr>p_state := RUNNABLE\<rparr>) s"

text \<open>
  One turn of the \<open>for (;;)\<close> of \<open>scheduler\<close>: the processes it runs, in order. \<open>run p s\<close> is what
  happens between \<open>swtch\<close> to process \<open>p\<close> and its return, the work of other CPUs included; between
  two table entries other CPUs act too, which is \<open>idle p\<close> before entry \<open>p\<close> is examined.
\<close>

primrec scheduler_pass ::
  "(nat \<Rightarrow> 'a kstate_scheme \<Rightarrow> 'a kstate_scheme) \<Rightarrow> (nat \<Rightarrow> 'a kstate_scheme \<Rightarrow> 'a kstate_scheme) \<Rightarrow>
   nat \<Rightarrow> 'a kstate_scheme \<Rightarrow> nat list \<times> 'a kstate_scheme" where
  "scheduler_pass run idle 0 s = ([], s)"
| "scheduler_pass run idle (Suc p) s =
     (let (ran, s) = scheduler_pass run idle p s; s = idle p s in
      if p_state (procs s p) = RUNNABLE
      then (ran @ [p], run p ((upd_proc p (\<lambda>x. x\<lparr>p_state := RUNNING\<rparr>) s)\<lparr>cur := p\<rparr>))
      else (ran, s))"

section \<open>Results\<close>

text \<open>A kernel with one running process, \<open>init\<close>, at index 0 and a second one that can run.\<close>

definition paging0 :: paging_info where
  "paging0 = \<lparr>swapfile = None, swappath = (\<lambda>_. 0), swap_bitmap = (\<lambda>_. 0), swap_used = 0, next_fifo_seq = 1,
     pages = (\<lambda>_. \<lparr>pg_va = 0, pg_state = UNMAPPED, pg_dirty = False, pg_fifo_seq = 0, pg_swap_slot = -1,
       pg_exec_offset = 0, pg_from_exec = False\<rparr>), num_pages = 0, text_start = 0, text_end = 0, data_start = 0,
     data_end = 0, heap_start = 0, stack_top = 0, text_offset = 0, data_offset = 0, text_filesz = 0, data_filesz = 0,
     exec_ip = None\<rparr>"

definition proc0 :: "int \<Rightarrow> procstate \<Rightarrow> proc" where
  "proc0 pid st = \<lparr>p_state = st, p_chan = None, p_killed = False, p_xstate = 0, p_pid = pid, p_parent = None,
     p_kstack = 0, p_sz = 0, p_pagetable = 0, p_trapframe = 0, p_context = \<lparr>ctx_ra = 0, ctx_sp = 0\<rparr>,
     p_ofile = (\<lambda>_. None), p_cwd = None, p_name = (\<lambda>_. 0), p_paging = paging0\<rparr>"

definition k0 :: kstate where
  "k0 = \<lparr>phys = phys fs0, freelist = 0, kend = 0, mypid = 1, wakes = [], disk = disk fs0, dtrace = [],
     bufs = bufs fs0, lru = lru fs0, lg = lg fs0, sb = sb fs0, itable = itable fs0,
     procs = (\<lambda>p. if p = 0 then proc0 1 RUNNING else if p = 1 then proc0 2 RUNNABLE else proc0 0 UNUSED),
     cur = 0, initproc = Some 0, nextpid = 3,
     ftable = (\<lambda>_. \<lparr>f_type = FD_NONE, f_ref = 0, f_readable = False, f_writable = False, f_pipe = 0, f_ip = 0,
       f_off = 0, f_major = 0\<rparr>),
     pipes = (\<lambda>_. \<lparr>pi_data = (\<lambda>_. 0), pi_nread = 0, pi_nwrite = 0, pi_readopen = False, pi_writeopen = False\<rparr>),
     ticks = 0\<rparr>"

text \<open>
  C12. The scheduler starves no process: a process that is \<open>RUNNABLE\<close> when a turn of the scheduler's
  loop begins, and that no other CPU takes in between, is run in that very turn.
\<close>

theorem scheduler_runs_every_runnable:
  assumes q: "q < NPROC" and rq: "p_state (procs s q) = RUNNABLE"
    and idle: "\<And>p t. p_state (procs t q) = RUNNABLE \<Longrightarrow> p_state (procs (idle p t) q) = RUNNABLE"
    and run: "\<And>p t. p \<noteq> q \<Longrightarrow> p_state (procs t q) = RUNNABLE \<Longrightarrow> p_state (procs (run p t) q) = RUNNABLE"
  shows "q \<in> set (fst (scheduler_pass run idle NPROC s))"
proof -
  have "if n \<le> q then p_state (procs (snd (scheduler_pass run idle n s)) q) = RUNNABLE
        else q \<in> set (fst (scheduler_pass run idle n s))" for n
  proof (induction n)
    case 0
    show ?case using rq by simp
  next
    case (Suc n)
    obtain ran t where r: "scheduler_pass run idle n s = (ran, t)" by force
    have ih: "if n \<le> q then p_state (procs t q) = RUNNABLE else q \<in> set ran"
      using Suc.IH unfolding r fst_conv snd_conv .
    show ?case
    proof (cases "n < q")
      case True
      then have "p_state (procs (idle n t) q) = RUNNABLE" using ih idle by simp
      with True run [of n] show ?thesis by (simp add: r Let_def)
    next
      case False
      with ih idle [of t n] show ?thesis by (auto simp: r Let_def split: if_splits)
    qed
  qed
  from this [of NPROC] q show ?thesis by simp
qed

theorem scheduler_runs_every_runnable_witness:
  "1 \<in> set (fst (scheduler_pass (\<lambda>p t. t) (\<lambda>p t. t) NPROC k0))"
  by (rule scheduler_runs_every_runnable) (simp_all add: NPROC_def k0_def proc0_def)

text \<open>
  \<open>kkill\<close> on the id of a process marks it as killed and makes it runnable if it slept, so it
  returns to its trap handler and exits; on an id that no process has it returns -1 and changes
  nothing.
\<close>

theorem kkill_marks_and_wakes:
  "case kkill pid s of (r, s') \<Rightarrow>
     (r = -1 \<and> s' = s \<and> (\<forall>p<NPROC. p_pid (procs s p) \<noteq> pid)) \<or>
     (r = 0 \<and> (\<exists>p<NPROC. p_pid (procs s p) = pid \<and> killed p s' \<and> p_state (procs s' p) \<noteq> SLEEPING \<and>
        (p_state (procs s p) \<noteq> SLEEPING \<and> p_state (procs s' p) = p_state (procs s p) \<or>
         p_state (procs s p) = SLEEPING \<and> p_state (procs s' p) = RUNNABLE) \<and>
        (\<forall>q. q \<noteq> p \<longrightarrow> procs s' q = procs s q)))"
proof (cases "scan (\<lambda>p. p_pid (procs s p) = pid) NPROC")
  case None
  then have "\<forall>p<NPROC. p_pid (procs s p) \<noteq> pid" by (simp add: scan_None_iff)
  with None show ?thesis by (simp add: kkill_def)
next
  case (Some p)
  then have "p < NPROC" "p_pid (procs s p) = pid" by (auto simp: scan_Some_iff)
  with Some show ?thesis
    by (auto simp: kkill_def killed_def Let_def intro!: exI [of _ p])
qed

theorem kkill_marks_and_wakes_witness: "killed 1 (snd (kkill 2 k0))"
proof -
  have e: "kkill 2 k0 = (0, snd (kkill 2 k0))"
    by (simp add: kkill_def scan_def NPROC_def upt_rec k0_def proc0_def)
  from kkill_marks_and_wakes [where pid = 2 and s = k0] obtain p where "p < NPROC" "p_pid (procs k0 p) = 2" "killed p (snd (kkill 2 k0))"
    by (subst (asm) e) auto
  moreover from this(2) have "p = 1" by (auto simp: k0_def proc0_def split: if_splits)
  ultimately show ?thesis by simp
qed

text \<open>No wakeup is lost: what \<open>sleep\<close> has put to sleep, a later \<open>wakeup\<close> on the channel makes runnable.\<close>

lemma wakeup_simps [simp]:
  "cur (wakeup ch s) = cur s" "ftable (wakeup ch s) = ftable s" "pipes (wakeup ch s) = pipes s"
  "initproc (wakeup ch s) = initproc s" "p_parent (procs (wakeup ch s) p) = p_parent (procs s p)"
  "p_killed (procs (wakeup ch s) p) = p_killed (procs s p)" "p_pid (procs (wakeup ch s) p) = p_pid (procs s p)"
  "p_chan (procs (wakeup ch s) p) = p_chan (procs s p)" "p_paging (procs (wakeup ch s) p) = p_paging (procs s p)"
  by (simp_all add: wakeup_def)

lemma wakeup_state:
  "p_state (procs (wakeup ch s) p) =
     (if p < NPROC \<and> p \<noteq> cur s \<and> p_state (procs s p) = SLEEPING \<and> p_chan (procs s p) = Some ch then RUNNABLE
      else p_state (procs s p))"
  by (simp add: wakeup_def)

lemma reparent_upto:
  assumes "initproc s = Some i" and "i \<noteq> p"
  defines "t n \<equiv> fold (reparent_one p) [0..<n] s"
  shows "cur (t n) = cur s \<and> initproc (t n) = initproc s \<and>
     (\<forall>q. p_parent (procs (t n) q) = (if q < n \<and> p_parent (procs s q) = Some p then Some i else p_parent (procs s q))) \<and>
     (\<forall>q. p_chan (procs (t n) q) = p_chan (procs s q)) \<and>
     (\<forall>q. p_state (procs (t n) q) =
        (if (\<exists>c<n. p_parent (procs s c) = Some p) \<and> q < NPROC \<and> q \<noteq> cur s \<and> p_state (procs s q) = SLEEPING \<and>
            p_chan (procs s q) = Some (ChProc i) then RUNNABLE else p_state (procs s q)))"
proof (induction n)
  case 0
  show ?case by (simp add: t_def)
next
  case (Suc n)
  have step: "t (Suc n) = reparent_one p n (t n)" by (simp add: t_def)
  show ?case
  proof (cases "p_parent (procs s n) = Some p")
    case True
    with Suc.IH have e: "t (Suc n) = wakeup (ChProc i) (upd_proc n (\<lambda>x. x\<lparr>p_parent := Some i\<rparr>) (t n))"
      unfolding step reparent_one_def using assms(1) by (simp add: Let_def)
    have ex: "\<exists>c<Suc n. p_parent (procs s c) = Some p" using True by auto
    show ?thesis
      unfolding e using Suc.IH True ex assms by (auto simp: wakeup_state less_Suc_eq)
  next
    case False
    with Suc.IH have "t (Suc n) = t n" unfolding step reparent_one_def by simp
    with Suc.IH False show ?thesis by (auto simp: less_Suc_eq)
  qed
qed

text \<open>
  After \<open>reparent\<close> no process has the exiting process as its parent: its children belong to
  \<open>init\<close>, every other parent link is as before, and if there was a child to hand over and \<open>init\<close>
  slept waiting for its children, it has been woken.
\<close>

theorem reparent_gives_children_to_init:
  assumes "initproc s = Some i" and "i \<noteq> p"
  shows "(\<forall>q<NPROC. p_parent (procs (reparent p s) q) \<noteq> Some p) \<and>
     (\<forall>q<NPROC. p_parent (procs (reparent p s) q) =
        (if p_parent (procs s q) = Some p then Some i else p_parent (procs s q))) \<and>
     ((\<exists>c<NPROC. p_parent (procs s c) = Some p) \<and> i < NPROC \<and> i \<noteq> cur s \<and> p_state (procs s i) = SLEEPING \<and>
        p_chan (procs s i) = Some (ChProc i) \<longrightarrow> p_state (procs (reparent p s) i) = RUNNABLE)"
  using reparent_upto [OF assms, of NPROC] assms unfolding reparent_def by simp

theorem reparent_gives_children_to_init_witness:
  "let s = upd_proc 2 (\<lambda>x. x\<lparr>p_parent := Some 1\<rparr>) k0 in p_parent (procs (reparent 1 s) 2) = Some 0"
proof -
  let ?s = "upd_proc 2 (\<lambda>x. x\<lparr>p_parent := Some 1\<rparr>) k0"
  have "initproc ?s = Some 0" by (simp add: k0_def)
  from reparent_gives_children_to_init [OF this, of 1] show ?thesis by (simp add: NPROC_def)
qed

end
