(* ===== verification/Create.thy ===== *)
theory Create
  imports Kstate
begin

text \<open>
  The parts of \<open>kernel/file.c\<close> and \<open>kernel/sysfile.c\<close> that the paging code relies on: the table of
  open files and \<open>create\<close>.
\<close>

section \<open>The file table\<close>

definition filealloc :: "'a kstate_scheme \<Rightarrow> nat option \<times> 'a kstate_scheme" where
  "filealloc s =
     (case scan (\<lambda>f. f_ref (ftable s f) = 0) NFILE of
        Some f \<Rightarrow> (Some f, upd_file f (\<lambda>x. x\<lparr>f_ref := 1\<rparr>) s)
      | None \<Rightarrow> (None, s))"

definition filedup :: "'a kstate_scheme \<Rightarrow> nat \<Rightarrow> 'a kstate_scheme res" where
  "filedup s f =
     (if f_ref (ftable s f) < 1 then Panic ''filedup''
      else Ok (upd_file f (\<lambda>x. x\<lparr>f_ref := f_ref x + 1\<rparr>) s))"

section \<open>Creating files\<close>

text \<open>A C string, and the current directory; using a null \<open>cwd\<close> is a fault in the kernel.\<close>

definition cstr :: "uint8 list \<Rightarrow> bytes" where
  "cstr xs = (\<lambda>i. if i < length xs then xs ! i else 0)"

definition mycwd :: "'a kstate_scheme \<Rightarrow> nat res" where
  "mycwd s = (case p_cwd (myproc s) of Some ip \<Rightarrow> Ok ip | None \<Rightarrow> Panic ''kerneltrap'')"

text \<open>The directory at which a relative path starts; an absolute one does not use it.\<close>

definition start_dir :: "'a kstate_scheme \<Rightarrow> uint8 list \<Rightarrow> nat res" where
  "start_dir s path = (if path \<noteq> [] \<and> hd path = slash then Ok 0 else mycwd s)"

definition dot :: uint8 where "dot = 0x2E"

text \<open>The calls of \<open>dirlink\<close> in \<open>create\<close>; the result tells whether all of them succeeded.\<close>

definition create_links :: "'a kstate_scheme \<Rightarrow> nat \<Rightarrow> nat \<Rightarrow> uint16 \<Rightarrow> bytes \<Rightarrow> (bool \<times> 'a kstate_scheme) res" where
  "create_links s dp ip type name =
     bindr
       (if type = T_DIR then
          bindr (dirlink s ip (cstr [dot]) (i_inum (itable s ip))) (\<lambda>(r, s).
            if r < 0 then Ok (False, s)
            else bindr (dirlink s ip (cstr [dot, dot]) (i_inum (itable s dp))) (\<lambda>(r, s). Ok (0 \<le> r, s)))
        else Ok (True, s))
       (\<lambda>(good, s).
          if \<not> good then Ok (False, s)
          else bindr (dirlink s dp name (i_inum (itable s ip))) (\<lambda>(r, s). Ok (0 \<le> r, s)))"

definition create_new :: "'a kstate_scheme \<Rightarrow> nat \<Rightarrow> bytes \<Rightarrow> uint16 \<Rightarrow> uint16 \<Rightarrow> uint16 \<Rightarrow>
    (nat option \<times> 'a kstate_scheme) res" where
  "create_new s dp name type major minor =
     bindr (ialloc s (i_dev (itable s dp)) type) (\<lambda>(r, s).
       case r of
         None \<Rightarrow> bindr (iunlockput s dp) (\<lambda>s. Ok (None, s))
       | Some ip \<Rightarrow>
           bindr (ilock s ip) (\<lambda>s.
           bindr (iupdate (upd_inode ip (\<lambda>i. i\<lparr>i_major := major, i_minor := minor, i_nlink := 1\<rparr>) s) ip) (\<lambda>s.
           bindr (create_links s dp ip type name) (\<lambda>(good, s).
             if good then
               bindr (if type = T_DIR then iupdate (upd_inode dp (\<lambda>i. i\<lparr>i_nlink := i_nlink i + 1\<rparr>) s) dp else Ok s)
                 (\<lambda>s. bindr (iunlockput s dp) (\<lambda>s. Ok (Some ip, s)))
             else
               bindr (iupdate (upd_inode ip (\<lambda>i. i\<lparr>i_nlink := 0\<rparr>) s) ip) (\<lambda>s.
               bindr (iunlockput s ip) (\<lambda>s.
               bindr (iunlockput s dp) (\<lambda>s. Ok (None, s))))))))"

text \<open>\<open>create\<close> returns the inode locked.\<close>

definition create :: "'a kstate_scheme \<Rightarrow> uint8 list \<Rightarrow> uint16 \<Rightarrow> uint16 \<Rightarrow> uint16 \<Rightarrow>
    (nat option \<times> 'a kstate_scheme) res" where
  "create s path type major minor =
     bindr (start_dir s path) (\<lambda>cwd.
     bindr (nameiparent s cwd path (\<lambda>_. 0)) (\<lambda>(r, name, s).
       case r of
         None \<Rightarrow> Ok (None, s)
       | Some dp \<Rightarrow>
           bindr (ilock s dp) (\<lambda>s.
           bindr (dirlookup s dp name) (\<lambda>(r, s).
             case r of
               Some (ip, _) \<Rightarrow>
                 bindr (iunlockput s dp) (\<lambda>s.
                 bindr (ilock s ip) (\<lambda>s.
                   if type = T_FILE \<and> (i_type (itable s ip) = T_FILE \<or> i_type (itable s ip) = T_DEVICE)
                   then Ok (Some ip, s)
                   else bindr (iunlockput s ip) (\<lambda>s. Ok (None, s))))
             | None \<Rightarrow> create_new s dp name type major minor))))"

text \<open>
  \<open>filealloc\<close> hands out a file structure that nobody uses, as long as there is one: it fails
  only when all \<open>NFILE\<close> entries have a reference, and it changes no other entry.
\<close>

theorem filealloc_unused:
  "case filealloc s of
     (Some f, s') \<Rightarrow> f < NFILE \<and> f_ref (ftable s f) = 0 \<and> f_ref (ftable s' f) = 1 \<and>
       (\<forall>g. g = f \<or> ftable s' g = ftable s g)
   | (None, s') \<Rightarrow> s' = s \<and> card {f. f < NFILE \<and> f_ref (ftable s f) \<noteq> 0} = NFILE"
proof (cases "scan (\<lambda>f. f_ref (ftable s f) = 0) NFILE")
  case None
  then have "{f. f < NFILE \<and> f_ref (ftable s f) \<noteq> 0} = {..<NFILE}" by (auto simp: scan_None_iff)
  with None show ?thesis by (simp add: filealloc_def)
next
  case (Some f)
  then have "f < NFILE" "f_ref (ftable s f) = 0" by (auto simp: scan_Some_iff)
  with Some show ?thesis by (auto simp: filealloc_def)
qed

end
