(* ===== verification/Paging.thy ===== *)
theory Paging
  imports Create
begin

text \<open>
  Demand paging and swapping (the second half of \<open>kernel/vm.c\<close>): swap slots, the swap file of a
  process, page faults, FIFO eviction, swapping out and in, and the copies between kernel and user
  memory that fault pages in. The messages printed on the way are not modelled. The functions return
  the C result, 0 or -1. Where the C code would dereference a null pointer the model panics, as
  \<open>kerneltrap\<close> does.
\<close>

section \<open>Swap slots\<close>

definition alloc_swap_slot :: "paging_info \<Rightarrow> int \<times> paging_info" where
  "alloc_swap_slot pg =
     (case scan (\<lambda>i. \<not> bit_used (swap_bitmap pg) i) MAX_SWAP_PAGES of
        Some i \<Rightarrow> (int i, pg\<lparr>swap_bitmap := bit_set (swap_bitmap pg) i, swap_used := swap_used pg + 1\<rparr>)
      | None \<Rightarrow> (-1, pg))"

definition free_swap_slot :: "int \<Rightarrow> paging_info \<Rightarrow> paging_info" where
  "free_swap_slot slot pg =
     (if slot < 0 \<or> slot \<ge> int MAX_SWAP_PAGES then pg
      else if bit_used (swap_bitmap pg) (nat slot)
      then pg\<lparr>swap_bitmap := bit_clear (swap_bitmap pg) (nat slot), swap_used := swap_used pg - 1\<rparr>
      else pg)"

text \<open>\<open>pgswp\<close> and five decimal digits of the process id.\<close>

definition swap_name :: "int \<Rightarrow> uint8 list" where
  "swap_name pid =
     [0x70, 0x67, 0x73, 0x77, 0x70] @ map (\<lambda>k. 0x30 + word_of_int (pid div 10 ^ (4 - k) mod 10)) [0..<5]"

definition create_swap_file :: "'a kstate_scheme \<Rightarrow> (int \<times> 'a kstate_scheme) res" where
  "create_swap_file s =
     (if swapfile (mypaging s) \<noteq> None then Ok (0, s)
      else
        let name = swap_name (p_pid (myproc s));
            s = upd_paging (cur s) (\<lambda>pg. pg\<lparr>swappath := safestrcpy (swappath pg) (cstr name) 32\<rparr>) s in
        bindr (begin_op s) (\<lambda>s.
        bindr (create s name T_FILE 0 0) (\<lambda>(r, s).
          case r of
            None \<Rightarrow> bindr (end_op s) (\<lambda>s. Ok (-1, s))
          | Some ip \<Rightarrow>
              bindr (iunlock s ip) (\<lambda>s.
              case filealloc s of
                (None, s) \<Rightarrow>
                  bindr (begin_op s) (\<lambda>s.
                  bindr (ilock s ip) (\<lambda>s.
                  bindr (iupdate (upd_inode ip (\<lambda>i. i\<lparr>i_nlink := 0\<rparr>) s) ip) (\<lambda>s.
                  bindr (iunlockput s ip) (\<lambda>s.
                  bindr (end_op s) (\<lambda>s.
                  bindr (end_op s) (\<lambda>s. Ok (-1, s)))))))
              | (Some f, s) \<Rightarrow>
                  let s = upd_file f (\<lambda>x. x\<lparr>f_type := FD_INODE, f_off := 0, f_readable := True, f_writable := True,
                                         f_ip := ip\<rparr>) s;
                      s = upd_paging (cur s) (\<lambda>pg. pg\<lparr>swapfile := Some f\<rparr>) s
                  in bindr (end_op s) (\<lambda>s. Ok (0, s))))))"

section \<open>Page records\<close>

definition init_paging_info :: paging_info where
  "init_paging_info =
     \<lparr>swapfile = None, swappath = (\<lambda>_. 0), swap_bitmap = (\<lambda>_. 0), swap_used = 0, next_fifo_seq = 1,
      pages = (\<lambda>i. \<lparr>pg_va = 0, pg_state = UNMAPPED, pg_dirty = False, pg_fifo_seq = 0,
                    pg_swap_slot = (if i < 512 then -1 else 0), pg_exec_offset = 0, pg_from_exec = False\<rparr>),
      num_pages = 0, text_start = 0, text_end = 0, data_start = 0, data_end = 0, heap_start = 0, stack_top = 0,
      text_offset = 0, data_offset = 0, text_filesz = 0, data_filesz = 0, exec_ip = None\<rparr>"

definition get_page_info :: "uint64 \<Rightarrow> nat option" where
  "get_page_info va =
     (let n = unat (PGROUNDDOWN va div PGSIZE) in if n \<ge> MAX_TRACKED_PAGES then None else Some n)"

definition upd_page :: "nat \<Rightarrow> (page_info \<Rightarrow> page_info) \<Rightarrow> 'a kstate_scheme \<Rightarrow> 'a kstate_scheme" where
  "upd_page n f s = upd_paging (cur s) (\<lambda>pg. pg\<lparr>pages := (pages pg)(n := f (pages pg n))\<rparr>) s"

text \<open>\<open>pi->fifo_seq = p->paging.next_fifo_seq++\<close>, after the other stores to the record.\<close>

definition make_resident :: "nat option \<Rightarrow> (page_info \<Rightarrow> page_info) \<Rightarrow> 'a kstate_scheme \<Rightarrow> 'a kstate_scheme" where
  "make_resident n f s =
     (case n of
        None \<Rightarrow> s
      | Some n \<Rightarrow>
          let seq = next_fifo_seq (mypaging s)
          in upd_paging (cur s) (\<lambda>pg. pg\<lparr>next_fifo_seq := c_int (seq + 1)\<rparr>)
               (upd_page n (\<lambda>p. (f p)\<lparr>pg_state := RESIDENT, pg_fifo_seq := seq\<rparr>) s))"

section \<open>Eviction\<close>

text \<open>The scan of \<open>evict_page_fifo\<close> over the first \<open>n\<close> records: the victim and \<open>min_seq\<close>.\<close>

primrec fifo_scan :: "(nat \<Rightarrow> page_info) \<Rightarrow> nat \<Rightarrow> nat option \<times> int" where
  "fifo_scan pgs 0 = (None, INT_MAX)"
| "fifo_scan pgs (Suc n) =
     (let (victim, min_seq) = fifo_scan pgs n in
      if pg_state (pgs n) = RESIDENT \<and> pg_fifo_seq (pgs n) < min_seq then (Some n, pg_fifo_seq (pgs n))
      else (victim, min_seq))"

text \<open>The inode of the swap file.\<close>

definition swap_ip :: "'a kstate_scheme \<Rightarrow> nat res" where
  "swap_ip s = (case swapfile (mypaging s) of Some f \<Rightarrow> Ok (f_ip (ftable s f)) | None \<Rightarrow> Panic ''kerneltrap'')"

text \<open>\<open>begin_op(); ilock(ip); readi/writei(...); iunlock(ip); end_op();\<close>\<close>

definition in_op :: "nat \<Rightarrow> ('a kstate_scheme \<Rightarrow> (int \<times> 'a kstate_scheme) res) \<Rightarrow> 'a kstate_scheme \<Rightarrow> (int \<times> 'a kstate_scheme) res" where
  "in_op ip f s =
     bindr (begin_op s) (\<lambda>s.
     bindr (ilock s ip) (\<lambda>s.
     bindr (f s) (\<lambda>(r, s).
     bindr (iunlock s ip) (\<lambda>s.
     bindr (end_op s) (\<lambda>s. Ok (r, s))))))"

definition kreadi :: "'a kstate_scheme \<Rightarrow> nat \<Rightarrow> uint64 \<Rightarrow> uint32 \<Rightarrow> uint32 \<Rightarrow> (int \<times> 'a kstate_scheme) res" where
  "kreadi s ip dst off n = bindr (readi kcopyout () s ip dst off n) (\<lambda>(r, _, s). Ok (r, s))"

definition discard_page :: "uint64 \<Rightarrow> nat \<Rightarrow> 'a kstate_scheme \<Rightarrow> (int \<times> 'a kstate_scheme) res" where
  "discard_page va n s =
     (let s = upd_page n (\<lambda>p. p\<lparr>pg_state := UNMAPPED\<rparr>) s in
      bindr (walk s (p_pagetable (myproc s)) va False) (\<lambda>(pte, s).
        if pte \<noteq> 0 \<and> ld64 (phys s) pte AND PTE_V \<noteq> 0 then
          bindr (kfree s (PTE2PA (ld64 (phys s) pte))) (\<lambda>s. Ok (0, s\<lparr>phys := sd64 (phys s) pte 0\<rparr>))
        else Ok (0, s)))"

text \<open>The part of \<open>swapout_page\<close> from the allocation of the slot on.\<close>

definition swapout_write :: "uint64 \<Rightarrow> nat \<Rightarrow> 'a kstate_scheme \<Rightarrow> (int \<times> 'a kstate_scheme) res" where
  "swapout_write va n s =
     (let (slot, pg) = alloc_swap_slot (mypaging s) in
      if slot < 0 then Ok (-1, setkilled (cur s) s)
      else
        let s = upd_paging (cur s) (\<lambda>_. pg) s in
        bindr (walk s (p_pagetable (myproc s)) va False) (\<lambda>(pte, s).
          if pte = 0 \<or> ld64 (phys s) pte AND PTE_V = 0 then Ok (-1, upd_paging (cur s) (free_swap_slot slot) s)
          else
            let pa = PTE2PA (ld64 (phys s) pte) in
            bindr (swap_ip s) (\<lambda>ip.
            bindr (in_op ip (\<lambda>s. writei kcopyin s ip pa (ucast (word_of_int slot * PGSIZE)) (ucast PGSIZE)) s) (\<lambda>(r, s).
              if r \<noteq> int (unat PGSIZE) then Ok (-1, upd_paging (cur s) (free_swap_slot slot) s)
              else
                let s = upd_page n (\<lambda>p. p\<lparr>pg_state := SWAPPED, pg_swap_slot := slot, pg_from_exec := False\<rparr>) s in
                bindr (kfree s pa) (\<lambda>s. Ok (0, s\<lparr>phys := sd64 (phys s) pte 0\<rparr>))))))"

definition swapout_page :: "uint64 \<Rightarrow> 'a kstate_scheme \<Rightarrow> (int \<times> 'a kstate_scheme) res" where
  "swapout_page va s =
     (let va = PGROUNDDOWN va in
      case get_page_info va of
        None \<Rightarrow> Ok (-1, s)
      | Some n \<Rightarrow>
          let p = pages (mypaging s) n in
          if pg_state p \<noteq> RESIDENT then Ok (-1, s)
          else if \<not> pg_dirty p \<and> pg_from_exec p then discard_page va n s
          else
            bindr (if swapfile (mypaging s) = None then create_swap_file s else Ok (0, s)) (\<lambda>(r, s).
              if r < 0 then Ok (-1, setkilled (cur s) s) else swapout_write va n s))"

definition evict_page_fifo :: "'a kstate_scheme \<Rightarrow> (int \<times> 'a kstate_scheme) res" where
  "evict_page_fifo s =
     (case fst (fifo_scan (pages (mypaging s)) MAX_TRACKED_PAGES) of
        None \<Rightarrow> Ok (-1, s)
      | Some victim \<Rightarrow> swapout_page (of_nat victim * PGSIZE) s)"

text \<open>\<open>kalloc\<close>, with one eviction when memory is full; 0 when that does not help.\<close>

definition kalloc_evict :: "'a kstate_scheme \<Rightarrow> (uint64 \<times> 'a kstate_scheme) res" where
  "kalloc_evict s =
     (let (mem, s) = kalloc s in
      if mem \<noteq> 0 then Ok (mem, s)
      else bindr (evict_page_fifo s) (\<lambda>(r, s). if r < 0 then Ok (0, s) else Ok (kalloc s)))"

definition swapin_page :: "uint64 \<Rightarrow> 'a kstate_scheme \<Rightarrow> (int \<times> 'a kstate_scheme) res" where
  "swapin_page va s =
     (let va = PGROUNDDOWN va in
      case get_page_info va of
        None \<Rightarrow> Ok (-1, s)
      | Some n \<Rightarrow>
          let p = pages (mypaging s) n; slot = pg_swap_slot p in
          if pg_state p \<noteq> SWAPPED \<or> slot < 0 then Ok (-1, s)
          else
            bindr (kalloc_evict s) (\<lambda>(mem, s).
              if mem = 0 then Ok (-1, s)
              else
                bindr (swap_ip s) (\<lambda>ip.
                bindr (in_op ip (\<lambda>s. kreadi s ip mem (ucast (word_of_int slot * PGSIZE)) (ucast PGSIZE)) s) (\<lambda>(r, s).
                  if r \<noteq> int (unat PGSIZE) then bindr (kfree s mem) (\<lambda>s. Ok (-1, s))
                  else
                    let s = upd_paging (cur s) (free_swap_slot slot) s;
                        s = upd_page n (\<lambda>p. p\<lparr>pg_swap_slot := -1\<rparr>) s in
                    bindr (mappages s (p_pagetable (myproc s)) va PGSIZE mem (PTE_U OR PTE_R OR PTE_W)) (\<lambda>(good, s).
                      if \<not> good then bindr (kfree s mem) (\<lambda>s. Ok (-1, s))
                      else Ok (0, make_resident (Some n) (\<lambda>p. p\<lparr>pg_dirty := False\<rparr>) s))))))"

section \<open>Page faults\<close>

text \<open>How much of the page at \<open>off\<close> of a segment comes from the file.\<close>

definition seg_read_size :: "uint64 \<Rightarrow> uint64 \<Rightarrow> uint64" where
  "seg_read_size off filesz =
     (if off \<ge> filesz then 0 else if off + PGSIZE > filesz then filesz - off else PGSIZE)"

text \<open>
  The text and the data branch of \<open>handle_page_fault\<close>, which differ in the segment and in the
  permissions \<open>perm\<close>.
\<close>

definition load_segment ::
  "uint64 \<Rightarrow> nat option \<Rightarrow> uint64 \<Rightarrow> uint64 \<Rightarrow> uint64 \<Rightarrow> uint64 \<Rightarrow> 'a kstate_scheme \<Rightarrow> (int \<times> 'a kstate_scheme) res" where
  "load_segment va n start offset filesz perm s =
     bindr (kalloc_evict s) (\<lambda>(mem, s).
       if mem = 0 then Ok (-1, s)
       else
         let s = s\<lparr>phys := memset (phys s) mem 0 (ucast PGSIZE)\<rparr>;
             off = va - start; read_size = seg_read_size off filesz in
         bindr
           (case exec_ip (mypaging s) of
              Some ip \<Rightarrow>
                if read_size > 0
                then bindr (in_op ip (\<lambda>s. kreadi s ip mem (ucast (offset + off)) (ucast read_size)) s)
                       (\<lambda>(r, s). Ok (r = int (unat read_size), s))
                else Ok (True, s)
            | None \<Rightarrow> Ok (True, s))
           (\<lambda>(good, s).
              if \<not> good then bindr (kfree s mem) (\<lambda>s. Ok (-1, s))
              else
                bindr (mappages s (p_pagetable (myproc s)) va PGSIZE mem perm) (\<lambda>(good, s).
                  if \<not> good then bindr (kfree s mem) (\<lambda>s. Ok (-1, s))
                  else Ok (0, make_resident n (\<lambda>p. p\<lparr>pg_va := va, pg_dirty := False, pg_from_exec := True\<rparr>) s))))"

definition alloc_heap_page :: "uint64 \<Rightarrow> nat option \<Rightarrow> 'a kstate_scheme \<Rightarrow> (int \<times> 'a kstate_scheme) res" where
  "alloc_heap_page va n s =
     bindr (kalloc_evict s) (\<lambda>(mem, s).
       if mem = 0 then Ok (-1, s)
       else
         let s = s\<lparr>phys := memset (phys s) mem 0 (ucast PGSIZE)\<rparr> in
         bindr (mappages s (p_pagetable (myproc s)) va PGSIZE mem (PTE_U OR PTE_R OR PTE_W)) (\<lambda>(good, s).
           if \<not> good then bindr (kfree s mem) (\<lambda>s. Ok (-1, s))
           else Ok (0, make_resident n (\<lambda>p. p\<lparr>pg_va := va, pg_dirty := True, pg_from_exec := False, pg_swap_slot := -1\<rparr>) s)))"

definition handle_page_fault :: "uint64 \<Rightarrow> int \<Rightarrow> 'a kstate_scheme \<Rightarrow> (int \<times> 'a kstate_scheme) res" where
  "handle_page_fault va cause s =
     (let va = PGROUNDDOWN va; pg = mypaging s in
      if va \<ge> MAXVA then Ok (-1, s)
      else if text_start pg \<le> va \<and> va < text_end pg \<and> cause = 15 then Ok (0, setkilled (cur s) s)
      else
        let n = get_page_info va in
        if (case n of Some i \<Rightarrow> pg_state (pages pg i) = SWAPPED | None \<Rightarrow> False) then swapin_page va s
        else if text_start pg \<le> va \<and> va < text_end pg
        then load_segment va n (text_start pg) (text_offset pg) (text_filesz pg) (PTE_U OR PTE_R OR PTE_X) s
        else if data_start pg \<le> va \<and> va < data_end pg
        then load_segment va n (data_start pg) (data_offset pg) (data_filesz pg) (PTE_U OR PTE_R OR PTE_W) s
        else if heap_start pg \<le> va \<and> va < p_sz (myproc s) then alloc_heap_page va n s
        else Ok (-1, setkilled (cur s) s))"

definition handle_kernel_pagefault :: "uint64 \<Rightarrow> uint64 \<Rightarrow> bool \<Rightarrow> 'a kstate_scheme \<Rightarrow> (uint64 \<times> 'a kstate_scheme) res" where
  "handle_kernel_pagefault pagetable va is_write s =
     (let va = PGROUNDDOWN va; pg = mypaging s in
      if va \<ge> TRAPFRAME then Ok (0, s)
      else if \<not> (text_start pg \<le> va \<and> va < text_end pg \<or> data_start pg \<le> va \<and> va < data_end pg \<or>
                 heap_start pg \<le> va \<and> va < p_sz (myproc s)) then Ok (0, s)
      else
        bindr (handle_page_fault va (if is_write then 15 else 13) s) (\<lambda>(r, s).
          if r \<noteq> 0 then Ok (0, s)
          else
            bindr (walkaddr s pagetable va) (\<lambda>pa.
              if pa = 0 then Ok (0, s)
              else if is_write then
                bindr (walk s pagetable va False) (\<lambda>(pte, s).
                  if pte = 0 \<or> ld64 (phys s) pte AND PTE_W = 0 then Ok (0, s) else Ok (pa, s))
              else Ok (pa, s))))"

definition vmfault :: "uint64 \<Rightarrow> uint64 \<Rightarrow> 'a kstate_scheme \<Rightarrow> (uint64 \<times> 'a kstate_scheme) res" where
  "vmfault pagetable va s =
     (if va \<ge> p_sz (myproc s) then Ok (0, s)
      else
        let va = PGROUNDDOWN va in
        bindr (ismapped s pagetable va) (\<lambda>mapped.
          if mapped then Ok (0, s)
          else
            let (mem, s) = kalloc s in
            if mem = 0 then Ok (0, s)
            else
              let s = s\<lparr>phys := memset (phys s) mem 0 (ucast PGSIZE)\<rparr> in
              bindr (mappages s (p_pagetable (myproc s)) va PGSIZE mem (PTE_W OR PTE_U OR PTE_R)) (\<lambda>(good, s).
                if \<not> good then bindr (kfree s mem) (\<lambda>s. Ok (0, s)) else Ok (mem, s))))"

section \<open>Copies between kernel and user memory\<close>

definition page_off :: "uint64 \<Rightarrow> nat" where "page_off va = unat va mod 4096"

text \<open>The page of \<open>va\<close>, faulted in if need be; 0 on failure.\<close>

definition user_page :: "uint64 \<Rightarrow> uint64 \<Rightarrow> bool \<Rightarrow> 'a kstate_scheme \<Rightarrow> (uint64 \<times> 'a kstate_scheme) res" where
  "user_page pagetable va is_write s =
     bindr (walkaddr s pagetable va) (\<lambda>pa. if pa = 0 then handle_kernel_pagefault pagetable va is_write s else Ok (pa, s))"

function copyout :: "uint64 \<Rightarrow> uint64 \<Rightarrow> uint8 list \<Rightarrow> 'a kstate_scheme \<Rightarrow> (int \<times> 'a kstate_scheme) res" where
  "copyout pagetable dstva bs s =
     (if bs = [] then Ok (0, s)
      else
        let va = PGROUNDDOWN dstva in
        bindr (user_page pagetable va True s) (\<lambda>(pa, s).
          if pa = 0 then Ok (-1, s)
          else
            bindr (walk s pagetable va False) (\<lambda>(pte, s).
              if pte = 0 then Ok (-1, s)
              else if ld64 (phys s) pte AND PTE_W = 0 then Ok (-1, s)
              else
                let n = min (length bs) (4096 - page_off dstva);
                    s = s\<lparr>phys := mem_put (phys s) (pa + (dstva - va)) (take n bs)\<rparr>
                in copyout pagetable (va + PGSIZE) (drop n bs) s)))"
  by pat_completeness auto
termination
  by (relation "measure (\<lambda>(_, _, bs, _). length bs)") (auto simp: page_off_def)

declare copyout.simps [simp del]

text \<open>\<open>copyin\<close>: the result, and the bytes that have been stored in \<open>dst\<close>.\<close>

function copyin :: "uint64 \<Rightarrow> uint64 \<Rightarrow> nat \<Rightarrow> 'a kstate_scheme \<Rightarrow> (int \<times> uint8 list \<times> 'a kstate_scheme) res" where
  "copyin pagetable srcva len s =
     (if len = 0 then Ok (0, [], s)
      else
        let va = PGROUNDDOWN srcva in
        bindr (user_page pagetable va False s) (\<lambda>(pa, s).
          if pa = 0 then Ok (-1, [], s)
          else
            let n = min len (4096 - page_off srcva); bs = mem_get (phys s) (pa + (srcva - va)) n in
            bindr (copyin pagetable (va + PGSIZE) (len - n) s) (\<lambda>(r, rest, s). Ok (r, bs @ rest, s))))"
  by pat_completeness auto
termination
  by (relation "measure (\<lambda>(_, _, len, _). len)") (auto simp: page_off_def)

declare copyin.simps [simp del]

text \<open>\<open>copyinstr\<close>: the result, and the bytes of the string without its NUL.\<close>

function copyinstr :: "uint64 \<Rightarrow> uint64 \<Rightarrow> nat \<Rightarrow> 'a kstate_scheme \<Rightarrow> (int \<times> uint8 list \<times> 'a kstate_scheme) res" where
  "copyinstr pagetable srcva mx s =
     (if mx = 0 then Ok (-1, [], s)
      else
        let va = PGROUNDDOWN srcva in
        bindr (user_page pagetable va False s) (\<lambda>(pa, s).
          if pa = 0 then Ok (-1, [], s)
          else
            let n = min mx (4096 - page_off srcva); bs = mem_get (phys s) (pa + (srcva - va)) n in
            if 0 \<in> set bs then Ok (0, takeWhile (\<lambda>c. c \<noteq> 0) bs, s)
            else
              bindr (copyinstr pagetable (va + PGSIZE) (mx - n) s) (\<lambda>(r, rest, s). Ok (r, bs @ rest, s))))"
  by pat_completeness auto
termination
  by (relation "measure (\<lambda>(_, _, mx, _). mx)") (auto simp: page_off_def)

declare copyinstr.simps [simp del]

text \<open>\<open>either_copyout\<close> and \<open>either_copyin\<close> with a user address, as the copies of \<open>readi\<close> and \<open>writei\<close>.\<close>

definition ucopyout :: "('l, 'a kstate_scheme) copy_out" where
  "ucopyout l s dst bs = bindr (copyout (p_pagetable (myproc s)) dst bs s) (\<lambda>(r, s). Ok (r = -1, l, s))"

definition ucopyin :: "'a kstate_scheme copy_in" where
  "ucopyin s src n = bindr (copyin (p_pagetable (myproc s)) src n s) (\<lambda>(r, bs, s). Ok (r = -1, bs, s))"

definition either_copyout :: "bool \<Rightarrow> uint64 \<Rightarrow> uint8 list \<Rightarrow> 'a kstate_scheme \<Rightarrow> (int \<times> 'a kstate_scheme) res" where
  "either_copyout user_dst dst bs s =
     (if user_dst then copyout (p_pagetable (myproc s)) dst bs s
      else Ok (0, s\<lparr>phys := mem_put (phys s) dst bs\<rparr>))"

definition either_copyin :: "bool \<Rightarrow> uint64 \<Rightarrow> nat \<Rightarrow> 'a kstate_scheme \<Rightarrow> (int \<times> uint8 list \<times> 'a kstate_scheme) res" where
  "either_copyin user_src src n s =
     (if user_src then copyin (p_pagetable (myproc s)) src n s
      else Ok (0, mem_get (phys s) src n, s))"

definition uvmalloc_lazy :: "uint64 \<Rightarrow> uint64 \<Rightarrow> uint64" where
  "uvmalloc_lazy oldsz newsz = newsz"

end
