(* ===== verification/Paging_Correct.thy ===== *)
theory Paging_Correct
  imports Paging Pagetable_Correct
begin

text \<open>
  Results on demand paging: the accounting of swap slots, the FIFO choice of victims and the order
  of the sequence numbers it rests on, the limit that the size of a file puts on the swap file, and
  what happens to a page of the data segment that is evicted after it was written.
\<close>

section \<open>Bits of a bitmap\<close>

lemma bit_mask_bit: "bit (bit_mask i) k \<longleftrightarrow> k = i mod 8"
proof -
  have "i mod 8 < 8" by simp
  then show ?thesis by (auto simp: bit_mask_def push_bit_of_1 bit_exp_iff)
qed

lemma bit_used_bit: "bit_used d i \<longleftrightarrow> bit (d (i div 8)) (i mod 8)"
proof -
  have "d (i div 8) AND bit_mask i = (if bit (d (i div 8)) (i mod 8) then bit_mask i else 0)"
    by (rule bit_word_eqI) (auto simp: bit_and_iff bit_mask_bit)
  moreover have "bit_mask i \<noteq> 0"
    using bit_mask_bit [of i "i mod 8"] by auto
  ultimately show ?thesis by (simp add: bit_used_def)
qed

lemma same_bit: "i div 8 = j div 8 \<Longrightarrow> i mod 8 = j mod 8 \<Longrightarrow> i = (j :: nat)"
  by (metis div_mult_mod_eq)

lemma bit_used_set: "bit_used (bit_set d i) j \<longleftrightarrow> j = i \<or> bit_used d j"
  unfolding bit_used_bit bit_set_def using same_bit [of j i]
  by (auto simp: bit_or_iff bit_mask_bit)

lemma bit_used_clear: "bit_used (bit_clear d i) j \<longleftrightarrow> j \<noteq> i \<and> bit_used d j"
proof -
  have "j mod 8 < 8" by simp
  then show ?thesis
    unfolding bit_used_bit bit_clear_def using same_bit [of j i]
    by (auto simp: bit_and_iff bit_not_iff bit_mask_bit)
qed

section \<open>Swap slots\<close>

definition used_slots :: "paging_info \<Rightarrow> nat set" where
  "used_slots pg = {i. i < MAX_SWAP_PAGES \<and> bit_used (swap_bitmap pg) i}"

definition swap_inv :: "paging_info \<Rightarrow> bool" where
  "swap_inv pg \<longleftrightarrow> swap_used pg = int (card (used_slots pg))"

lemma finite_used_slots [simp]: "finite (used_slots pg)"
  by (simp add: used_slots_def)

lemma free_swap_slot_accounted:
  assumes inv: "swap_inv pg"
  shows "swap_inv (free_swap_slot j pg) \<and> used_slots (free_swap_slot j pg) = {i \<in> used_slots pg. int i \<noteq> j}"
proof (cases "0 \<le> j \<and> j < int MAX_SWAP_PAGES \<and> bit_used (swap_bitmap pg) (nat j)")
  case True
  let ?pg = "pg\<lparr>swap_bitmap := bit_clear (swap_bitmap pg) (nat j), swap_used := swap_used pg - 1\<rparr>"
  have e: "free_swap_slot j pg = ?pg" using True by (simp add: free_swap_slot_def)
  have u: "used_slots ?pg = used_slots pg - {nat j}" by (auto simp: used_slots_def bit_used_clear)
  have in_j: "nat j \<in> used_slots pg" using True by (simp add: used_slots_def nat_less_iff)
  then have "Suc (card (used_slots pg - {nat j})) = card (used_slots pg)" by (intro card_Suc_Diff1) simp_all
  then have "int (card (used_slots pg)) = int (card (used_slots pg - {nat j})) + 1" by linarith
  then have "swap_inv ?pg" using inv unfolding swap_inv_def u by simp
  moreover have "used_slots pg - {nat j} = {i \<in> used_slots pg. int i \<noteq> j}" using True by auto
  ultimately show ?thesis unfolding e u by simp
next
  case False
  then have e: "free_swap_slot j pg = pg" by (simp add: free_swap_slot_def)
  have "int i \<noteq> j" if "i \<in> used_slots pg" for i
    using that False unfolding used_slots_def by auto
  then show ?thesis unfolding e using inv by blast
qed

text \<open>
  C16. The swap-slot allocator: \<open>alloc_swap_slot\<close> gives out a slot that was not in use, or -1 exactly
  when all \<open>MAX_SWAP_PAGES\<close> are; \<open>free_swap_slot\<close> of a slot in use makes just that slot available
  again; and \<open>swap_used\<close> counts the slots in use throughout.
\<close>

theorem swap_slots_accounted:
  assumes inv: "swap_inv pg"
  shows "(case alloc_swap_slot pg of (slot, pg') \<Rightarrow>
       swap_inv pg' \<and>
       (slot = -1 \<and> pg' = pg \<and> used_slots pg = {..<MAX_SWAP_PAGES} \<or>
        (\<exists>i<MAX_SWAP_PAGES. slot = int i \<and> i \<notin> used_slots pg \<and> used_slots pg' = insert i (used_slots pg)))) \<and>
     swap_inv (free_swap_slot j pg) \<and> used_slots (free_swap_slot j pg) = {i \<in> used_slots pg. int i \<noteq> j}"
proof
  show "case alloc_swap_slot pg of (slot, pg') \<Rightarrow>
       swap_inv pg' \<and>
       (slot = -1 \<and> pg' = pg \<and> used_slots pg = {..<MAX_SWAP_PAGES} \<or>
        (\<exists>i<MAX_SWAP_PAGES. slot = int i \<and> i \<notin> used_slots pg \<and> used_slots pg' = insert i (used_slots pg)))"
  proof (cases "scan (\<lambda>i. \<not> bit_used (swap_bitmap pg) i) MAX_SWAP_PAGES")
    case None
    then have "used_slots pg = {..<MAX_SWAP_PAGES}" by (auto simp: scan_None_iff used_slots_def)
    with None inv show ?thesis by (simp add: alloc_swap_slot_def)
  next
    case (Some i)
    then have i: "i < MAX_SWAP_PAGES" "\<not> bit_used (swap_bitmap pg) i" by (auto simp: scan_Some_iff)
    let ?pg = "pg\<lparr>swap_bitmap := bit_set (swap_bitmap pg) i, swap_used := swap_used pg + 1\<rparr>"
    have u: "used_slots ?pg = insert i (used_slots pg)" "i \<notin> used_slots pg"
      using i by (auto simp: used_slots_def bit_used_set)
    then have "swap_inv ?pg" using inv by (simp add: swap_inv_def)
    with Some i u show ?thesis by (auto simp: alloc_swap_slot_def)
  qed
  show "swap_inv (free_swap_slot j pg) \<and> used_slots (free_swap_slot j pg) = {i \<in> used_slots pg. int i \<noteq> j}"
    using inv by (rule free_swap_slot_accounted)
qed

theorem swap_slots_accounted_witness:
  "swap_inv paging0 \<and> swap_inv (snd (alloc_swap_slot paging0)) \<and> swap_inv (free_swap_slot 3 paging0)"
proof -
  have inv: "swap_inv paging0"
    by (simp add: swap_inv_def used_slots_def bit_used_def paging0_def)
  from swap_slots_accounted [OF inv, of 3] inv show ?thesis by (auto simp: split_beta)
qed

text \<open>
  C38. The swap file cannot hold as many pages as there are slots: a file is limited to \<open>MAXFILE\<close>
  blocks, so writing a page to any slot from 67 on is refused by \<open>writei\<close>, although
  \<open>alloc_swap_slot\<close> hands out slots up to 1023.
\<close>

theorem swap_slot_beyond_file_limit:
  assumes "67 \<le> slot" and "slot < MAX_SWAP_PAGES"
  shows "writei kcopyin s ip pa (ucast (word_of_int (int slot) * PGSIZE)) (ucast PGSIZE) = Ok (-1, s)"
proof (rule writei_beyond_maxfile)
  have "unat (word_of_int (int slot) * PGSIZE :: uint64) = slot * 4096"
    using assms unat_of_nat_small [of slot, where 'a = 64]
    by (simp add: PGSIZE_def MAX_SWAP_PAGES_def unat_word_ariths)
  moreover have "slot * 4096 < 2 ^ 32" using assms by (simp add: MAX_SWAP_PAGES_def)
  ultimately have off: "unat (ucast (word_of_int (int slot) * PGSIZE :: uint64) :: uint32) = slot * 4096"
    by (simp add: unsigned_ucast_eq take_bit_nat_eq_self)
  have n: "unat (ucast PGSIZE :: uint32) = 4096" by (simp add: PGSIZE_def)
  show "unat (ucast (word_of_int (int slot) * PGSIZE) :: uint32) + unat (ucast PGSIZE :: uint32) < 2 ^ 32"
    using assms unfolding off n by (simp add: MAX_SWAP_PAGES_def)
  show "MAXFILE * BSIZE < unat (ucast (word_of_int (int slot) * PGSIZE) :: uint32) + unat (ucast PGSIZE :: uint32)"
    using assms unfolding off n by (simp add: MAXFILE_def NDIRECT_def NINDIRECT_def BSIZE_def)
qed

theorem swap_slot_beyond_file_limit_witness:
  "writei kcopyin k0 0 0 (ucast (word_of_int (int 67) * PGSIZE)) (ucast PGSIZE) = Ok (-1, k0)"
  by (rule swap_slot_beyond_file_limit) (simp_all add: MAX_SWAP_PAGES_def)

section \<open>FIFO replacement\<close>

lemma fifo_scan_spec:
  "case fifo_scan pgs n of
     (None, m) \<Rightarrow> m = INT_MAX \<and> (\<forall>i<n. pg_state (pgs i) = RESIDENT \<longrightarrow> m \<le> pg_fifo_seq (pgs i))
   | (Some v, m) \<Rightarrow> v < n \<and> pg_state (pgs v) = RESIDENT \<and> m = pg_fifo_seq (pgs v) \<and>
       (\<forall>i<n. pg_state (pgs i) = RESIDENT \<longrightarrow> m \<le> pg_fifo_seq (pgs i))"
proof (induction n)
  case (Suc n)
  obtain v m where f: "fifo_scan pgs n = (v, m)" by force
  show ?case
    using Suc by (cases v) (auto simp: f less_Suc_eq split: if_splits)
qed simp

text \<open>
  Every resident page was given its number when it became resident, from a counter that only
  grows, so smaller numbers are older pages.
\<close>

definition fifo_inv :: "paging_info \<Rightarrow> bool" where
  "fifo_inv pg \<longleftrightarrow>
     (\<forall>i. pg_state (pages pg i) = RESIDENT \<longrightarrow> pg_fifo_seq (pages pg i) < next_fifo_seq pg) \<and>
     (\<forall>i j. pg_state (pages pg i) = RESIDENT \<and> pg_state (pages pg j) = RESIDENT \<and>
        pg_fifo_seq (pages pg i) = pg_fifo_seq (pages pg j) \<longrightarrow> i = j)"

lemma make_resident_paging:
  "mypaging (make_resident (Some n) f s) =
     (mypaging s)\<lparr>next_fifo_seq := c_int (next_fifo_seq (mypaging s) + 1),
        pages := (pages (mypaging s))(n := (f (pages (mypaging s) n))\<lparr>pg_state := RESIDENT,
          pg_fifo_seq := next_fifo_seq (mypaging s)\<rparr>)\<rparr>"
  by (simp add: make_resident_def upd_page_def Let_def)

lemma fifo_inv_next:
  assumes "fifo_inv pg" "0 \<le> next_fifo_seq pg" "next_fifo_seq pg < INT_MAX"
  shows "fifo_inv (pg\<lparr>next_fifo_seq := c_int (next_fifo_seq pg + 1),
     pages := (pages pg)(n := x\<lparr>pg_state := RESIDENT, pg_fifo_seq := next_fifo_seq pg\<rparr>)\<rparr>)"
proof -
  have "c_int (next_fifo_seq pg + 1) = next_fifo_seq pg + 1" using assms(2,3) by (intro c_int_small) (simp_all add: INT_MAX_def)
  then show ?thesis using assms(1) unfolding fifo_inv_def by (auto simp: zless_add1_eq)
qed

text \<open>The counter is an \<open>int\<close>: the page that takes the number \<open>INT_MAX\<close> leaves it at the smallest \<open>int\<close>.\<close>

lemma fifo_counter_overflows:
  assumes "next_fifo_seq (mypaging s) = INT_MAX"
  shows "next_fifo_seq (mypaging (make_resident (Some n) f s)) = - INT_MAX - 1"
  using assms c_int_overflow by (simp add: make_resident_paging)



section \<open>What eviction does to a page\<close>

lemma walk_from_lookup_same: "snd (walk_from l s pt va False) = s"
  by (induction l arbitrary: pt) (auto simp: Let_def)

lemma walk_lookup_same: "walk s pt va False = Ok (pte, s') \<Longrightarrow> s' = s"
  unfolding walk_def using walk_from_lookup_same [of 2 s pt va] by (auto split: if_splits)

lemma kfree_keeps:
  assumes "kfree s pa = Ok s'"
  shows "disk s' = disk s \<and> dtrace s' = dtrace s \<and> bufs s' = bufs s \<and> procs s' = procs s \<and> cur s' = cur s"
  using assms by (auto simp: kfree_def Let_def split: if_splits)

text \<open>A page of the text or data segment enters the table as clean and backed by the executable.\<close>

lemma load_segment_record:
  assumes "load_segment va (Some n) start off fsz perm s = Ok (0, s')"
  shows "pg_state (pages (mypaging s') n) = RESIDENT \<and> \<not> pg_dirty (pages (mypaging s') n) \<and>
     pg_from_exec (pages (mypaging s') n)"
proof -
  from assms obtain t where "s' = make_resident (Some n) (\<lambda>p. p\<lparr>pg_va := va, pg_dirty := False, pg_from_exec := True\<rparr>) t"
    unfolding load_segment_def by (auto simp: Let_def split: if_splits)
  then show ?thesis by (simp add: make_resident_paging del: upd_paging_simps)
qed

text \<open>Dropping a page is unmapping it with \<open>uvmunmap\<close>, on the state whose record says that it is gone.\<close>

lemma discard_page_unmaps:
  assumes "aligned va" "unat va + 4096 \<le> unat MAXVA"
    and "uvmunmap_from (upd_page n (\<lambda>p. p\<lparr>pg_state := UNMAPPED\<rparr>) s) (p_pagetable (myproc s)) va (va + PGSIZE) True = Ok s'"
  shows "discard_page va n s = Ok (0, s')"
proof -
  let ?t = "upd_page n (\<lambda>p. p\<lparr>pg_state := UNMAPPED\<rparr>) s"
  have pt: "p_pagetable (myproc ?t) = p_pagetable (myproc s)" by (simp add: upd_page_def)
  have "unat (va + PGSIZE) = unat va + 4096"
    using assms(2) unat_add_of_nat [of va 4096] by (simp add: PGSIZE_def MAXVA_def)
  then have lt: "va < va + PGSIZE" by (simp add: word_less_nat_alt)
  have stop: "uvmunmap_from t pt (va + PGSIZE) (va + PGSIZE) True = Ok t" for t :: "'a kstate_scheme" and pt
    by (subst uvmunmap_from.simps) simp
  from assms(3) lt obtain pte u where w: "walk ?t (p_pagetable (myproc s)) va False = Ok (pte, u)"
    by (subst (asm) uvmunmap_from.simps) auto
  have u: "u = ?t" using walk_lookup_same [OF w] .
  show ?thesis
    using assms(3) lt w unfolding u
    by (subst (asm) uvmunmap_from.simps)
      (auto simp: discard_page_def Let_def pt stop split: if_splits)
qed

lemma unmap_keeps:
  assumes "uvmunmap_from s pt a stop True = Ok s'"
  shows "disk s' = disk s \<and> dtrace s' = dtrace s \<and> bufs s' = bufs s \<and> procs s' = procs s \<and> cur s' = cur s"
  using assms
proof (induction s pt a stop True rule: uvmunmap_from.induct)
  case (1 s pt a stop)
  show ?case
  proof (cases "a < stop")
    case True
    from 1(3) True obtain pte u where w: "walk s pt a False = Ok (pte, u)"
      by (subst (asm) uvmunmap_from.simps) auto
    show ?thesis
    proof (cases "pte = 0 \<or> ld64 (phys s) pte AND PTE_V = 0")
      case skip: True
      then have "uvmunmap_from s pt (a + PGSIZE) stop True = Ok s'"
        using 1(3) True w by (subst (asm) uvmunmap_from.simps) auto
      then show ?thesis using 1(1) [OF True w refl skip] by blast
    next
      case False
      then obtain t where k: "kfree s (PTE2PA (ld64 (phys s) pte)) = Ok t"
        and r: "uvmunmap_from (t\<lparr>phys := sd64 (phys t) pte 0\<rparr>) pt (a + PGSIZE) stop True = Ok s'"
        using 1(3) True w by (subst (asm) uvmunmap_from.simps) (auto split: if_splits)
      from 1(2) [OF True w refl False _ r] kfree_keeps [OF k] k show ?thesis by simp
    qed
  next
    case False
    then show ?thesis using 1(3) by (subst (asm) uvmunmap_from.simps) simp
  qed
qed

text \<open>
  C14. Evicting a page whose record says that it is clean and comes from the executable drops the
  page, on a well-formed page table: the translation of its address is removed and no other, its
  physical page is at the head of the free list, its record says unmapped. Nothing is written to
  the cache or the disk, whatever the page holds by then, and the next fault will read it from the
  executable again. Pages of the writable data segment are recorded in this way (lemma
  \<open>load_segment_record\<close>), and no store of the program changes the record, so what the program has
  stored in such a page is lost.
\<close>

theorem clean_exec_page_discarded:
  assumes "get_page_info va = Some n" and "PGROUNDDOWN va = va" and "unat va + 4096 \<le> unat MAXVA"
    and "pg_state (pages (mypaging s) n) = RESIDENT" and "\<not> pg_dirty (pages (mypaging s) n)"
    and "pg_from_exec (pages (mypaging s) n)"
    and "pt_inv 2 s (p_pagetable (myproc s)) ps" and "data_pages (phys s) (p_pagetable (myproc s)) va 1 = [pa]"
    and "msdistinct (pt_pages 2 (phys s) (p_pagetable (myproc s)) + {#pa#} + mset ps)" and "ram_page s pa"
  shows "\<exists>s'. swapout_page va s = Ok (0, s') \<and>
     unmapped 1 (phys s) (phys s') (p_pagetable (myproc s)) va \<and> pt_inv 2 s' (p_pagetable (myproc s)) (pa # ps) \<and>
     pg_state (pages (mypaging s') n) = UNMAPPED \<and> disk s' = disk s \<and> dtrace s' = dtrace s \<and> bufs s' = bufs s"
proof -
  let ?t = "upd_page n (\<lambda>p. p\<lparr>pg_state := UNMAPPED\<rparr>) s" and ?pt = "p_pagetable (myproc s)"
  have al: "aligned va" using assms(2) PGROUNDDOWN_aligned [of va] by simp
  have t: "disk ?t = disk s" "dtrace ?t = dtrace s" "bufs ?t = bufs s" "cur ?t = cur s" "phys ?t = phys s"
    "pg_state (pages (p_paging (procs ?t (cur s))) n) = UNMAPPED"
    by (simp_all add: upd_page_def upd_paging_def upd_proc_def)
  have same: "pt_inv 2 ?t pt qs = pt_inv 2 s pt qs" "ram_page ?t x = ram_page s x" for pt qs x
    by (simp_all add: pt_inv_def free_pages_def ram_page_def upd_page_def upd_paging_def upd_proc_def)
  from uvmunmap_from_free [of ?t ?pt ps va 1 "va + PGSIZE"] obtain s' where
    u: "uvmunmap_from ?t ?pt va (va + PGSIZE) True = Ok s'" "pt_inv 2 s' ?pt (pa # ps)"
    "unmapped 1 (phys s) (phys s') ?pt va"
    using assms al by (auto simp: same t PGSIZE_def)
  have "swapout_page va s = Ok (0, s')"
    using discard_page_unmaps [OF al assms(3) u(1)] assms by (simp add: swapout_page_def Let_def)
  moreover have "pg_state (pages (mypaging s') n) = UNMAPPED \<and> disk s' = disk s \<and> dtrace s' = dtrace s \<and> bufs s' = bufs s"
    using unmap_keeps [OF u(1)] t by simp
  ultimately show ?thesis using u(2,3) by blast
qed

theorem clean_exec_page_discarded_witness:
  "\<exists>(s :: kstate) s'. swapout_page 0 s = Ok (0, s') \<and> pg_state (pages (mypaging s) 0) = RESIDENT \<and>
     pg_state (pages (mypaging s') 0) = UNMAPPED \<and> \<not> bit (pte_of 2 (phys s') 0x80022000 0) 0"
proof -
  let ?fl = "PTE_R OR PTE_W OR PTE_U"
  obtain m ps where m: "pt_step demo 0x80022000 [0x80024000, 0x80025000, 0x80026000] m ps"
    "mapped_upto 1 (phys demo) (phys m) 0x80022000 0 0x80023000 ?fl"
    using demo_mapped by blast
  have e: "pte_of 2 (phys m) 0x80022000 0 = PA2PTE 0x80023000 OR (?fl OR PTE_V)"
    using m(2) by (simp add: mapped_upto_def aligned_def layout_defs or.assoc)
  have k: "kend m = 0x80022000" using m(1) by (simp add: pt_step_def demo_def)
  have ram: "ram_page m 0x80023000" by (simp add: k ram_page_def aligned_def layout_defs)
  have "drop_bit 10 (?fl OR PTE_V) = 0" unfolding drop_bit_0_bits by (simp add: bit_or_iff)
  from PTE2PA_ram [OF ram this] have "PTE2PA (pte_of 2 (phys m) 0x80022000 0) = 0x80023000" by (simp only: e)
  moreover have "bit (pte_of 2 (phys m) 0x80022000 0) 0" by (simp add: e bit_or_iff)
  ultimately have d: "data_pages (phys m) 0x80022000 0 1 = [0x80023000]" by simp
  have c: "pt_pages 2 (phys m) 0x80022000 + mset ps = {#0x80022000, 0x80024000, 0x80025000, 0x80026000#}"
    using m(1) by (simp add: pt_step_def demo_pt)
  have ds: "msdistinct (pt_pages 2 (phys m) 0x80022000 + {#0x80023000#} + mset ps)"
  proof -
    have "pt_pages 2 (phys m) 0x80022000 + {#0x80023000#} + mset ps = add_mset 0x80023000 (pt_pages 2 (phys m) 0x80022000 + mset ps)"
      by simp
    then show ?thesis unfolding c by (simp add: msdistinct_def)
  qed
  define s where "s = upd_page 0 (\<lambda>p. p\<lparr>pg_state := RESIDENT, pg_from_exec := True\<rparr>)
    (upd_proc 0 (\<lambda>x. x\<lparr>p_pagetable := 0x80022000\<rparr>) (k0\<lparr>phys := phys m, freelist := freelist m, kend := kend m\<rparr>))"
  have s: "phys s = phys m" "freelist s = freelist m" "kend s = kend m" "cur s = 0" "p_pagetable (procs s 0) = 0x80022000"
    by (simp_all add: s_def upd_page_def upd_paging_def upd_proc_def k0_def)
  have p: "pg_state (pages (p_paging (procs s 0)) 0) = RESIDENT" "\<not> pg_dirty (pages (p_paging (procs s 0)) 0)"
    "pg_from_exec (pages (p_paging (procs s 0)) 0)"
    by (simp_all add: s_def upd_page_def upd_paging_def upd_proc_def k0_def proc0_def paging0_def)
  have inv: "pt_inv 2 s 0x80022000 ps"
    using pt_step_inv [OF demo_inv m(1)] s by (simp add: pt_inv_def free_pages_def ram_page_def)
  have g: "get_page_info 0 = Some 0" and r: "PGROUNDDOWN 0 = 0"
    by (simp_all add: get_page_info_def PGROUNDDOWN_def MAX_TRACKED_PAGES_def PGSIZE_def)
  from clean_exec_page_discarded [OF g r, of s ps "0x80023000"] obtain s' where
    "swapout_page 0 s = Ok (0, s')" "unmapped 1 (phys s) (phys s') 0x80022000 0" "pg_state (pages (mypaging s') 0) = UNMAPPED"
    using p inv d ds ram s by (auto simp: ram_page_def layout_defs)
  then show ?thesis using p s(4)
    by (intro exI [of _ s] exI [of _ s']) (simp add: unmapped_def aligned_def layout_defs)
qed

text \<open>
  A write fault on the text segment marks the process as killed, and yet reports success to
  the caller without mapping anything.
\<close>

theorem text_write_fault_kills:
  assumes "text_start (mypaging s) \<le> PGROUNDDOWN va" and "PGROUNDDOWN va < text_end (mypaging s)"
    and "PGROUNDDOWN va < MAXVA"
  shows "handle_page_fault va 15 s = Ok (0, setkilled (cur s) s)"
proof -
  have "(MAXVA \<le> PGROUNDDOWN va) = False" using assms(3) by (meson leD)
  then show ?thesis
    unfolding handle_page_fault_def Let_def by (simp only: assms if_True if_False simp_thms refl)
qed

theorem text_write_fault_kills_witness:
  "let s = upd_paging 0 (\<lambda>pg. pg\<lparr>text_end := 4096\<rparr>) k0 in handle_page_fault 100 15 s = Ok (0, setkilled 0 s)"
proof -
  let ?s = "upd_paging 0 (\<lambda>pg. pg\<lparr>text_end := 4096\<rparr>) k0"
  have c: "cur ?s = 0" and e: "text_end (mypaging ?s) = 4096" "text_start (mypaging ?s) = 0"
    by (simp_all add: k0_def proc0_def paging0_def)
  have r: "PGROUNDDOWN 100 = 0" by (simp add: PGROUNDDOWN_def PGSIZE_def)
  have "handle_page_fault 100 15 ?s = Ok (0, setkilled (cur ?s) ?s)"
    by (rule text_write_fault_kills) (simp_all only: e r, simp_all add: MAXVA_def)
  then show ?thesis unfolding c Let_def .
qed

text \<open>
  A fault at an address outside text, data and heap, on a page that is not swapped out,
  kills the process and returns -1; memory, page tables and page records stay as they are.
\<close>

theorem invalid_fault_kills:
  assumes "\<not> (text_start (mypaging s) \<le> PGROUNDDOWN va \<and> PGROUNDDOWN va < text_end (mypaging s))"
    and "\<not> (data_start (mypaging s) \<le> PGROUNDDOWN va \<and> PGROUNDDOWN va < data_end (mypaging s))"
    and "\<not> (heap_start (mypaging s) \<le> PGROUNDDOWN va \<and> PGROUNDDOWN va < p_sz (myproc s))"
    and "PGROUNDDOWN va < MAXVA"
    and "\<And>n. get_page_info (PGROUNDDOWN va) = Some n \<Longrightarrow> pg_state (pages (mypaging s) n) \<noteq> SWAPPED"
  shows "handle_page_fault va cause s = Ok (-1, setkilled (cur s) s)"
proof -
  have m: "(MAXVA \<le> PGROUNDDOWN va) = False" using assms(4) by (meson leD)
  have n: "(case get_page_info (PGROUNDDOWN va) of None \<Rightarrow> False | Some i \<Rightarrow> pg_state (pages (mypaging s) i) = SWAPPED) = False"
    using assms(5) by (cases "get_page_info (PGROUNDDOWN va)") simp_all
  have t: "(text_start (mypaging s) \<le> PGROUNDDOWN va \<and> PGROUNDDOWN va < text_end (mypaging s) \<and> cause = 15) = False"
    using assms(1) by blast
  show ?thesis
    unfolding handle_page_fault_def Let_def by (simp only: assms m n t if_False)
qed

theorem invalid_fault_kills_witness: "handle_page_fault 5000 13 k0 = Ok (-1, setkilled 0 k0)"
proof -
  have c: "cur k0 = 0" by (simp add: k0_def)
  have "handle_page_fault 5000 13 k0 = Ok (-1, setkilled (cur k0) k0)"
    by (rule invalid_fault_kills)
      (simp_all add: k0_def proc0_def paging0_def PGROUNDDOWN_def PGSIZE_def MAXVA_def)
  then show ?thesis unfolding c .
qed

end
