(* ===== verification/Pipe.thy ===== *)
theory Pipe
  imports Ring Pagetable_Correct Paging_Correct
begin

text \<open>
  \<open>kernel/pipe.c\<close>. A process that has to wait leaves the operation in the middle, with the pipe
  changed so far; \<open>Wait ch i\<close> is going to sleep on \<open>ch\<close> with \<open>i\<close> bytes done, after which the loop is
  entered again at \<open>i\<close>.
\<close>

datatype pipe_outcome = Ret int | Wait chan nat

abbreviation pipe_at :: "'a kstate_scheme \<Rightarrow> uint64 \<Rightarrow> pipe" where
  "pipe_at s pi \<equiv> pipes s pi"

definition upd_pipe :: "uint64 \<Rightarrow> (pipe \<Rightarrow> pipe) \<Rightarrow> 'a kstate_scheme \<Rightarrow> 'a kstate_scheme" where
  "upd_pipe pi f s = s\<lparr>pipes := (pipes s)(pi := f (pipes s pi))\<rparr>"

section \<open>The buffer\<close>

definition pipe_full :: "pipe \<Rightarrow> bool" where
  "pipe_full p \<longleftrightarrow> pi_nwrite p = pi_nread p + of_nat PIPESIZE"

text \<open>\<open>pi->data[pi->nwrite++ % PIPESIZE] = ch\<close>\<close>

definition pipe_put :: "uint8 \<Rightarrow> pipe \<Rightarrow> pipe" where
  "pipe_put ch p = p\<lparr>pi_data := (pi_data p)(unat (pi_nwrite p) mod PIPESIZE := ch), pi_nwrite := pi_nwrite p + 1\<rparr>"

text \<open>\<open>ch = pi->data[pi->nread % PIPESIZE]\<close>, and \<open>pi->nread++\<close>.\<close>

definition pipe_peek :: "pipe \<Rightarrow> uint8" where
  "pipe_peek p = pi_data p (unat (pi_nread p) mod PIPESIZE)"

definition pipe_advance :: "pipe \<Rightarrow> pipe" where
  "pipe_advance p = p\<lparr>pi_nread := pi_nread p + 1\<rparr>"

section \<open>Operations\<close>

definition pipeclose :: "uint64 \<Rightarrow> bool \<Rightarrow> 'a kstate_scheme \<Rightarrow> 'a kstate_scheme res" where
  "pipeclose pi writable s =
     (let s = (if writable then wakeup (ChPipeRead pi) (upd_pipe pi (\<lambda>p. p\<lparr>pi_writeopen := False\<rparr>) s)
               else wakeup (ChPipeWrite pi) (upd_pipe pi (\<lambda>p. p\<lparr>pi_readopen := False\<rparr>) s))
      in if \<not> pi_readopen (pipe_at s pi) \<and> \<not> pi_writeopen (pipe_at s pi) then kfree s pi else Ok s)"

function pipewrite_from :: "uint64 \<Rightarrow> uint64 \<Rightarrow> nat \<Rightarrow> nat \<Rightarrow> 'a kstate_scheme \<Rightarrow> (pipe_outcome \<times> 'a kstate_scheme) res" where
  "pipewrite_from pi addr n i s =
     (if i < n then
        if \<not> pi_readopen (pipe_at s pi) \<or> killed (cur s) s then Ok (Ret (-1), s)
        else if pipe_full (pipe_at s pi)
        then Ok (Wait (ChPipeWrite pi) i, sleep_enter (ChPipeWrite pi) (wakeup (ChPipeRead pi) s))
        else
          bindr (copyin (p_pagetable (myproc s)) (addr + of_nat i) 1 s) (\<lambda>(r, bs, s).
            if r = -1 then Ok (Ret (int i), wakeup (ChPipeRead pi) s)
            else pipewrite_from pi addr n (Suc i) (upd_pipe pi (pipe_put (hd bs)) s))
      else Ok (Ret (int i), wakeup (ChPipeRead pi) s))"
  by pat_completeness auto
termination
  by (relation "measure (\<lambda>(_, _, n, i, _). n - i)") auto

declare pipewrite_from.simps [simp del]

definition pipewrite :: "uint64 \<Rightarrow> uint64 \<Rightarrow> int \<Rightarrow> 'a kstate_scheme \<Rightarrow> (pipe_outcome \<times> 'a kstate_scheme) res" where
  "pipewrite pi addr n s = pipewrite_from pi addr (nat n) 0 s"

function piperead_from :: "uint64 \<Rightarrow> uint64 \<Rightarrow> nat \<Rightarrow> nat \<Rightarrow> 'a kstate_scheme \<Rightarrow> (int \<times> 'a kstate_scheme) res" where
  "piperead_from pi addr n i s =
     (if i < n then
        if pi_nread (pipe_at s pi) = pi_nwrite (pipe_at s pi) then Ok (int i, s)
        else
          bindr (copyout (p_pagetable (myproc s)) (addr + of_nat i) [pipe_peek (pipe_at s pi)] s) (\<lambda>(r, s).
            if r = -1 then Ok (if i = 0 then -1 else int i, s)
            else piperead_from pi addr n (Suc i) (upd_pipe pi pipe_advance s))
      else Ok (int i, s))"
  by pat_completeness auto
termination
  by (relation "measure (\<lambda>(_, _, n, i, _). n - i)") auto

declare piperead_from.simps [simp del]

definition piperead :: "uint64 \<Rightarrow> uint64 \<Rightarrow> int \<Rightarrow> 'a kstate_scheme \<Rightarrow> (pipe_outcome \<times> 'a kstate_scheme) res" where
  "piperead pi addr n s =
     (if pi_nread (pipe_at s pi) = pi_nwrite (pipe_at s pi) \<and> pi_writeopen (pipe_at s pi) then
        if killed (cur s) s then Ok (Ret (-1), s)
        else Ok (Wait (ChPipeRead pi) 0, sleep_enter (ChPipeRead pi) s)
      else
        bindr (piperead_from pi addr (nat n) 0 s) (\<lambda>(i, s). Ok (Ret i, wakeup (ChPipeWrite pi) s)))"

section \<open>A pipe is a bounded queue\<close>

definition pipe_list :: "pipe \<Rightarrow> uint8 list" where
  "pipe_list p = ring_list PIPESIZE (pi_data p) (pi_nread p) (pi_nwrite p)"

definition pipe_inv :: "pipe \<Rightarrow> bool" where
  "pipe_inv p \<longleftrightarrow> length (pipe_list p) \<le> PIPESIZE"

interpretation pipe_ring: ring PIPESIZE "TYPE(32)"
  by unfold_locales (simp_all add: PIPESIZE_def)

lemma pipe_full_iff: "pipe_full p \<longleftrightarrow> length (pipe_list p) = PIPESIZE"
  by (simp add: pipe_full_def pipe_list_def pipe_ring.full)

lemma pipe_list_put:
  assumes "pipe_inv p" and "\<not> pipe_full p"
  shows "pipe_list (pipe_put c p) = pipe_list p @ [c]"
proof -
  have "unat (pi_nwrite p - pi_nread p) < PIPESIZE"
    using assms by (simp add: pipe_full_iff pipe_inv_def pipe_list_def)
  then show ?thesis
    unfolding pipe_list_def pipe_put_def by (simp add: pipe_ring.push)
qed

text \<open>
  C18. A pipe is a queue of at most \<open>PIPESIZE\<close> bytes, at every value of its 32-bit counters: the
  writer's test for "full" is that the queue is full, its store appends a byte, the reader's test
  for "empty" is that the queue is empty, and what the reader takes is the oldest byte. The bound
  is kept.
\<close>

theorem pipe_is_queue:
  assumes "pipe_inv p"
  shows "(pipe_full p \<longleftrightarrow> length (pipe_list p) = PIPESIZE) \<and>
     (\<not> pipe_full p \<longrightarrow> pipe_list (pipe_put c p) = pipe_list p @ [c] \<and> pipe_inv (pipe_put c p)) \<and>
     (pi_nread p = pi_nwrite p \<longleftrightarrow> pipe_list p = []) \<and>
     (pi_nread p \<noteq> pi_nwrite p \<longrightarrow> pipe_list p = pipe_peek p # pipe_list (pipe_advance p) \<and> pipe_inv (pipe_advance p))"
proof (intro conjI impI)
  show "pipe_full p \<longleftrightarrow> length (pipe_list p) = PIPESIZE" by (rule pipe_full_iff)
  show put: "pipe_list (pipe_put c p) = pipe_list p @ [c]" if "\<not> pipe_full p"
    using assms that by (rule pipe_list_put)
  show "pipe_inv (pipe_put c p)" if "\<not> pipe_full p"
    using put [OF that] that assms by (simp add: pipe_inv_def pipe_full_iff)
  show "pi_nread p = pi_nwrite p \<longleftrightarrow> pipe_list p = []"
    by (auto simp: pipe_list_def ring_list_Nil_iff)
  show pop: "pipe_list p = pipe_peek p # pipe_list (pipe_advance p)" if "pi_nread p \<noteq> pi_nwrite p"
    using ring_pop [OF that] by (simp add: pipe_list_def pipe_peek_def pipe_advance_def)
  show "pipe_inv (pipe_advance p)" if "pi_nread p \<noteq> pi_nwrite p"
    using pop [OF that] assms by (simp add: pipe_inv_def)
qed

theorem pipe_is_queue_witness:
  "let p = \<lparr>pi_data = (\<lambda>_. 0), pi_nread = 0xFFFFFFFF, pi_nwrite = 0xFFFFFFFF, pi_readopen = True, pi_writeopen = True\<rparr>
   in pipe_list (pipe_put 7 p) = [7]"
proof -
  let ?p = "\<lparr>pi_data = (\<lambda>_. 0), pi_nread = 0xFFFFFFFF, pi_nwrite = 0xFFFFFFFF, pi_readopen = True, pi_writeopen = True\<rparr>"
  have inv: "pipe_inv ?p" by (simp add: pipe_inv_def pipe_list_def)
  have e: "pipe_list ?p = []" by (simp add: pipe_list_def)
  have "\<not> pipe_full ?p" by (simp add: pipe_full_iff e PIPESIZE_def)
  with pipe_is_queue [OF inv, of 7] e show ?thesis by simp
qed

section \<open>Writing\<close>

text \<open>The user bytes at \<open>addr\<close> are in resident pages.\<close>

definition user_byte :: "'a kstate_scheme \<Rightarrow> uint64 \<Rightarrow> uint8 option" where
  "user_byte s va =
     (case walkaddr s (p_pagetable (myproc s)) (PGROUNDDOWN va) of
        Ok pa \<Rightarrow> if pa = 0 then None else Some (phys s (pa + (va - PGROUNDDOWN va)))
      | _ \<Rightarrow> None)"

lemma copyin_byte:
  assumes "user_byte s va = Some c"
  shows "copyin (p_pagetable (myproc s)) va 1 s = Ok (0, [c], s)"
proof -
  from assms obtain pa where "walkaddr s (p_pagetable (myproc s)) (PGROUNDDOWN va) = Ok pa" "pa \<noteq> 0"
    "c = phys s (pa + (va - PGROUNDDOWN va))"
    by (auto simp: user_byte_def split: res.splits if_splits)
  moreover have "min 1 (4096 - page_off va) = 1" by (simp add: page_off_def)
  moreover have "copyin pt v 0 t = Ok (0, [], t)" for pt v and t :: "'a kstate_scheme" by (subst copyin.simps) simp
  ultimately show ?thesis
    by (subst copyin.simps) (simp add: user_page_def Let_def mem_get_def)
qed

lemma walkaddr_phys: "phys s = phys t \<Longrightarrow> walkaddr s pt va = walkaddr t pt va"
  by (simp add: walkaddr_def walk_def walk_from_lookup split: prod.splits)

lemma upd_pipe_sel [simp]:
  "phys (upd_pipe pi f s) = phys s" "procs (upd_pipe pi f s) = procs s" "cur (upd_pipe pi f s) = cur s"
  "pipes (upd_pipe pi f s) pi = f (pipes s pi)"
  by (simp_all add: upd_pipe_def)

lemma user_byte_upd_pipe [simp]: "user_byte (upd_pipe pi f s) va = user_byte s va"
  by (simp add: user_byte_def walkaddr_phys [of "upd_pipe pi f s" s] split: res.split)

lemma pipewrite_from_appends:
  assumes "pi_readopen (pipe_at s pi)" and "\<not> killed (cur s) s" and "pipe_inv (pipe_at s pi)"
    and "length (pipe_list (pipe_at s pi)) + (n - i) \<le> PIPESIZE" and "i \<le> n"
    and "\<forall>j. i \<le> j \<and> j < n \<longrightarrow> user_byte s (addr + of_nat j) = Some (f j)"
  shows "\<exists>s'. pipewrite_from pi addr n i s = Ok (Ret (int n), wakeup (ChPipeRead pi) s') \<and>
     pipe_list (pipe_at s' pi) = pipe_list (pipe_at s pi) @ map f [i..<n]"
  using assms
proof (induction "n - i" arbitrary: i s)
  case 0
  then show ?case by (auto simp: pipewrite_from.simps)
next
  case (Suc k)
  then have i: "i < n" by simp
  let ?s = "upd_pipe pi (pipe_put (f i)) s"
  have full: "\<not> pipe_full (pipe_at s pi)" using Suc.prems(4) i by (simp add: pipe_full_iff)
  have l: "pipe_list (pipe_at ?s pi) = pipe_list (pipe_at s pi) @ [f i]"
    using pipe_list_put [OF Suc.prems(3) full] by simp
  have cur: "pi_readopen (pipe_at ?s pi)" "\<not> killed (cur ?s) ?s" "\<forall>j. Suc i \<le> j \<and> j < n \<longrightarrow> user_byte ?s (addr + of_nat j) = Some (f j)"
    using Suc.prems(1,2,6) by (simp_all add: pipe_put_def killed_def)
  have "\<exists>s'. pipewrite_from pi addr n (Suc i) ?s = Ok (Ret (int n), wakeup (ChPipeRead pi) s') \<and>
     pipe_list (pipe_at s' pi) = pipe_list (pipe_at ?s pi) @ map f [Suc i..<n]"
    using Suc.hyps(2) Suc.prems(4) i l cur by (intro Suc.hyps(1)) (auto simp: pipe_inv_def)
  moreover have "pipewrite_from pi addr n i s = pipewrite_from pi addr n (Suc i) ?s"
    using Suc.prems(1,2,6) i full by (subst pipewrite_from.simps) (simp add: copyin_byte [unfolded One_nat_def])
  moreover have "map f [i..<n] = f i # map f [Suc i..<n]" using i by (simp add: upt_conv_Cons)
  ultimately show ?case using l by simp
qed

text \<open>
  C25. \<open>pipewrite\<close> of bytes that fit into the pipe does not wait: it returns their number, and the
  queue is extended by exactly the user's bytes, in their order. The bytes are in resident pages
  of the process, the process is not killed and the read end is open.
\<close>

theorem pipewrite_appends:
  assumes "pi_readopen (pipe_at s pi)" and "\<not> killed (cur s) s" and "pipe_inv (pipe_at s pi)"
    and "length (pipe_list (pipe_at s pi)) + n \<le> PIPESIZE"
    and "\<forall>j<n. user_byte s (addr + of_nat j) = Some (f j)"
  shows "\<exists>s'. pipewrite pi addr (int n) s = Ok (Ret (int n), s') \<and>
     pipe_list (pipe_at s' pi) = pipe_list (pipe_at s pi) @ map f [0..<n]"
proof -
  have "pipe_at (wakeup ch t) pi = pipe_at t pi" for ch and t :: "'a kstate_scheme" by (simp add: wakeup_def)
  then show ?thesis
    using pipewrite_from_appends [of s pi n 0 addr f] assms by (auto simp: pipewrite_def)
qed

text \<open>
  A process whose whole address space is one page, at \<open>KERNBASE\<close>: every entry of its page table is
  the same.
\<close>

definition one_page_mem :: mem where
  "one_page_mem a = (if a AND 7 = 0 then 0x17 else if a AND 7 = 3 then 0x20 else 0)"

definition one_page :: kstate where
  "one_page = k0\<lparr>phys := one_page_mem,
     pipes := (\<lambda>_. \<lparr>pi_data = (\<lambda>_. 0), pi_nread = 3, pi_nwrite = 3, pi_readopen = True, pi_writeopen = True\<rparr>)\<rparr>"

lemma one_page_entry:
  "ld64 one_page_mem 0 = 0x20000017" "ld64 one_page_mem 0x80000000 = 0x20000017"
  by (simp_all add: ld64_def mem_get_def one_page_mem_def upt_rec)

lemma one_page_phys: "phys one_page = one_page_mem"
  by (simp add: one_page_def)

lemma one_page_pa: "PTE2PA 0x20000017 = 0x80000000"
  by (simp add: PTE2PA_def)

lemma one_page_lookup: "walk one_page 0 0 False = Ok (0x80000000, one_page)"
proof -
  have px: "PX l 0 = 0" for l by (simp add: PX_def)
  have "walk_from (Suc (Suc 0)) one_page 0 0 False = (0x80000000, one_page)"
    by (simp add: one_page_phys px one_page_pa pte_addr_def one_page_entry PTE_V_def)
  then show ?thesis
    unfolding walk_def numeral_2_eq_2 by (simp add: MAXVA_def del: walk_from.simps)
qed

lemma one_page_walk: "walkaddr one_page 0 0 = Ok 0x80000000"
  using one_page_lookup
  by (simp add: walkaddr_def one_page_phys one_page_entry PTE_V_def PTE_U_def MAXVA_def one_page_pa)

theorem pipewrite_appends_witness:
  "\<exists>s'. pipewrite 0x87000000 0 2 one_page = Ok (Ret 2, s') \<and> pipe_list (pipe_at s' 0x87000000) = [0x17, 0]"
proof -
  have "user_byte one_page 0 = Some 0x17" "user_byte one_page 1 = Some 0"
    using one_page_walk
    by (simp_all add: user_byte_def one_page_def k0_def proc0_def PGROUNDDOWN_def PGSIZE_def one_page_mem_def)
  then have "\<forall>j<2. user_byte one_page (0 + of_nat j) = Some ([0x17, 0] ! j)"
    by (auto simp: less_2_cases_iff)
  moreover have "pipe_list (pipe_at one_page 0x87000000) = []" by (simp add: one_page_def pipe_list_def)
  ultimately show ?thesis
    using pipewrite_appends [where s = one_page and pi = "0x87000000" and n = 2 and addr = 0 and f = "\<lambda>j. [0x17, 0] ! j"]
    by (simp add: pipe_inv_def PIPESIZE_def upt_rec, simp add: one_page_def k0_def killed_def proc0_def)
qed

end
