(* ===== verification/File.thy ===== *)
theory File
  imports Pipe
begin

text \<open>
  \<open>kernel/file.c\<close>, and \<open>pipealloc\<close> of \<open>kernel/pipe.c\<close>, which undoes its work with \<open>fileclose\<close>. The table
  \<open>devsw\<close> of device functions is an argument, as it is filled at boot.
\<close>

section \<open>Closing\<close>

text \<open>\<open>begin_op(); iput(ip); end_op();\<close>\<close>

definition iput_op :: "'a kstate_scheme \<Rightarrow> nat \<Rightarrow> 'a kstate_scheme res" where
  "iput_op s ip = bindr (begin_op s) (\<lambda>s. bindr (iput s ip) end_op)"

definition fileclose :: "'a kstate_scheme \<Rightarrow> nat \<Rightarrow> 'a kstate_scheme res" where
  "fileclose s f =
     (if f_ref (ftable s f) < 1 then Panic ''fileclose''
      else
        let s = upd_file f (\<lambda>x. x\<lparr>f_ref := f_ref x - 1\<rparr>) s in
        if f_ref (ftable s f) > 0 then Ok s
        else
          let ff = ftable s f; s = upd_file f (\<lambda>x. x\<lparr>f_ref := 0, f_type := FD_NONE\<rparr>) s in
          if f_type ff = FD_PIPE then pipeclose (f_pipe ff) (f_writable ff) s
          else if f_type ff = FD_INODE \<or> f_type ff = FD_DEVICE then iput_op s (f_ip ff)
          else Ok s)"

text \<open>
  \<open>pipealloc\<close>: the files of the read end and of the write end. \<open>close_opt\<close> is \<open>if (f) fileclose(f);\<close>.
\<close>

definition close_opt :: "nat option \<Rightarrow> 'a kstate_scheme \<Rightarrow> 'a kstate_scheme res" where
  "close_opt f s = (case f of None \<Rightarrow> Ok s | Some f \<Rightarrow> fileclose s f)"

definition pipealloc_bad :: "uint64 \<Rightarrow> nat option \<Rightarrow> nat option \<Rightarrow> 'a kstate_scheme \<Rightarrow> ((nat \<times> nat) option \<times> 'a kstate_scheme) res" where
  "pipealloc_bad pi f0 f1 s =
     bindr (if pi \<noteq> 0 then kfree s pi else Ok s) (\<lambda>s.
       bindr (close_opt f0 s) (\<lambda>s. bindr (close_opt f1 s) (\<lambda>s. Ok (None, s))))"

definition pipealloc :: "'a kstate_scheme \<Rightarrow> ((nat \<times> nat) option \<times> 'a kstate_scheme) res" where
  "pipealloc s =
     (case filealloc s of
        (None, s) \<Rightarrow> pipealloc_bad 0 None None s
      | (Some f0, s) \<Rightarrow>
          (case filealloc s of
             (None, s) \<Rightarrow> pipealloc_bad 0 (Some f0) None s
           | (Some f1, s) \<Rightarrow>
               let (pi, s) = kalloc s in
               if pi = 0 then pipealloc_bad pi (Some f0) (Some f1) s
               else
                 let s = upd_pipe pi (\<lambda>p. p\<lparr>pi_readopen := True, pi_writeopen := True, pi_nwrite := 0, pi_nread := 0\<rparr>) s;
                     s = upd_file f0 (\<lambda>x. x\<lparr>f_type := FD_PIPE, f_readable := True, f_writable := False, f_pipe := pi\<rparr>) s;
                     s = upd_file f1 (\<lambda>x. x\<lparr>f_type := FD_PIPE, f_readable := False, f_writable := True, f_pipe := pi\<rparr>) s
                 in Ok (Some (f0, f1), s)))"

section \<open>Status\<close>

text \<open>The bytes of a \<open>struct stat\<close>: \<open>dev\<close>, \<open>ino\<close>, \<open>type\<close>, \<open>nlink\<close>, four bytes of padding, \<open>size\<close>.\<close>

definition stat_bytes :: "stat \<Rightarrow> uint8 list \<Rightarrow> uint8 list" where
  "stat_bytes st pad =
     bytes_of_word 4 (st_dev st) @ bytes_of_word 4 (st_ino st) @ bytes_of_word 2 (st_type st) @
     bytes_of_word 2 (st_nlink st) @ pad @ bytes_of_word 8 (st_size st)"

text \<open>\<open>pad\<close> is what the stack holds in the padding of the local variable.\<close>

definition filestat :: "uint8 list \<Rightarrow> 'a kstate_scheme \<Rightarrow> nat \<Rightarrow> uint64 \<Rightarrow> (int \<times> 'a kstate_scheme) res" where
  "filestat pad s f addr =
     (if f_type (ftable s f) = FD_INODE \<or> f_type (ftable s f) = FD_DEVICE then
        bindr (ilock s (f_ip (ftable s f))) (\<lambda>s.
        let st = stati s (f_ip (ftable s f)) in
        bindr (iunlock s (f_ip (ftable s f))) (\<lambda>s.
        bindr (copyout (p_pagetable (myproc s)) addr (stat_bytes st pad) s) (\<lambda>(r, s).
          Ok (if r < 0 then -1 else 0, s))))
      else Ok (-1, s))"

section \<open>Reading and writing\<close>

type_synonym 's devop = "bool \<Rightarrow> uint64 \<Rightarrow> int \<Rightarrow> 's \<Rightarrow> (pipe_outcome \<times> 's) res"

definition dev_of :: "(nat \<Rightarrow> 's devop option) \<Rightarrow> uint16 \<Rightarrow> 's devop option" where
  "dev_of devsw major =
     (if sint major < 0 \<or> sint major \<ge> int NDEV then None else devsw (unat major))"

definition fileread :: "(nat \<Rightarrow> 'a kstate_scheme devop option) \<Rightarrow> 'a kstate_scheme \<Rightarrow> nat \<Rightarrow> uint64 \<Rightarrow> int \<Rightarrow>
    (pipe_outcome \<times> 'a kstate_scheme) res" where
  "fileread devsw s f addr n =
     (if \<not> f_readable (ftable s f) then Ok (Ret (-1), s)
      else
        case f_type (ftable s f) of
          FD_PIPE \<Rightarrow> piperead (f_pipe (ftable s f)) addr n s
        | FD_DEVICE \<Rightarrow> (case dev_of devsw (f_major (ftable s f)) of None \<Rightarrow> Ok (Ret (-1), s) | Some rd \<Rightarrow> rd True addr n s)
        | FD_INODE \<Rightarrow>
            bindr (ilock s (f_ip (ftable s f))) (\<lambda>s.
            bindr (readi ucopyout () s (f_ip (ftable s f)) addr (f_off (ftable s f)) (of_int n)) (\<lambda>(r, _, s).
            let s = (if r > 0 then upd_file f (\<lambda>x. x\<lparr>f_off := f_off x + of_int r\<rparr>) s else s) in
            bindr (iunlock s (f_ip (ftable s f))) (\<lambda>s. Ok (Ret r, s))))
        | FD_NONE \<Rightarrow> Panic ''fileread'')"

definition MAX_WRITE :: int where
  "MAX_WRITE = (int MAXOPBLOCKS - 1 - 1 - 2) div 2 * int BSIZE"

function filewrite_from :: "nat \<Rightarrow> uint64 \<Rightarrow> int \<Rightarrow> int \<Rightarrow> 'a kstate_scheme \<Rightarrow> (int \<times> 'a kstate_scheme) res" where
  "filewrite_from f addr n i s =
     (if i < n then
        let n1 = min (n - i) MAX_WRITE in
        bindr (in_op (f_ip (ftable s f)) (\<lambda>s.
            bindr (writei ucopyin s (f_ip (ftable s f)) (addr + of_int i) (f_off (ftable s f)) (of_int n1)) (\<lambda>(r, s).
              Ok (r, if r > 0 then upd_file f (\<lambda>x. x\<lparr>f_off := f_off x + of_int r\<rparr>) s else s))) s) (\<lambda>(r, s).
          if r \<noteq> n1 then Ok (i, s) else filewrite_from f addr n (i + r) s)
      else Ok (i, s))"
  by pat_completeness auto
termination
  by (relation "measure (\<lambda>(_, _, n, i, _). nat (n - i))") (auto simp: MAX_WRITE_def MAXOPBLOCKS_def BSIZE_def)

declare filewrite_from.simps [simp del]

definition filewrite :: "(nat \<Rightarrow> 'a kstate_scheme devop option) \<Rightarrow> 'a kstate_scheme \<Rightarrow> nat \<Rightarrow> uint64 \<Rightarrow> int \<Rightarrow>
    (pipe_outcome \<times> 'a kstate_scheme) res" where
  "filewrite devsw s f addr n =
     (if \<not> f_writable (ftable s f) then Ok (Ret (-1), s)
      else
        case f_type (ftable s f) of
          FD_PIPE \<Rightarrow> pipewrite (f_pipe (ftable s f)) addr n s
        | FD_DEVICE \<Rightarrow> (case dev_of devsw (f_major (ftable s f)) of None \<Rightarrow> Ok (Ret (-1), s) | Some wr \<Rightarrow> wr True addr n s)
        | FD_INODE \<Rightarrow> bindr (filewrite_from f addr n 0 s) (\<lambda>(i, s). Ok (Ret (if i = n then n else -1), s))
        | FD_NONE \<Rightarrow> Panic ''filewrite'')"

section \<open>Results\<close>

text \<open>Entries of the file table that are not in use have no type.\<close>

definition files_ok :: "'a kstate_scheme \<Rightarrow> bool" where
  "files_ok s \<longleftrightarrow> (\<forall>f<NFILE. 0 \<le> f_ref (ftable s f) \<and> (f_ref (ftable s f) = 0 \<longrightarrow> f_type (ftable s f) = FD_NONE))"

lemma filealloc_SomeD:
  assumes "filealloc s = (Some f, t)"
  shows "f < NFILE \<and> f_ref (ftable s f) = 0 \<and> t = upd_file f (\<lambda>x. x\<lparr>f_ref := 1\<rparr>) s"
  using assms by (auto simp: filealloc_def scan_Some_iff split: option.splits)

lemma filealloc_NoneD: "filealloc s = (None, t) \<Longrightarrow> t = s"
  by (auto simp: filealloc_def split: option.splits)

lemma fileclose_fresh:
  assumes "ftable s f = x\<lparr>f_ref := 1\<rparr>" and "f_ref x = 0" and "f_type x = FD_NONE" and "fileclose s f = Ok s'"
  shows "ftable s' = (ftable s)(f := x)"
  using assms by (auto simp: fileclose_def Let_def)

lemma ftable_kalloc: "kalloc s = (pi, t) \<Longrightarrow> ftable t = ftable s"
  by (auto simp: kalloc_def Let_def split: if_splits)

text \<open>
  C30. \<open>pipealloc\<close> leaks nothing when it fails, whether it ran out of file structures after one or at
  once, or out of memory: every entry of the file table is as it was before, and no entry is
  handed out.
\<close>

theorem pipealloc_no_leak:
  assumes ok: "files_ok s" and r: "pipealloc s = Ok (None, s')"
  shows "ftable s' = ftable s"
proof -
  obtain o0 t0 where a0: "filealloc s = (o0, t0)" by (cases "filealloc s")
  show ?thesis
  proof (cases o0)
    case None
    then show ?thesis using r a0 filealloc_NoneD [of s t0] by (simp add: pipealloc_def pipealloc_bad_def close_opt_def)
  next
    case (Some f0)
    let ?x = "ftable s f0"
    have f0: "f_ref ?x = 0" "f_type ?x = FD_NONE" and t0: "ftable t0 = (ftable s)(f0 := ?x\<lparr>f_ref := 1\<rparr>)"
      using filealloc_SomeD [of s f0 t0] a0 Some ok by (auto simp: files_ok_def)
    obtain o1 t1 where a1: "filealloc t0 = (o1, t1)" by (cases "filealloc t0")
    show ?thesis
    proof (cases o1)
      case None
      then have "fileclose t0 f0 = Ok s'"
        using r a0 a1 Some filealloc_NoneD [of t0 t1]
        by (auto simp: pipealloc_def pipealloc_bad_def close_opt_def bindr_eq_Ok)
      then show ?thesis using fileclose_fresh [of t0 f0 ?x s'] f0 t0 by simp
    next
      case (Some f1)
      let ?y = "ftable t0 f1"
      have f1: "f_ref ?y = 0" "f1 < NFILE" and t1: "ftable t1 = (ftable t0)(f1 := ?y\<lparr>f_ref := 1\<rparr>)"
        using filealloc_SomeD [of t0 f1 t1] a1 Some by auto
      have ne: "f1 \<noteq> f0" using f1 t0 by auto
      have y: "f_type ?y = FD_NONE" using f1 ok t0 ne by (auto simp: files_ok_def)
      obtain pi t2 where k: "kalloc t1 = (pi, t2)" by (cases "kalloc t1")
      have t2: "ftable t2 = ftable t1" using ftable_kalloc [OF k] .
      obtain t3 where c0: "fileclose t2 f0 = Ok t3" and c1: "fileclose t3 f1 = Ok s'"
        using r a0 a1 Some \<open>o0 = Some f0\<close> k
        by (auto simp: pipealloc_def pipealloc_bad_def close_opt_def Let_def bindr_eq_Ok split: if_splits)
      have t3: "ftable t3 = (ftable t2)(f0 := ?x)"
        using fileclose_fresh [OF _ f0 c0] t0 t1 t2 ne by simp
      have "ftable s' = (ftable t3)(f1 := ?y)"
        using fileclose_fresh [OF _ f1(1) y c1] t1 t2 t3 ne by simp
      then show ?thesis using t0 t1 t2 t3 ne by (auto simp: fun_eq_iff)
    qed
  qed
qed

text \<open>A kernel in which all file structures are in use.\<close>

definition k_files_used :: kstate where
  "k_files_used = k0\<lparr>ftable := (\<lambda>_. (ftable k0 0)\<lparr>f_ref := 1\<rparr>)\<rparr>"

theorem pipealloc_no_leak_witness:
  "\<exists>s'. pipealloc k_files_used = Ok (None, s') \<and> ftable s' = ftable k_files_used"
proof -
  have "scan (\<lambda>f. f_ref (ftable k_files_used f) = 0) NFILE = None" by (simp add: scan_None_iff k_files_used_def)
  then have "pipealloc k_files_used = Ok (None, k_files_used)"
    by (simp add: pipealloc_def pipealloc_bad_def close_opt_def filealloc_def)
  moreover have "files_ok k_files_used" by (simp add: files_ok_def k_files_used_def)
  ultimately show ?thesis using pipealloc_no_leak by blast
qed

end
