(* ===== verification/Proc.thy ===== *)
theory Proc
  imports File
begin

text \<open>
  The life of a process in \<open>kernel/proc.c\<close>: creation, growth, fork, exit and wait. The addresses that
  the linker gives to \<open>trampoline\<close> and \<open>forkret\<close> are arguments. The trap frame of a process is in its
  page of physical memory, at the offsets of \<open>struct trapframe\<close>.
\<close>

definition TRAPFRAME_BYTES :: nat where "TRAPFRAME_BYTES = 288"
definition TF_a0 :: uint64 where "TF_a0 = 112"

section \<open>Creation and destruction\<close>

definition freeproc :: "nat \<Rightarrow> 'a kstate_scheme \<Rightarrow> 'a kstate_scheme res" where
  "freeproc p s =
     bindr (if p_trapframe (procs s p) \<noteq> 0 then kfree s (p_trapframe (procs s p)) else Ok s) (\<lambda>s.
     let s = upd_proc p (\<lambda>x. x\<lparr>p_trapframe := 0\<rparr>) s in
     bindr (if p_pagetable (procs s p) \<noteq> 0 then proc_freepagetable s (p_pagetable (procs s p)) (p_sz (procs s p)) else Ok s) (\<lambda>s.
       Ok (upd_proc p (\<lambda>x. x\<lparr>p_pagetable := 0, p_sz := 0, p_pid := 0, p_parent := None, p_name := (p_name x)(0 := 0),
             p_chan := None, p_killed := False, p_xstate := 0, p_state := UNUSED\<rparr>) s)))"

definition allocproc :: "uint64 \<Rightarrow> uint64 \<Rightarrow> 'a kstate_scheme \<Rightarrow> (nat option \<times> 'a kstate_scheme) res" where
  "allocproc trampoline forkret s =
     (case scan (\<lambda>p. p_state (procs s p) = UNUSED) NPROC of
        None \<Rightarrow> Ok (None, s)
      | Some p \<Rightarrow>
          let (pid, s) = allocpid s;
              s = upd_proc p (\<lambda>x. x\<lparr>p_pid := pid, p_state := USED\<rparr>) s;
              (tf, s) = kalloc s;
              s = upd_proc p (\<lambda>x. x\<lparr>p_trapframe := tf\<rparr>) s
          in
          if tf = 0 then bindr (freeproc p s) (\<lambda>s. Ok (None, s))
          else
            bindr (proc_pagetable s trampoline tf) (\<lambda>(pt, s).
              let s = upd_proc p (\<lambda>x. x\<lparr>p_pagetable := pt\<rparr>) s in
              if pt = 0 then bindr (freeproc p s) (\<lambda>s. Ok (None, s))
              else
                Ok (Some p, upd_proc p (\<lambda>x. x\<lparr>p_context := \<lparr>ctx_ra = forkret, ctx_sp = p_kstack x + PGSIZE\<rparr>,
                                              p_paging := init_paging_info\<rparr>) s)))"

text \<open>
  \<open>userinit\<close>; a null result of \<open>allocproc\<close> is a fault in the kernel. The path is absolute, so \<open>namei\<close>
  does not use a current directory.
\<close>

definition userinit :: "uint64 \<Rightarrow> uint64 \<Rightarrow> 'a kstate_scheme \<Rightarrow> 'a kstate_scheme res" where
  "userinit trampoline forkret s =
     bindr (allocproc trampoline forkret s) (\<lambda>(r, s).
       let s = s\<lparr>initproc := r\<rparr> in
       case r of
         None \<Rightarrow> Panic ''kerneltrap''
       | Some p \<Rightarrow>
           bindr (namei s 0 [slash]) (\<lambda>(ip, s). Ok (upd_proc p (\<lambda>x. x\<lparr>p_cwd := ip, p_state := RUNNABLE\<rparr>) s)))"

definition growproc :: "int \<Rightarrow> 'a kstate_scheme \<Rightarrow> (int \<times> 'a kstate_scheme) res" where
  "growproc n s =
     (let sz = p_sz (myproc s); pt = p_pagetable (myproc s); set_sz = (\<lambda>sz s. upd_proc (cur s) (\<lambda>x. x\<lparr>p_sz := sz\<rparr>) s) in
      if n > 0 then
        if sz + of_int n \<ge> TRAPFRAME then Ok (-1, s)
        else
          bindr (uvmalloc s pt sz (sz + of_int n) PTE_W) (\<lambda>(sz, s).
            if sz = 0 then Ok (-1, s) else Ok (0, set_sz sz s))
      else if n < 0 then bindr (uvmdealloc s pt sz (sz + of_int n)) (\<lambda>(sz, s). Ok (0, set_sz sz s))
      else Ok (0, set_sz sz s))"

section \<open>Fork\<close>

definition FORK_PAGES :: nat where "FORK_PAGES = 16384"

text \<open>The loop that copies the page records of the parent, over the first \<open>n\<close> records.\<close>

primrec fork_pages :: "(nat \<Rightarrow> page_info) \<Rightarrow> nat \<Rightarrow> paging_info \<Rightarrow> paging_info" where
  "fork_pages par 0 np = np"
| "fork_pages par (Suc j) np =
     (let np = fork_pages par j np; x = pages np j in
      if pg_state (par j) = RESIDENT then
        np\<lparr>next_fifo_seq := c_int (next_fifo_seq np + 1),
           pages := (pages np)(j := x\<lparr>pg_va := pg_va (par j), pg_from_exec := pg_from_exec (par j), pg_dirty := False,
             pg_swap_slot := -1, pg_state := RESIDENT, pg_fifo_seq := next_fifo_seq np\<rparr>)\<rparr>
      else np\<lparr>pages := (pages np)(j := x\<lparr>pg_state := UNMAPPED\<rparr>)\<rparr>)"

definition fork_paging :: "paging_info \<Rightarrow> paging_info \<Rightarrow> paging_info" where
  "fork_paging par np =
     fork_pages (pages par) FORK_PAGES
       (np\<lparr>text_start := text_start par, text_end := text_end par, data_start := data_start par, data_end := data_end par,
          text_offset := text_offset par, data_offset := data_offset par, text_filesz := text_filesz par,
          data_filesz := data_filesz par, heap_start := heap_start par, stack_top := stack_top par,
          exec_ip := (case exec_ip par of Some ip \<Rightarrow> Some ip | None \<Rightarrow> exec_ip np)\<rparr>)"

definition fork_file :: "nat \<Rightarrow> nat \<Rightarrow> 'a kstate_scheme \<Rightarrow> 'a kstate_scheme res" where
  "fork_file np i s =
     (case p_ofile (myproc s) i of
        None \<Rightarrow> Ok s
      | Some f \<Rightarrow> bindr (filedup s f) (\<lambda>s. Ok (upd_proc np (\<lambda>x. x\<lparr>p_ofile := (p_ofile x)(i \<mapsto> f)\<rparr>) s)))"

definition fork_trapframe :: "nat \<Rightarrow> 'a kstate_scheme \<Rightarrow> 'a kstate_scheme" where
  "fork_trapframe np s =
     (let dst = p_trapframe (procs s np);
          m = mem_put (phys s) dst (mem_get (phys s) (p_trapframe (myproc s)) TRAPFRAME_BYTES)
      in s\<lparr>phys := sd64 m (dst + TF_a0) 0\<rparr>)"

definition kfork :: "uint64 \<Rightarrow> uint64 \<Rightarrow> 'a kstate_scheme \<Rightarrow> (int \<times> 'a kstate_scheme) res" where
  "kfork trampoline forkret s =
     bindr (allocproc trampoline forkret s) (\<lambda>(r, s).
       case r of
         None \<Rightarrow> Ok (-1, s)
       | Some np \<Rightarrow>
           bindr (uvmcopy s (p_pagetable (myproc s)) (p_pagetable (procs s np)) (p_sz (myproc s))) (\<lambda>(good, s).
             if \<not> good then bindr (freeproc np s) (\<lambda>s. Ok (-1, s))
             else
               let s = upd_proc np (\<lambda>x. x\<lparr>p_sz := p_sz (myproc s)\<rparr>) s;
                   s = (case exec_ip (mypaging s) of Some ip \<Rightarrow> snd (idup s ip) | None \<Rightarrow> s);
                   s = upd_paging np (fork_paging (mypaging s)) s;
                   s = fork_trapframe np s
               in
               bindr (for_upto NOFILE (fork_file np) s) (\<lambda>s.
               bindr (mycwd s) (\<lambda>cwd.
                 let s = snd (idup s cwd);
                     s = upd_proc np (\<lambda>x. x\<lparr>p_cwd := Some cwd, p_name := safestrcpy (p_name x) (p_name (myproc s)) 16,
                           p_parent := Some (cur s), p_state := RUNNABLE\<rparr>) s
                 in Ok (p_pid (procs s np), s)))))"

section \<open>Exit and wait\<close>

definition exit_swapfile :: "'a kstate_scheme \<Rightarrow> 'a kstate_scheme res" where
  "exit_swapfile s =
     (case swapfile (mypaging s) of
        None \<Rightarrow> Ok s
      | Some f \<Rightarrow> bindr (fileclose s f) (\<lambda>s. Ok (upd_paging (cur s) (\<lambda>pg. pg\<lparr>swapfile := None\<rparr>) s)))"

definition exit_exec_ip :: "'a kstate_scheme \<Rightarrow> 'a kstate_scheme res" where
  "exit_exec_ip s =
     (case exec_ip (mypaging s) of
        None \<Rightarrow> Ok s
      | Some ip \<Rightarrow> bindr (iput_op s ip) (\<lambda>s. Ok (upd_paging (cur s) (\<lambda>pg. pg\<lparr>exec_ip := None\<rparr>) s)))"

definition exit_file :: "nat \<Rightarrow> 'a kstate_scheme \<Rightarrow> 'a kstate_scheme res" where
  "exit_file fd s =
     (case p_ofile (myproc s) fd of
        None \<Rightarrow> Ok s
      | Some f \<Rightarrow> bindr (fileclose s f) (\<lambda>s. Ok (upd_proc (cur s) (\<lambda>x. x\<lparr>p_ofile := (p_ofile x)(fd := None)\<rparr>) s)))"

text \<open>From the point where \<open>wait_lock\<close> is acquired; \<open>wakeup(p->parent)\<close> with a null parent wakes nobody.\<close>

definition exit_zombie :: "uint32 \<Rightarrow> 'a kstate_scheme \<Rightarrow> 'a kstate_scheme" where
  "exit_zombie status s =
     (let s = reparent (cur s) s;
          s = (case p_parent (myproc s) of Some pp \<Rightarrow> wakeup (ChProc pp) s | None \<Rightarrow> s)
      in upd_proc (cur s) (\<lambda>x. x\<lparr>p_xstate := status, p_state := ZOMBIE\<rparr>) s)"

text \<open>\<open>kexit\<close> up to its call of \<open>sched\<close>, from which it does not return.\<close>

definition kexit :: "uint32 \<Rightarrow> 'a kstate_scheme \<Rightarrow> 'a kstate_scheme res" where
  "kexit status s =
     (if initproc s = Some (cur s) then Panic ''init exiting''
      else
        bindr (exit_swapfile s) (\<lambda>s.
        bindr (exit_exec_ip s) (\<lambda>s.
        bindr (for_upto NOFILE exit_file s) (\<lambda>s.
        bindr (begin_op s) (\<lambda>s.
        bindr (mycwd s) (\<lambda>cwd.
        bindr (iput s cwd) (\<lambda>s.
        bindr (end_op s) (\<lambda>s.
          let s = upd_proc (cur s) (\<lambda>x. x\<lparr>p_cwd := None\<rparr>) s in Ok (exit_zombie status s)))))))))"

definition is_child :: "'a kstate_scheme \<Rightarrow> nat \<Rightarrow> bool" where
  "is_child s pp \<longleftrightarrow> p_parent (procs s pp) = Some (cur s)"

text \<open>One turn of the loop of \<open>kwait\<close>.\<close>

definition kwait :: "uint64 \<Rightarrow> 'a kstate_scheme \<Rightarrow> (pipe_outcome \<times> 'a kstate_scheme) res" where
  "kwait addr s =
     (case scan (\<lambda>pp. is_child s pp \<and> p_state (procs s pp) = ZOMBIE) NPROC of
        Some pp \<Rightarrow>
          let pid = p_pid (procs s pp) in
          bindr (if addr \<noteq> 0 then copyout (p_pagetable (myproc s)) addr (bytes_of_word 4 (p_xstate (procs s pp))) s
                 else Ok (0, s)) (\<lambda>(r, s).
            if r < 0 then Ok (Ret (-1), s)
            else bindr (freeproc pp s) (\<lambda>s. Ok (Ret pid, s)))
      | None \<Rightarrow>
          if scan (is_child s) NPROC = None \<or> killed (cur s) s then Ok (Ret (-1), s)
          else Ok (Wait (ChProc (cur s)) 0, sleep_enter (ChProc (cur s)) s))"

section \<open>Results\<close>

lemma fork_pages_rest:
  "n \<le> j \<Longrightarrow> pages (fork_pages par n np) j = pages np j"
  by (induction n) (auto simp: Let_def)

lemma fork_pages_inv:
  assumes "fifo_inv np" "0 \<le> next_fifo_seq np" "next_fifo_seq np + int n \<le> INT_MAX"
  shows "fifo_inv (fork_pages par n np) \<and> 0 \<le> next_fifo_seq (fork_pages par n np) \<and>
    next_fifo_seq (fork_pages par n np) \<le> next_fifo_seq np + int n"
  using assms
proof (induction n)
  case (Suc j)
  then have IH: "fifo_inv (fork_pages par j np)" "0 \<le> next_fifo_seq (fork_pages par j np)"
    "next_fifo_seq (fork_pages par j np) \<le> next_fifo_seq np + int j" by auto
  have lt: "next_fifo_seq (fork_pages par j np) < INT_MAX" using IH(3) Suc.prems(3) by simp
  have c: "c_int (next_fifo_seq (fork_pages par j np) + 1) = next_fifo_seq (fork_pages par j np) + 1"
    using IH(2) lt by (intro c_int_small) (simp_all add: INT_MAX_def)
  show ?case
  proof (cases "pg_state (par j) = RESIDENT")
    case True
    then show ?thesis using fifo_inv_next [OF IH(1,2) lt, of j] IH c by (simp add: Let_def)
  next
    case False
    then show ?thesis using IH by (auto simp: Let_def fifo_inv_def)
  qed
qed simp

lemma fork_pages_record:
  "j < n \<Longrightarrow> (pg_state (par j) = RESIDENT \<longrightarrow>
       pg_state (pages (fork_pages par n np) j) = RESIDENT \<and> pg_va (pages (fork_pages par n np) j) = pg_va (par j) \<and>
       pg_from_exec (pages (fork_pages par n np) j) = pg_from_exec (par j) \<and>
       \<not> pg_dirty (pages (fork_pages par n np) j) \<and> pg_swap_slot (pages (fork_pages par n np) j) = -1) \<and>
     (pg_state (par j) \<noteq> RESIDENT \<longrightarrow> pg_state (pages (fork_pages par n np) j) = UNMAPPED)"
  by (induction n) (auto simp: Let_def less_Suc_eq)

text \<open>
  C23. The page records of a forked child, for every record \<open>j\<close>: the child has a resident page where
  the parent has one, with the same address and origin, clean and without a swap slot, but only
  among the first \<open>FORK_PAGES\<close> records; every other record of the child is unmapped. So it has no
  record of a page that the parent has in its swap file, and none of a resident page from
  \<open>FORK_PAGES\<close> on, though \<open>uvmcopy\<close> has copied that page. The sequence numbers of the child are
  distinct and below its counter, as eviction needs them.
\<close>

theorem fork_page_records:
  "pg_state (pages (fork_paging par init_paging_info) j) =
     (if j < FORK_PAGES \<and> pg_state (pages par j) = RESIDENT then RESIDENT else UNMAPPED) \<and>
   (j < FORK_PAGES \<and> pg_state (pages par j) = RESIDENT \<longrightarrow>
      pg_va (pages (fork_paging par init_paging_info) j) = pg_va (pages par j) \<and>
      pg_from_exec (pages (fork_paging par init_paging_info) j) = pg_from_exec (pages par j) \<and>
      \<not> pg_dirty (pages (fork_paging par init_paging_info) j) \<and>
      pg_swap_slot (pages (fork_paging par init_paging_info) j) = -1) \<and>
   fifo_inv (fork_paging par init_paging_info)"
proof -
  have "fifo_inv (fork_paging par init_paging_info)"
    unfolding fork_paging_def by (rule conjunct1 [OF fork_pages_inv])
      (simp_all add: fifo_inv_def init_paging_info_def FORK_PAGES_def INT_MAX_def)
  moreover have "pg_state (pages (fork_paging par init_paging_info) j) = UNMAPPED" if "\<not> j < FORK_PAGES"
    using that fork_pages_rest [of FORK_PAGES j] unfolding fork_paging_def by (simp add: init_paging_info_def)
  ultimately show ?thesis
    using fork_pages_record [of j FORK_PAGES "pages par"] unfolding fork_paging_def by auto
qed

theorem fork_page_records_witness:
  "let par = paging0\<lparr>pages := (pages paging0)(3 := (pages paging0 3)\<lparr>pg_state := RESIDENT, pg_va := 12288, pg_dirty := True\<rparr>)\<rparr>;
       child = fork_paging par init_paging_info
   in pg_state (pages child 3) = RESIDENT \<and> pg_va (pages child 3) = 12288 \<and> \<not> pg_dirty (pages child 3) \<and>
      pg_state (pages child 4) = UNMAPPED"
  using fork_page_records [of "paging0\<lparr>pages := (pages paging0)(3 := (pages paging0 3)\<lparr>pg_state := RESIDENT, pg_va := 12288, pg_dirty := True\<rparr>)\<rparr>" 3]
    fork_page_records [of "paging0\<lparr>pages := (pages paging0)(3 := (pages paging0 3)\<lparr>pg_state := RESIDENT, pg_va := 12288, pg_dirty := True\<rparr>)\<rparr>" 4]
  by (simp add: FORK_PAGES_def paging0_def)

text \<open>
  C33. \<open>kwait\<close> does not sleep while there is something to report: it waits only if the process has a
  child and none of its children has exited and it has not been killed itself; without children
  it fails at once.
\<close>

theorem kwait_sleeps:
  assumes "kwait addr s = Ok (Wait ch n, s')"
  shows "ch = ChProc (cur s) \<and> \<not> killed (cur s) s \<and> (\<exists>pp<NPROC. is_child s pp) \<and>
     (\<nexists>pp. pp < NPROC \<and> is_child s pp \<and> p_state (procs s pp) = ZOMBIE) \<and>
     p_state (procs s' (cur s)) = SLEEPING \<and> p_chan (procs s' (cur s)) = Some ch"
proof (cases "scan (\<lambda>pp. is_child s pp \<and> p_state (procs s pp) = ZOMBIE) NPROC")
  case None
  then have "scan (is_child s) NPROC \<noteq> None" "\<not> killed (cur s) s" "ch = ChProc (cur s)"
    "s' = sleep_enter (ChProc (cur s)) s"
    using assms by (auto simp: kwait_def split: if_splits)
  then show ?thesis using None by (auto simp: scan_None_iff sleep_enter_def)
next
  case (Some pp)
  then show ?thesis using assms by (auto simp: kwait_def Let_def split: if_splits)
qed

text \<open>Process 0 with a running child.\<close>

definition k_child :: kstate where
  "k_child = upd_proc 1 (\<lambda>x. x\<lparr>p_parent := Some 0\<rparr>) k0"

theorem kwait_sleeps_witness:
  "\<exists>s'. kwait 0 k_child = Ok (Wait (ChProc 0) 0, s') \<and> p_state (procs s' 0) = SLEEPING"
proof -
  have c: "cur k_child = 0" by (simp add: k_child_def k0_def)
  have "scan (\<lambda>pp. is_child k_child pp \<and> p_state (procs k_child pp) = ZOMBIE) NPROC = None"
    by (auto simp: scan_None_iff is_child_def k_child_def k0_def proc0_def)
  moreover have "is_child k_child 1" by (simp add: is_child_def k_child_def k0_def)
  then have "\<exists>j. scan (is_child k_child) NPROC = Some j" by (intro scan_total [of 1]) (simp_all add: NPROC_def)
  then have "scan (is_child k_child) NPROC \<noteq> None" by blast
  moreover have "\<not> killed (cur k_child) k_child" by (simp add: killed_def k_child_def k0_def proc0_def)
  ultimately have "kwait 0 k_child = Ok (Wait (ChProc 0) 0, sleep_enter (ChProc 0) k_child)"
    by (simp add: kwait_def c)
  with kwait_sleeps [OF this] show ?thesis unfolding c by blast
qed

end
