(* ===== verification/Sysfile.thy ===== *)
theory Sysfile
  imports Proc
begin

text \<open>
  Fetching system-call arguments (\<open>kernel/syscall.c\<close>) and the system calls on files of
  \<open>kernel/sysfile.c\<close>. Arguments are read from the trap frame of the current process. A path is the
  list of its bytes before the NUL.
\<close>

definition MAXPATH :: nat where "MAXPATH = 128"

definition O_RDONLY :: uint32 where "O_RDONLY = 0x000"
definition O_WRONLY :: uint32 where "O_WRONLY = 0x001"
definition O_RDWR :: uint32 where "O_RDWR = 0x002"
definition O_CREATE :: uint32 where "O_CREATE = 0x200"
definition O_TRUNC :: uint32 where "O_TRUNC = 0x400"

section \<open>Arguments\<close>

text \<open>The value read by \<open>fetchaddr\<close>, if it succeeds.\<close>

definition fetchaddr :: "uint64 \<Rightarrow> 'a kstate_scheme \<Rightarrow> (uint64 option \<times> 'a kstate_scheme) res" where
  "fetchaddr addr s =
     (if addr \<ge> p_sz (myproc s) \<or> addr + 8 > p_sz (myproc s) then Ok (None, s)
      else bindr (copyin (p_pagetable (myproc s)) addr 8 s) (\<lambda>(r, bs, s).
        Ok (if r \<noteq> 0 then None else Some (word_of_bytes bs), s)))"

definition fetchstr :: "uint64 \<Rightarrow> nat \<Rightarrow> 'a kstate_scheme \<Rightarrow> (int \<times> uint8 list \<times> 'a kstate_scheme) res" where
  "fetchstr addr mx s =
     bindr (copyinstr (p_pagetable (myproc s)) addr mx s) (\<lambda>(r, bs, s).
       Ok (if r < 0 then -1 else int (length bs), bs, s))"

definition argraw :: "nat \<Rightarrow> 'a kstate_scheme \<Rightarrow> uint64 res" where
  "argraw n s =
     (if n \<le> 5 then Ok (ld64 (phys s) (p_trapframe (myproc s) + TF_a0 + 8 * of_nat n)) else Panic ''argraw'')"

definition argint :: "nat \<Rightarrow> 'a kstate_scheme \<Rightarrow> uint32 res" where
  "argint n s = bindr (argraw n s) (\<lambda>w. Ok (ucast w))"

definition argaddr :: "nat \<Rightarrow> 'a kstate_scheme \<Rightarrow> uint64 res" where
  "argaddr n s = argraw n s"

definition argstr :: "nat \<Rightarrow> nat \<Rightarrow> 'a kstate_scheme \<Rightarrow> (int \<times> uint8 list \<times> 'a kstate_scheme) res" where
  "argstr n mx s = bindr (argaddr n s) (\<lambda>addr. fetchstr addr mx s)"

definition argfd :: "nat \<Rightarrow> 'a kstate_scheme \<Rightarrow> (nat \<times> nat) option res" where
  "argfd n s =
     bindr (argint n s) (\<lambda>fd.
       Ok (if sint fd < 0 \<or> sint fd \<ge> int NOFILE then None
           else case p_ofile (myproc s) (unat fd) of None \<Rightarrow> None | Some f \<Rightarrow> Some (unat fd, f)))"

definition set_ofile :: "nat \<Rightarrow> nat option \<Rightarrow> 'a kstate_scheme \<Rightarrow> 'a kstate_scheme" where
  "set_ofile fd f s = upd_proc (cur s) (\<lambda>x. x\<lparr>p_ofile := (p_ofile x)(fd := f)\<rparr>) s"

definition fdalloc :: "nat \<Rightarrow> 'a kstate_scheme \<Rightarrow> nat option \<times> 'a kstate_scheme" where
  "fdalloc f s =
     (case scan (\<lambda>fd. p_ofile (myproc s) fd = None) NOFILE of
        Some fd \<Rightarrow> (Some fd, set_ofile fd (Some f) s)
      | None \<Rightarrow> (None, s))"

section \<open>Calls on descriptors\<close>

definition sys_dup :: "'a kstate_scheme \<Rightarrow> (int \<times> 'a kstate_scheme) res" where
  "sys_dup s =
     bindr (argfd 0 s) (\<lambda>a.
       case a of
         None \<Rightarrow> Ok (-1, s)
       | Some (_, f) \<Rightarrow>
           (case fdalloc f s of
              (None, s) \<Rightarrow> Ok (-1, s)
            | (Some fd, s) \<Rightarrow> bindr (filedup s f) (\<lambda>s. Ok (int fd, s))))"

definition sys_read :: "(nat \<Rightarrow> 'a kstate_scheme devop option) \<Rightarrow> 'a kstate_scheme \<Rightarrow> (pipe_outcome \<times> 'a kstate_scheme) res" where
  "sys_read devsw s =
     bindr (argaddr 1 s) (\<lambda>p.
     bindr (argint 2 s) (\<lambda>n.
     bindr (argfd 0 s) (\<lambda>a.
       case a of None \<Rightarrow> Ok (Ret (-1), s) | Some (_, f) \<Rightarrow> fileread devsw s f p (sint n))))"

definition sys_write :: "(nat \<Rightarrow> 'a kstate_scheme devop option) \<Rightarrow> 'a kstate_scheme \<Rightarrow> (pipe_outcome \<times> 'a kstate_scheme) res" where
  "sys_write devsw s =
     bindr (argaddr 1 s) (\<lambda>p.
     bindr (argint 2 s) (\<lambda>n.
     bindr (argfd 0 s) (\<lambda>a.
       case a of None \<Rightarrow> Ok (Ret (-1), s) | Some (_, f) \<Rightarrow> filewrite devsw s f p (sint n))))"

definition sys_close :: "'a kstate_scheme \<Rightarrow> (int \<times> 'a kstate_scheme) res" where
  "sys_close s =
     bindr (argfd 0 s) (\<lambda>a.
       case a of
         None \<Rightarrow> Ok (-1, s)
       | Some (fd, f) \<Rightarrow> bindr (fileclose (set_ofile fd None s) f) (\<lambda>s. Ok (0, s)))"

definition sys_fstat :: "uint8 list \<Rightarrow> 'a kstate_scheme \<Rightarrow> (int \<times> 'a kstate_scheme) res" where
  "sys_fstat pad s =
     bindr (argaddr 1 s) (\<lambda>st.
     bindr (argfd 0 s) (\<lambda>a.
       case a of None \<Rightarrow> Ok (-1, s) | Some (_, f) \<Rightarrow> filestat pad s f st))"

definition sys_pipe :: "'a kstate_scheme \<Rightarrow> (int \<times> 'a kstate_scheme) res" where
  "sys_pipe s =
     bindr (argaddr 0 s) (\<lambda>fdarray.
     bindr (pipealloc s) (\<lambda>(r, s).
       case r of
         None \<Rightarrow> Ok (-1, s)
       | Some (rfile, wfile) \<Rightarrow>
           let bad = (\<lambda>s. bindr (fileclose s rfile) (\<lambda>s. bindr (fileclose s wfile) (\<lambda>s. Ok (-1, s)))) in
           (case fdalloc rfile s of
              (None, s) \<Rightarrow> bad s
            | (Some fd0, s) \<Rightarrow>
                (case fdalloc wfile s of
                   (None, s) \<Rightarrow> bad (set_ofile fd0 None s)
                 | (Some fd1, s) \<Rightarrow>
                     bindr (copyout (p_pagetable (myproc s)) fdarray (bytes_of_word 4 (of_nat fd0 :: uint32)) s) (\<lambda>(r0, s).
                     bindr (if r0 < 0 then Ok (r0, s)
                            else copyout (p_pagetable (myproc s)) (fdarray + 4) (bytes_of_word 4 (of_nat fd1 :: uint32)) s) (\<lambda>(r1, s).
                       if r1 < 0 then bad (set_ofile fd1 None (set_ofile fd0 None s))
                       else Ok (0, s)))))))"

section \<open>Calls on paths\<close>

text \<open>Ending an operation with a result.\<close>

definition end_with :: "int \<Rightarrow> 'a kstate_scheme \<Rightarrow> (int \<times> 'a kstate_scheme) res" where
  "end_with r s = bindr (end_op s) (\<lambda>s. Ok (r, s))"

definition put_end :: "nat \<Rightarrow> int \<Rightarrow> 'a kstate_scheme \<Rightarrow> (int \<times> 'a kstate_scheme) res" where
  "put_end ip r s = bindr (iunlockput s ip) (end_with r)"

text \<open>\<open>namei\<close> and \<open>nameiparent\<close> from the current directory of the process.\<close>

definition namei_cwd :: "uint8 list \<Rightarrow> 'a kstate_scheme \<Rightarrow> (nat option \<times> 'a kstate_scheme) res" where
  "namei_cwd path s = bindr (start_dir s path) (\<lambda>cwd. namei s cwd path)"

definition nameiparent_cwd :: "uint8 list \<Rightarrow> 'a kstate_scheme \<Rightarrow> (nat option \<times> bytes \<times> 'a kstate_scheme) res" where
  "nameiparent_cwd path s = bindr (start_dir s path) (\<lambda>cwd. nameiparent s cwd path (\<lambda>_. 0))"

definition link_bad :: "nat \<Rightarrow> 'a kstate_scheme \<Rightarrow> (int \<times> 'a kstate_scheme) res" where
  "link_bad ip s =
     bindr (ilock s ip) (\<lambda>s.
     bindr (iupdate (upd_inode ip (\<lambda>i. i\<lparr>i_nlink := i_nlink i - 1\<rparr>) s) ip) (put_end ip (-1)))"

definition sys_link :: "'a kstate_scheme \<Rightarrow> (int \<times> 'a kstate_scheme) res" where
  "sys_link s =
     bindr (argstr 0 MAXPATH s) (\<lambda>(r, old, s).
       if r < 0 then Ok (-1, s)
       else bindr (argstr 1 MAXPATH s) (\<lambda>(r, new, s).
         if r < 0 then Ok (-1, s)
         else
           bindr (begin_op s) (\<lambda>s.
           bindr (namei_cwd old s) (\<lambda>(r, s).
             case r of
               None \<Rightarrow> end_with (-1) s
             | Some ip \<Rightarrow>
                 bindr (ilock s ip) (\<lambda>s.
                   if i_type (itable s ip) = T_DIR then put_end ip (-1) s
                   else
                     bindr (iupdate (upd_inode ip (\<lambda>i. i\<lparr>i_nlink := i_nlink i + 1\<rparr>) s) ip) (\<lambda>s.
                     bindr (iunlock s ip) (\<lambda>s.
                     bindr (nameiparent_cwd new s) (\<lambda>(r, name, s).
                       case r of
                         None \<Rightarrow> link_bad ip s
                       | Some dp \<Rightarrow>
                           bindr (ilock s dp) (\<lambda>s.
                           bindr (if i_dev (itable s dp) \<noteq> i_dev (itable s ip) then Ok (-1, s)
                                  else dirlink s dp name (i_inum (itable s ip))) (\<lambda>(r, s).
                           bindr (iunlockput s dp) (\<lambda>s.
                             if r < 0 then link_bad ip s
                             else bindr (iput s ip) (end_with 0)))))))))))) "

function isdirempty_from :: "nat \<Rightarrow> nat \<Rightarrow> 'a kstate_scheme \<Rightarrow> (bool \<times> 'a kstate_scheme) res" where
  "isdirempty_from dp off s =
     (if off < unat (i_size (itable s dp)) then
        bindr (readi lcopyout (\<lambda>_. 0) s dp 0 (of_nat off) (of_nat DIRENT_SIZE)) (\<lambda>(r, de, s).
          if r \<noteq> int DIRENT_SIZE then Panic ''isdirempty: readi''
          else if de_inum de \<noteq> 0 then Ok (False, s)
          else isdirempty_from dp (off + DIRENT_SIZE) s)
      else Ok (True, s))"
  by pat_completeness auto
termination
proof (relation "measure (\<lambda>(_, off, _). 2 ^ 32 - off)", simp)
  fix dp off and s :: "'a kstate_scheme" and s'
  assume "off < unat (i_size (itable s dp))"
  moreover have "unat (i_size (itable s dp)) < 2 ^ 32" by (rule unsigned_less [THEN less_le_trans]) simp
  ultimately show "((dp, off + DIRENT_SIZE, s'), dp, off, s) \<in> measure (\<lambda>(_, off, _). 2 ^ 32 - off)"
    by (simp add: DIRENT_SIZE_def)
qed

declare isdirempty_from.simps [simp del]

definition isdirempty :: "nat \<Rightarrow> 'a kstate_scheme \<Rightarrow> (bool \<times> 'a kstate_scheme) res" where
  "isdirempty dp s = isdirempty_from dp (2 * DIRENT_SIZE) s"

text \<open>The part of \<open>sys_unlink\<close> that clears the directory entry at \<open>off\<close>.\<close>

definition unlink_entry :: "nat \<Rightarrow> nat \<Rightarrow> nat \<Rightarrow> 'a kstate_scheme \<Rightarrow> (int \<times> 'a kstate_scheme) res" where
  "unlink_entry dp ip off s =
     bindr (writei (lcopyin (\<lambda>_. 0)) s dp 0 (of_nat off) (of_nat DIRENT_SIZE)) (\<lambda>(r, s).
       if r \<noteq> int DIRENT_SIZE then Panic ''unlink: writei''
       else
         bindr (if i_type (itable s ip) = T_DIR then iupdate (upd_inode dp (\<lambda>i. i\<lparr>i_nlink := i_nlink i - 1\<rparr>) s) dp
                else Ok s) (\<lambda>s.
         bindr (iunlockput s dp) (\<lambda>s.
         bindr (iupdate (upd_inode ip (\<lambda>i. i\<lparr>i_nlink := i_nlink i - 1\<rparr>) s) ip) (put_end ip 0))))"

definition sys_unlink :: "'a kstate_scheme \<Rightarrow> (int \<times> 'a kstate_scheme) res" where
  "sys_unlink s =
     bindr (argstr 0 MAXPATH s) (\<lambda>(r, path, s).
       if r < 0 then Ok (-1, s)
       else
         bindr (begin_op s) (\<lambda>s.
         bindr (nameiparent_cwd path s) (\<lambda>(r, name, s).
           case r of
             None \<Rightarrow> end_with (-1) s
           | Some dp \<Rightarrow>
               bindr (ilock s dp) (\<lambda>s.
                 if namecmp name (cstr [dot]) = 0 \<or> namecmp name (cstr [dot, dot]) = 0 then put_end dp (-1) s
                 else
                   bindr (dirlookup s dp name) (\<lambda>(r, s).
                     case r of
                       None \<Rightarrow> put_end dp (-1) s
                     | Some (ip, off) \<Rightarrow>
                         bindr (ilock s ip) (\<lambda>s.
                           if sint (i_nlink (itable s ip)) < 1 then Panic ''unlink: nlink < 1''
                           else
                             bindr (if i_type (itable s ip) = T_DIR then isdirempty ip s else Ok (True, s)) (\<lambda>(e, s).
                               if \<not> e then bindr (iunlockput s ip) (put_end dp (-1))
                               else unlink_entry dp ip off s)))))))"

text \<open>The inode that \<open>sys_open\<close> opens, locked; \<open>None\<close> when the call fails.\<close>

definition open_inode :: "uint8 list \<Rightarrow> uint32 \<Rightarrow> 'a kstate_scheme \<Rightarrow> (nat option \<times> 'a kstate_scheme) res" where
  "open_inode path omode s =
     (if omode AND O_CREATE \<noteq> 0 then create s path T_FILE 0 0
      else
        bindr (namei_cwd path s) (\<lambda>(r, s).
          case r of
            None \<Rightarrow> Ok (None, s)
          | Some ip \<Rightarrow>
              bindr (ilock s ip) (\<lambda>s.
                if i_type (itable s ip) = T_DIR \<and> omode \<noteq> O_RDONLY
                then bindr (iunlockput s ip) (\<lambda>s. Ok (None, s))
                else Ok (Some ip, s))))"

definition open_file :: "nat \<Rightarrow> nat \<Rightarrow> uint32 \<Rightarrow> 'a kstate_scheme \<Rightarrow> 'a kstate_scheme" where
  "open_file f ip omode s =
     upd_file f (\<lambda>x.
       (if i_type (itable s ip) = T_DEVICE then x\<lparr>f_type := FD_DEVICE, f_major := i_major (itable s ip)\<rparr>
        else x\<lparr>f_type := FD_INODE, f_off := 0\<rparr>)
       \<lparr>f_ip := ip, f_readable := (omode AND O_WRONLY = 0),
        f_writable := (omode AND O_WRONLY \<noteq> 0 \<or> omode AND O_RDWR \<noteq> 0)\<rparr>) s"

definition sys_open :: "'a kstate_scheme \<Rightarrow> (int \<times> 'a kstate_scheme) res" where
  "sys_open s =
     bindr (argint 1 s) (\<lambda>omode.
     bindr (argstr 0 MAXPATH s) (\<lambda>(n, path, s).
       if n < 0 then Ok (-1, s)
       else
         bindr (begin_op s) (\<lambda>s.
         bindr (open_inode path omode s) (\<lambda>(r, s).
           case r of
             None \<Rightarrow> end_with (-1) s
           | Some ip \<Rightarrow>
               if i_type (itable s ip) = T_DEVICE \<and>
                  (sint (i_major (itable s ip)) < 0 \<or> sint (i_major (itable s ip)) \<ge> int NDEV)
               then put_end ip (-1) s
               else
                 (case filealloc s of
                    (None, s) \<Rightarrow> put_end ip (-1) s
                  | (Some f, s) \<Rightarrow>
                      (case fdalloc f s of
                         (None, s) \<Rightarrow> bindr (fileclose s f) (put_end ip (-1))
                       | (Some fd, s) \<Rightarrow>
                           let s = open_file f ip omode s in
                           bindr (if omode AND O_TRUNC \<noteq> 0 \<and> i_type (itable s ip) = T_FILE then itrunc s ip else Ok s) (\<lambda>s.
                           bindr (iunlock s ip) (end_with (int fd)))))))))"

definition sys_mkdir :: "'a kstate_scheme \<Rightarrow> (int \<times> 'a kstate_scheme) res" where
  "sys_mkdir s =
     bindr (begin_op s) (\<lambda>s.
     bindr (argstr 0 MAXPATH s) (\<lambda>(r, path, s).
       if r < 0 then end_with (-1) s
       else bindr (create s path T_DIR 0 0) (\<lambda>(r, s).
         case r of None \<Rightarrow> end_with (-1) s | Some ip \<Rightarrow> put_end ip 0 s)))"

definition sys_mknod :: "'a kstate_scheme \<Rightarrow> (int \<times> 'a kstate_scheme) res" where
  "sys_mknod s =
     bindr (begin_op s) (\<lambda>s.
     bindr (argint 1 s) (\<lambda>major.
     bindr (argint 2 s) (\<lambda>minor.
     bindr (argstr 0 MAXPATH s) (\<lambda>(r, path, s).
       if r < 0 then end_with (-1) s
       else bindr (create s path T_DEVICE (ucast major) (ucast minor)) (\<lambda>(r, s).
         case r of None \<Rightarrow> end_with (-1) s | Some ip \<Rightarrow> put_end ip 0 s)))))"

definition sys_chdir :: "'a kstate_scheme \<Rightarrow> (int \<times> 'a kstate_scheme) res" where
  "sys_chdir s =
     bindr (begin_op s) (\<lambda>s.
     bindr (argstr 0 MAXPATH s) (\<lambda>(r, path, s).
       if r < 0 then end_with (-1) s
       else bindr (namei_cwd path s) (\<lambda>(r, s).
         case r of
           None \<Rightarrow> end_with (-1) s
         | Some ip \<Rightarrow>
             bindr (ilock s ip) (\<lambda>s.
               if i_type (itable s ip) \<noteq> T_DIR then put_end ip (-1) s
               else
                 bindr (iunlock s ip) (\<lambda>s.
                 bindr (mycwd s) (\<lambda>cwd.
                 bindr (iput s cwd) (\<lambda>s.
                 bindr (end_op s) (\<lambda>s. Ok (0, upd_proc (cur s) (\<lambda>x. x\<lparr>p_cwd := Some ip\<rparr>) s)))))))))"

section \<open>Reference counts\<close>

text \<open>
  The descriptors that refer to a file structure, in all processes; and that the reference counts
  of the file table are those numbers plus \<open>extra\<close>, the references from elsewhere (swap files, and
  operations in progress on other CPUs).
\<close>

definition desc_of :: "'a kstate_scheme \<Rightarrow> nat \<Rightarrow> (nat \<times> nat) set" where
  "desc_of s f = {(p, fd). p < NPROC \<and> fd < NOFILE \<and> p_ofile (procs s p) fd = Some f}"

definition refs_ok :: "(nat \<Rightarrow> nat) \<Rightarrow> 'a kstate_scheme \<Rightarrow> bool" where
  "refs_ok extra s \<longleftrightarrow> (\<forall>f. f_ref (ftable s f) = int (card (desc_of s f)) + int (extra f))"

text \<open>Every descriptor refers to a file structure that is in use.\<close>

definition ofile_typed :: "'a kstate_scheme \<Rightarrow> bool" where
  "ofile_typed s \<longleftrightarrow> (\<forall>p<NPROC. \<forall>fd<NOFILE. \<forall>f. p_ofile (procs s p) fd = Some f \<longrightarrow> 1 \<le> f_ref (ftable s f))"

lemma finite_desc_of: "finite (desc_of s f)"
  by (rule finite_subset [of _ "{..<NPROC} \<times> {..<NOFILE}"]) (auto simp: desc_of_def)

lemma refs_ok_typed:
  assumes "refs_ok extra s"
  shows "ofile_typed s"
  unfolding ofile_typed_def
proof (intro allI impI)
  fix p fd f assume "p < NPROC" "fd < NOFILE" "p_ofile (procs s p) fd = Some f"
  then have "(p, fd) \<in> desc_of s f" by (simp add: desc_of_def)
  then have "card (desc_of s f) \<noteq> 0" using finite_desc_of [of s f] by auto
  then show "1 \<le> f_ref (ftable s f)" using assms by (simp add: refs_ok_def)
qed

lemma desc_of_set_ofile:
  assumes "cur s < NPROC" and "fd < NOFILE" and "p_ofile (myproc s) fd = None"
  shows "desc_of (set_ofile fd (Some f) s) g = (if g = f then insert (cur s, fd) (desc_of s g) else desc_of s g)"
  using assms by (auto simp: desc_of_def set_ofile_def split: if_splits)

lemma fdalloc_SomeD:
  assumes "fdalloc f s = (Some fd, t)"
  shows "fd < NOFILE \<and> p_ofile (myproc s) fd = None \<and> t = set_ofile fd (Some f) s"
  using assms by (auto simp: fdalloc_def scan_Some_iff split: option.splits)

lemma refs_ok_dup:
  assumes "refs_ok extra s" and "cur s < NPROC" and "fdalloc f s = (Some fd, t)" and "filedup t f = Ok s'"
  shows "refs_ok extra s'"
proof -
  note fd = fdalloc_SomeD [OF assms(3)]
  have new: "(cur s, fd) \<notin> desc_of s f" using fd by (simp add: desc_of_def)
  have s': "s' = upd_file f (\<lambda>x. x\<lparr>f_ref := f_ref x + 1\<rparr>) t"
    using assms(4) by (auto simp: filedup_def split: if_splits)
  have "desc_of s' g = desc_of t g" for g by (simp add: s' desc_of_def)
  moreover have "card (desc_of t g) = card (desc_of s g) + (if g = f then 1 else 0)" for g
    using fd desc_of_set_ofile [of s fd f g] assms(2) card_insert_disjoint [OF finite_desc_of new] by simp
  moreover have "ftable t = ftable s" using fd by (simp add: set_ofile_def)
  ultimately show ?thesis using assms(1) by (simp add: refs_ok_def s')
qed

text \<open>
  C21. \<open>sys_dup\<close> keeps the descriptor tables well typed: reference counts stay exact (the number of
  descriptors in all processes plus the references from elsewhere), so every descriptor refers to
  a file structure in use; this holds on the error paths too. A descriptor it returns was free.
\<close>

theorem sys_dup_typed:
  assumes "refs_ok extra s" and "cur s < NPROC" and "sys_dup s = Ok (r, s')"
  shows "refs_ok extra s' \<and> ofile_typed s' \<and> (r = -1 \<or> r < int NOFILE \<and> p_ofile (myproc s) (nat r) = None)"
proof -
  obtain a where a: "argfd 0 s = Ok a" using assms(3) by (auto simp: sys_dup_def)
  show ?thesis
  proof (cases a)
    case None
    then show ?thesis using a assms refs_ok_typed [of extra s] by (simp add: sys_dup_def)
  next
    case (Some fdf)
    obtain f where f: "a = Some (fst fdf, f)" using Some by (cases fdf) simp
    obtain o1 t where o: "fdalloc f s = (o1, t)" by (cases "fdalloc f s")
    show ?thesis
    proof (cases o1)
      case None
      then have "t = s" using o by (simp add: fdalloc_def split: option.splits)
      then show ?thesis using a f o None assms refs_ok_typed [of extra s] by (simp add: sys_dup_def)
    next
      case (Some fd)
      then have "filedup t f = Ok s'" "r = int fd" using a f o assms(3) by (auto simp: sys_dup_def)
      then show ?thesis
        using refs_ok_dup [OF assms(1,2)] refs_ok_typed [of extra s'] fdalloc_SomeD o Some by fastforce
    qed
  qed
qed

text \<open>A process with one open file, at descriptor 0, which is also the argument of the call.\<close>

definition k_open :: kstate where
  "k_open = upd_file 4 (\<lambda>x. x\<lparr>f_ref := 1\<rparr>) (set_ofile 0 (Some 4) (k0\<lparr>phys := (\<lambda>_. 0)\<rparr>))"

theorem sys_dup_typed_witness:
  "\<exists>s'. sys_dup k_open = Ok (1, s') \<and> ofile_typed s'"
proof -
  have d: "desc_of k_open f = (if f = 4 then {(0, 0)} else {})" for f
    by (auto simp: desc_of_def k_open_def set_ofile_def k0_def proc0_def NPROC_def NOFILE_def split: if_splits)
  have "refs_ok (\<lambda>_. 0) k_open"
    unfolding refs_ok_def d by (simp add: k_open_def set_ofile_def k0_def)
  moreover have "cur k_open < NPROC" by (simp add: k_open_def set_ofile_def k0_def NPROC_def)
  moreover obtain s' where s': "sys_dup k_open = Ok (1, s')"
  proof -
    have "phys k_open = (\<lambda>_. 0)" by (simp add: k_open_def set_ofile_def upd_file_def)
    then have "argraw 0 k_open = Ok 0" by (simp add: argraw_def ld64_def mem_get_def upt_rec)
    moreover have o: "p_ofile (myproc k_open) = [0 \<mapsto> 4]" by (simp add: k_open_def set_ofile_def k0_def proc0_def)
    ultimately have "argfd 0 k_open = Ok (Some (0, 4))" by (simp add: argfd_def argint_def NOFILE_def)
    moreover have "scan (\<lambda>fd. p_ofile (myproc k_open) fd = None) NOFILE = Some 1"
      unfolding scan_Some_iff o by (simp add: NOFILE_def)
    moreover have "f_ref (ftable (set_ofile 1 (Some 4) k_open) 4) = 1" by (simp add: k_open_def set_ofile_def)
    ultimately show ?thesis using that by (simp add: sys_dup_def fdalloc_def filedup_def)
  qed
  ultimately have "ofile_typed s'" using sys_dup_typed by blast
  with s' show ?thesis by blast
qed

end
