(* ===== verification/Sysproc.thy ===== *)
theory Sysproc
  imports Sysfile
begin

text \<open>
  The system calls of \<open>kernel/sysproc.c\<close>. A call that returns normally gives the 64-bit value that is
  stored in \<open>a0\<close>; \<open>sys_pause\<close> may go to sleep, with the tick at which it started.
\<close>

definition MAX_PAGES_INFO :: nat where "MAX_PAGES_INFO = 128"

section \<open>Processes\<close>

definition sys_exit :: "'a kstate_scheme \<Rightarrow> 'a kstate_scheme res" where
  "sys_exit s = bindr (argint 0 s) (\<lambda>n. kexit n s)"

definition sys_getpid :: "'a kstate_scheme \<Rightarrow> uint64 \<times> 'a kstate_scheme" where
  "sys_getpid s = (of_int (p_pid (myproc s)), s)"

definition sys_fork :: "uint64 \<Rightarrow> uint64 \<Rightarrow> 'a kstate_scheme \<Rightarrow> (uint64 \<times> 'a kstate_scheme) res" where
  "sys_fork trampoline forkret s = bindr (kfork trampoline forkret s) (\<lambda>(r, s). Ok (of_int r, s))"

definition sys_wait :: "'a kstate_scheme \<Rightarrow> (pipe_outcome \<times> 'a kstate_scheme) res" where
  "sys_wait s = bindr (argaddr 0 s) (\<lambda>p. kwait p s)"

definition sys_kill :: "'a kstate_scheme \<Rightarrow> (uint64 \<times> 'a kstate_scheme) res" where
  "sys_kill s = bindr (argint 0 s) (\<lambda>pid. let (r, s) = kkill (sint pid) s in Ok (of_int r, s))"

definition sys_sbrk :: "'a kstate_scheme \<Rightarrow> (uint64 \<times> 'a kstate_scheme) res" where
  "sys_sbrk s =
     bindr (argint 0 s) (\<lambda>n.
       let old_sz = p_sz (myproc s); new_sz = old_sz + of_int (sint n) in
       if sint n > 0 then
         if new_sz < old_sz \<or> new_sz > TRAPFRAME then Ok (-1, s)
         else Ok (old_sz, upd_proc (cur s) (\<lambda>x. x\<lparr>p_sz := new_sz\<rparr>) s)
       else if sint n < 0 then
         bindr (uvmdealloc s (p_pagetable (myproc s)) old_sz new_sz) (\<lambda>(sz, s).
           Ok (old_sz, upd_proc (cur s) (\<lambda>x. x\<lparr>p_sz := sz\<rparr>) s))
       else Ok (old_sz, s))"

section \<open>Time\<close>

text \<open>The loop of \<open>sys_pause\<close>, entered at each wakeup.\<close>

definition pause_loop :: "uint32 \<Rightarrow> uint32 \<Rightarrow> 'a kstate_scheme \<Rightarrow> pipe_outcome \<times> 'a kstate_scheme" where
  "pause_loop ticks0 n s =
     (if ticks s - ticks0 < n then
        if killed (cur s) s then (Ret (-1), s)
        else (Wait ChTicks (unat ticks0), sleep_enter ChTicks s)
      else (Ret 0, s))"

definition sys_pause :: "'a kstate_scheme \<Rightarrow> (pipe_outcome \<times> 'a kstate_scheme) res" where
  "sys_pause s = bindr (argint 0 s) (\<lambda>n. Ok (pause_loop (ticks s) (if sint n < 0 then 0 else n) s))"

definition sys_uptime :: "'a kstate_scheme \<Rightarrow> uint64 \<times> 'a kstate_scheme" where
  "sys_uptime s = (ucast (ticks s), s)"

section \<open>Memory statistics\<close>

text \<open>\<open>struct page_stat\<close> and \<open>struct proc_mem_stat\<close> of \<open>kernel/memstat.h\<close>; all of their fields have 32 bits.\<close>

record page_stat =
  ps_va :: uint32
  ps_state :: uint32
  ps_is_dirty :: uint32
  ps_seq :: uint32
  ps_swap_slot :: uint32

record proc_mem_stat =
  ms_pid :: uint32
  ms_num_pages_total :: uint32
  ms_num_resident_pages :: uint32
  ms_num_swapped_pages :: uint32
  ms_next_fifo_seq :: uint32
  ms_pages :: "nat \<Rightarrow> page_stat"

text \<open>The structure after \<open>memset(info, 0, sizeof(struct proc_mem_stat))\<close>.\<close>

definition memstat_zero :: proc_mem_stat where
  "memstat_zero = \<lparr>ms_pid = 0, ms_num_pages_total = 0, ms_num_resident_pages = 0, ms_num_swapped_pages = 0,
     ms_next_fifo_seq = 0, ms_pages = (\<lambda>_. \<lparr>ps_va = 0, ps_state = 0, ps_is_dirty = 0, ps_seq = 0, ps_swap_slot = 0\<rparr>)\<rparr>"

definition state_code :: "pgstate \<Rightarrow> uint32" where
  "state_code st = (case st of UNMAPPED \<Rightarrow> 0 | RESIDENT \<Rightarrow> 1 | SWAPPED \<Rightarrow> 2)"

text \<open>The stores of one iteration, at \<open>info->pages[page_count]\<close>.\<close>

definition report_page :: "page_info \<Rightarrow> nat \<Rightarrow> proc_mem_stat \<Rightarrow> proc_mem_stat" where
  "report_page p c info =
     (let info = info\<lparr>ms_pages := (ms_pages info)(c := \<lparr>ps_va = ucast (pg_va p), ps_state = state_code (pg_state p),
            ps_is_dirty = of_bool (pg_dirty p), ps_seq = of_int (pg_fifo_seq p), ps_swap_slot = of_int (pg_swap_slot p)\<rparr>)\<rparr>
      in if pg_state p = RESIDENT then info\<lparr>ms_num_resident_pages := ms_num_resident_pages info + 1\<rparr>
         else if pg_state p = SWAPPED then info\<lparr>ms_num_swapped_pages := ms_num_swapped_pages info + 1\<rparr>
         else info)"

text \<open>The loop of \<open>sys_memstat\<close> from record \<open>i\<close> on; \<open>c\<close> is \<open>page_count\<close>.\<close>

function memstat_loop :: "(nat \<Rightarrow> page_info) \<Rightarrow> nat \<Rightarrow> nat \<Rightarrow> proc_mem_stat \<Rightarrow> nat \<times> proc_mem_stat" where
  "memstat_loop pgs i c info =
     (if i < MAX_TRACKED_PAGES \<and> c < MAX_PAGES_INFO then
        if pg_state (pgs i) \<noteq> UNMAPPED then memstat_loop pgs (Suc i) (Suc c) (report_page (pgs i) c info)
        else memstat_loop pgs (Suc i) c info
      else (c, info))"
  by pat_completeness auto
termination
  by (relation "measure (\<lambda>(_, i, _, _). MAX_TRACKED_PAGES - i)") auto

declare memstat_loop.simps [simp del]

definition memstat_fill :: "int \<Rightarrow> paging_info \<Rightarrow> proc_mem_stat" where
  "memstat_fill pid pg =
     (let info = memstat_zero\<lparr>ms_pid := of_int pid, ms_next_fifo_seq := of_int (next_fifo_seq pg), ms_num_pages_total := 0,
                   ms_num_resident_pages := 0, ms_num_swapped_pages := 0\<rparr>;
          (page_count, info) = memstat_loop (pages pg) 0 0 info
      in info\<lparr>ms_num_pages_total := of_nat page_count\<rparr>)"

text \<open>The structure in memory: its fields in the order of their declaration.\<close>

definition page_stat_words :: "page_stat \<Rightarrow> uint32 list" where
  "page_stat_words p = [ps_va p, ps_state p, ps_is_dirty p, ps_seq p, ps_swap_slot p]"

definition memstat_words :: "proc_mem_stat \<Rightarrow> uint32 list" where
  "memstat_words info =
     [ms_pid info, ms_num_pages_total info, ms_num_resident_pages info, ms_num_swapped_pages info, ms_next_fifo_seq info] @
     concat (map (\<lambda>k. page_stat_words (ms_pages info k)) [0..<MAX_PAGES_INFO])"

definition sys_memstat :: "'a kstate_scheme \<Rightarrow> (uint64 \<times> 'a kstate_scheme) res" where
  "sys_memstat s =
     bindr (argaddr 0 s) (\<lambda>addr.
       let (info, s) = kalloc s in
       if info = 0 then Ok (-1, s)
       else
         let bs = concat (map (bytes_of_word 4) (memstat_words (memstat_fill (p_pid (myproc s)) (mypaging s))));
             s = s\<lparr>phys := mem_put (phys s) info bs\<rparr>
         in
         bindr (copyout (p_pagetable (myproc s)) addr bs s) (\<lambda>(result, s).
         bindr (kfree s info) (\<lambda>s. Ok (if result < 0 then -1 else 0, s))))"

section \<open>Results\<close>

text \<open>The records that are reported from record \<open>i\<close> on when there is room for \<open>k\<close>.\<close>

definition reported :: "(nat \<Rightarrow> page_info) \<Rightarrow> nat \<Rightarrow> nat \<Rightarrow> nat list" where
  "reported pgs i k = take k (filter (\<lambda>j. pg_state (pgs j) \<noteq> UNMAPPED) [i..<MAX_TRACKED_PAGES])"

lemma reported_step:
  assumes "i < MAX_TRACKED_PAGES" "c < MAX_PAGES_INFO"
  shows "reported pgs i (MAX_PAGES_INFO - c) =
    (if pg_state (pgs i) \<noteq> UNMAPPED then i # reported pgs (Suc i) (MAX_PAGES_INFO - Suc c)
     else reported pgs (Suc i) (MAX_PAGES_INFO - c))"
proof -
  have "MAX_PAGES_INFO - c = Suc (MAX_PAGES_INFO - Suc c)" using assms(2) by arith
  then show ?thesis using assms(1) by (simp add: reported_def upt_conv_Cons del: upt_Suc)
qed

definition stat_of :: "page_info \<Rightarrow> page_stat" where
  "stat_of p = \<lparr>ps_va = ucast (pg_va p), ps_state = state_code (pg_state p), ps_is_dirty = of_bool (pg_dirty p),
     ps_seq = of_int (pg_fifo_seq p), ps_swap_slot = of_int (pg_swap_slot p)\<rparr>"

definition count_in :: "(nat \<Rightarrow> page_info) \<Rightarrow> pgstate \<Rightarrow> nat list \<Rightarrow> nat" where
  "count_in pgs st js = card {j \<in> set js. pg_state (pgs j) = st}"

lemma count_in_Cons:
  "j \<notin> set js \<Longrightarrow> count_in pgs st (j # js) = (if pg_state (pgs j) = st then 1 else 0) + count_in pgs st js"
proof -
  assume "j \<notin> set js"
  moreover have "{x \<in> set (j # js). pg_state (pgs x) = st} =
      (if pg_state (pgs j) = st then insert j {x \<in> set js. pg_state (pgs x) = st} else {x \<in> set js. pg_state (pgs x) = st})"
    by auto
  ultimately show ?thesis by (simp add: count_in_def)
qed

lemma report_page_sel:
  "ms_pages (report_page p c info) = (ms_pages info)(c := stat_of p)"
  "ms_num_resident_pages (report_page p c info) = ms_num_resident_pages info + (if pg_state p = RESIDENT then 1 else 0)"
  "ms_num_swapped_pages (report_page p c info) = ms_num_swapped_pages info + (if pg_state p = SWAPPED then 1 else 0)"
  "ms_pid (report_page p c info) = ms_pid info" "ms_next_fifo_seq (report_page p c info) = ms_next_fifo_seq info"
  by (simp_all add: report_page_def stat_of_def Let_def)

lemma memstat_loop_fills:
  assumes "memstat_loop pgs i c info = (n, info')" and js: "js = reported pgs i (MAX_PAGES_INFO - c)"
  shows "n = c + length js \<and> ms_pid info' = ms_pid info \<and> ms_next_fifo_seq info' = ms_next_fifo_seq info \<and>
    ms_num_resident_pages info' = ms_num_resident_pages info + of_nat (count_in pgs RESIDENT js) \<and>
    ms_num_swapped_pages info' = ms_num_swapped_pages info + of_nat (count_in pgs SWAPPED js) \<and>
    (\<forall>k. ms_pages info' k = (if c \<le> k \<and> k < c + length js then stat_of (pgs (js ! (k - c))) else ms_pages info k))"
  using assms
proof (induction pgs i c info arbitrary: js rule: memstat_loop.induct)
  case (1 pgs i c info)
  show ?case
  proof (cases "i < MAX_TRACKED_PAGES \<and> c < MAX_PAGES_INFO")
    case False
    then have "js = []" using 1(4) by (auto simp: reported_def)
    moreover have "memstat_loop pgs i c info = (c, info)" using False by (subst memstat_loop.simps) (simp only: if_False)
    ultimately show ?thesis using 1(3) by (auto simp: count_in_def)
  next
    case True
    note st = reported_step [of i c pgs]
    show ?thesis
    proof (cases "pg_state (pgs i) = UNMAPPED")
      case u: True
      have "memstat_loop pgs i c info = memstat_loop pgs (Suc i) c info"
        using True u by (subst memstat_loop.simps) simp
      moreover have "js = reported pgs (Suc i) (MAX_PAGES_INFO - c)" using st True u 1(4) by simp
      ultimately show ?thesis using 1(2) [of js] 1(3) True u by simp
    next
      case r: False
      define js' where "js' = reported pgs (Suc i) (MAX_PAGES_INFO - Suc c)"
      have js: "js = i # js'" using st True r 1(4) by (simp add: js'_def)
      have "set js' \<subseteq> {Suc i..<MAX_TRACKED_PAGES}" by (auto simp: js'_def reported_def dest!: in_set_takeD)
      then have "i \<notin> set js'" by auto
      note ct = count_in_Cons [OF this, of pgs]
      have "memstat_loop pgs i c info = memstat_loop pgs (Suc i) (Suc c) (report_page (pgs i) c info)"
        using True r by (subst memstat_loop.simps) simp
      with 1(3) have m: "memstat_loop pgs (Suc i) (Suc c) (report_page (pgs i) c info) = (n, info')" by simp
      from 1(1) [OF True r m js'_def, unfolded report_page_sel] have IH: "n = Suc c + length js'" "ms_pid info' = ms_pid info" "ms_next_fifo_seq info' = ms_next_fifo_seq info"
        "ms_num_resident_pages info' = ms_num_resident_pages info + (if pg_state (pgs i) = RESIDENT then 1 else 0) + of_nat (count_in pgs RESIDENT js')"
        "ms_num_swapped_pages info' = ms_num_swapped_pages info + (if pg_state (pgs i) = SWAPPED then 1 else 0) + of_nat (count_in pgs SWAPPED js')"
        "\<forall>k. ms_pages info' k = (if Suc c \<le> k \<and> k < Suc c + length js' then stat_of (pgs (js' ! (k - Suc c)))
           else ((ms_pages info)(c := stat_of (pgs i))) k)"
        by blast+
      have "ms_pages info' k = (if c \<le> k \<and> k < c + length js then stat_of (pgs (js ! (k - c))) else ms_pages info k)" for k
        unfolding IH(6) [rule_format] js by (cases "k = c"; cases "c < k") (auto simp: nth_Cons')
      then show ?thesis using IH(1-5) unfolding js ct by simp
    qed
  qed
qed

lemma memstat_words_page:
  assumes "k < MAX_PAGES_INFO" "f < 5"
  shows "memstat_words info ! (5 + 5 * k + f) = page_stat_words (ms_pages info k) ! f"
proof -
  have "concat (map (\<lambda>k. page_stat_words (g k)) [0..<m]) ! (5 * k + f) = page_stat_words (g k) ! f"
    if "k < m" for m and g :: "nat \<Rightarrow> page_stat"
    using that
  proof (induction m)
    case (Suc m)
    have len: "length (concat (map (\<lambda>k. page_stat_words (g k)) [0..<m])) = 5 * m"
      by (induction m) (simp_all add: page_stat_words_def)
    show ?case
    proof (cases "k < m")
      case True
      then have "5 * k + f < 5 * m" using assms(2) by simp
      then show ?thesis using Suc True by (simp add: nth_append len)
    next
      case False
      then have "k = m" using Suc.prems by simp
      then show ?thesis by (simp add: nth_append len)
    qed
  qed simp
  from this [OF assms(1)] show ?thesis by (simp add: memstat_words_def nth_append add.assoc)
qed

lemma memstat_words_length: "length (memstat_words info) = 645"
proof -
  have "length (concat (map (\<lambda>k. page_stat_words (g k)) xs)) = 5 * length xs" for g :: "nat \<Rightarrow> page_stat" and xs
    by (induction xs) (simp_all add: page_stat_words_def)
  then show ?thesis by (simp add: memstat_words_def MAX_PAGES_INFO_def)
qed

text \<open>
  C36. What \<open>memstat\<close> gives to the user, word by word of the structure. The reported pages are the
  first \<open>MAX_PAGES_INFO\<close> that are resident or swapped out, in the order of their addresses. The first
  five words are the process id, their number, how many of them are resident, how many are swapped
  out, and the counter of the process; then five words for each of them, the low half of its
  address, 1 or 2 for resident or swapped, whether it is dirty, its sequence number and its slot;
  the rest up to the 2580 bytes of \<open>struct proc_mem_stat\<close> is zero.
\<close>

theorem memstat_reports:
  "let js = take MAX_PAGES_INFO (filter (\<lambda>j. pg_state (pages pg j) \<noteq> UNMAPPED) [0..<MAX_TRACKED_PAGES]);
       ws = memstat_words (memstat_fill pid pg)
   in 4 * length ws = 2580 \<and>
      take 5 ws = [of_int pid, of_nat (length js), of_nat (card {j \<in> set js. pg_state (pages pg j) = RESIDENT}),
        of_nat (card {j \<in> set js. pg_state (pages pg j) = SWAPPED}), of_int (next_fifo_seq pg)] \<and>
      (\<forall>k<MAX_PAGES_INFO. map (\<lambda>f. ws ! (5 + 5 * k + f)) [0..<5] =
         (if k < length js then
            let p = pages pg (js ! k) in
            [ucast (pg_va p), if pg_state p = RESIDENT then 1 else 2, of_bool (pg_dirty p), of_int (pg_fifo_seq p), of_int (pg_swap_slot p)]
          else [0, 0, 0, 0, 0]))"
proof -
  let ?js = "reported (pages pg) 0 MAX_PAGES_INFO" and ?m = "memstat_fill pid pg"
  have js: "take MAX_PAGES_INFO (filter (\<lambda>j. pg_state (pages pg j) \<noteq> UNMAPPED) [0..<MAX_TRACKED_PAGES]) = ?js"
    by (simp add: reported_def)
  define info0 where "info0 = memstat_zero\<lparr>ms_pid := of_int pid, ms_next_fifo_seq := of_int (next_fifo_seq pg)\<rparr>"
  obtain n info where l: "memstat_loop (pages pg) 0 0 info0 = (n, info)" by force
  have "memstat_zero\<lparr>ms_pid := of_int pid, ms_next_fifo_seq := of_int (next_fifo_seq pg), ms_num_pages_total := 0,
      ms_num_resident_pages := 0, ms_num_swapped_pages := 0\<rparr> = info0"
    by (simp add: info0_def memstat_zero_def)
  then have "?m = info\<lparr>ms_num_pages_total := of_nat n\<rparr>" by (simp add: memstat_fill_def l)
  moreover have "?js = reported (pages pg) 0 (MAX_PAGES_INFO - 0)" by simp
  note fills = memstat_loop_fills [OF l this]
  ultimately have m: "ms_pid ?m = of_int pid" "ms_num_pages_total ?m = of_nat (length ?js)"
    "ms_num_resident_pages ?m = of_nat (count_in (pages pg) RESIDENT ?js)" "ms_num_swapped_pages ?m = of_nat (count_in (pages pg) SWAPPED ?js)"
    "ms_next_fifo_seq ?m = of_int (next_fifo_seq pg)"
    "\<And>k. ms_pages ?m k = (if k < length ?js then stat_of (pages pg (?js ! k)) else ms_pages memstat_zero k)"
    by (simp_all add: info0_def) (simp_all add: memstat_zero_def)
  have page: "map (\<lambda>f. memstat_words ?m ! (5 + 5 * k + f)) [0..<5] = page_stat_words (ms_pages ?m k)" if "k < MAX_PAGES_INFO" for k
  proof (rule nth_equalityI)
    show "length (map (\<lambda>f. memstat_words ?m ! (5 + 5 * k + f)) [0..<5]) = length (page_stat_words (ms_pages ?m k))"
      by (simp add: page_stat_words_def)
    show "map (\<lambda>f. memstat_words ?m ! (5 + 5 * k + f)) [0..<5] ! f = page_stat_words (ms_pages ?m k) ! f"
      if "f < length (map (\<lambda>f. memstat_words ?m ! (5 + 5 * k + f)) [0..<5])" for f
      using that memstat_words_page [OF \<open>k < MAX_PAGES_INFO\<close>, of f ?m] by simp
  qed
  have state: "state_code (pg_state (pages pg (?js ! k))) = (if pg_state (pages pg (?js ! k)) = RESIDENT then 1 else 2)"
    if "k < length ?js" for k
  proof -
    have "?js ! k \<in> set ?js" using that by simp
    then have "pg_state (pages pg (?js ! k)) \<noteq> UNMAPPED" by (auto simp: reported_def dest!: in_set_takeD)
    then show ?thesis by (cases "pg_state (pages pg (?js ! k))") (simp_all add: state_code_def)
  qed
  have "take 5 (memstat_words ?m) = [of_int pid, of_nat (length ?js), of_nat (card {j \<in> set ?js. pg_state (pages pg j) = RESIDENT}),
      of_nat (card {j \<in> set ?js. pg_state (pages pg j) = SWAPPED}), of_int (next_fifo_seq pg)]"
    by (simp add: memstat_words_def m count_in_def)
  moreover have "page_stat_words (ms_pages ?m k) = (if k < length ?js then
            let p = pages pg (?js ! k) in
            [ucast (pg_va p), if pg_state p = RESIDENT then 1 else 2, of_bool (pg_dirty p), of_int (pg_fifo_seq p), of_int (pg_swap_slot p)]
          else [0, 0, 0, 0, 0])" for k
    using state by (simp add: m page_stat_words_def stat_of_def memstat_zero_def Let_def)
  ultimately show ?thesis unfolding Let_def js by (simp add: memstat_words_length page)
qed

text \<open>A process with one resident page at 4096.\<close>

theorem memstat_reports_witness:
  "let pg = paging0\<lparr>pages := (pages paging0)(1 := (pages paging0 1)\<lparr>pg_state := RESIDENT, pg_va := 4096\<rparr>)\<rparr>
   in 4 * length (memstat_words (memstat_fill 7 pg)) = 2580 \<and> memstat_words (memstat_fill 7 pg) ! 0 = 7"
proof -
  let ?pg = "paging0\<lparr>pages := (pages paging0)(1 := (pages paging0 1)\<lparr>pg_state := RESIDENT, pg_va := 4096\<rparr>)\<rparr>"
  let ?ws = "memstat_words (memstat_fill 7 ?pg)"
  have "4 * length ?ws = 2580" and "take 5 ?ws ! 0 = 7"
    using memstat_reports [of ?pg 7] by (simp_all add: Let_def)
  then show ?thesis by (simp add: Let_def)
qed

end
