(* ===== verification/Exec.thy ===== *)
theory Exec
  imports Sysproc
begin

text \<open>
  \<open>kernel/exec.c\<close> and \<open>sys_exec\<close>. The segments of the program are only recorded; the page-fault handler
  loads them. An argument string is the list of its bytes before the NUL; the lines that \<open>kexec\<close>
  prints are left out.
\<close>

definition MAXARG :: nat where "MAXARG = 32"
definition USERSTACK :: uint64 where "USERSTACK = 1"
definition ELF_MAGIC :: uint32 where "ELF_MAGIC = 0x464C457F"
definition ELF_PROG_LOAD :: uint32 where "ELF_PROG_LOAD = 1"
definition ELFHDR_SIZE :: nat where "ELFHDR_SIZE = 64"
definition PROGHDR_SIZE :: nat where "PROGHDR_SIZE = 56"

section \<open>Headers\<close>

definition ldb64 :: "bytes \<Rightarrow> nat \<Rightarrow> uint64" where
  "ldb64 d off = word_of_bytes (blk_get d off 8)"

record elfhdr =
  e_magic :: uint32
  e_entry :: uint64
  e_phoff :: uint64
  e_phnum :: uint16

definition get_elfhdr :: "bytes \<Rightarrow> elfhdr" where
  "get_elfhdr d = \<lparr>e_magic = ld32 d 0, e_entry = ldb64 d 24, e_phoff = ldb64 d 32, e_phnum = ld16 d 56\<rparr>"

record proghdr =
  ph_type :: uint32
  ph_flags :: uint32
  ph_off :: uint64
  ph_vaddr :: uint64
  ph_filesz :: uint64
  ph_memsz :: uint64

definition get_proghdr :: "bytes \<Rightarrow> proghdr" where
  "get_proghdr d = \<lparr>ph_type = ld32 d 0, ph_flags = ld32 d 4, ph_off = ldb64 d 8, ph_vaddr = ldb64 d 16,
     ph_filesz = ldb64 d 32, ph_memsz = ldb64 d 40\<rparr>"

definition flags2perm :: "uint32 \<Rightarrow> uint64" where
  "flags2perm flags =
     (let perm = (if flags AND 1 \<noteq> 0 then PTE_X else 0) in if flags AND 2 \<noteq> 0 then perm OR PTE_W else perm)"

section \<open>Segments\<close>

definition clear_segments :: "paging_info \<Rightarrow> paging_info" where
  "clear_segments pg = pg\<lparr>text_start := 0, text_end := 0, data_start := 0, data_end := 0, text_offset := 0,
     data_offset := 0, text_filesz := 0, data_filesz := 0\<rparr>"

definition proghdr_ok :: "proghdr \<Rightarrow> bool" where
  "proghdr_ok ph \<longleftrightarrow> ph_filesz ph \<le> ph_memsz ph \<and> ph_vaddr ph \<le> ph_vaddr ph + ph_memsz ph \<and> ph_vaddr ph mod PGSIZE = 0"

definition record_segment :: "proghdr \<Rightarrow> paging_info \<Rightarrow> paging_info" where
  "record_segment ph pg =
     (if flags2perm (ph_flags ph) AND PTE_X \<noteq> 0 then
        pg\<lparr>text_start := ph_vaddr ph, text_end := ph_vaddr ph + ph_memsz ph, text_offset := ph_off ph,
           text_filesz := ph_filesz ph\<rparr>
      else if flags2perm (ph_flags ph) AND PTE_W \<noteq> 0 then
        pg\<lparr>data_start := ph_vaddr ph, data_end := ph_vaddr ph + ph_memsz ph, data_offset := ph_off ph,
           data_filesz := ph_filesz ph\<rparr>
      else pg)"

text \<open>The loop over the program headers, \<open>k\<close> of which are left: whether it succeeded, and \<open>sz\<close>.\<close>

primrec exec_segments :: "nat \<Rightarrow> nat \<Rightarrow> uint32 \<Rightarrow> uint64 \<Rightarrow> 'a kstate_scheme \<Rightarrow> (bool \<times> uint64 \<times> 'a kstate_scheme) res" where
  "exec_segments 0 ip off sz s = Ok (True, sz, s)"
| "exec_segments (Suc k) ip off sz s =
     bindr (readi lcopyout (\<lambda>_. 0) s ip 0 off (of_nat PROGHDR_SIZE)) (\<lambda>(r, d, s).
       let ph = get_proghdr d in
       if r \<noteq> int PROGHDR_SIZE then Ok (False, sz, s)
       else if ph_type ph \<noteq> ELF_PROG_LOAD then exec_segments k ip (off + of_nat PROGHDR_SIZE) sz s
       else if \<not> proghdr_ok ph then Ok (False, sz, s)
       else
         let s = upd_paging (cur s) (record_segment ph) s; sz1 = uvmalloc_lazy sz (ph_vaddr ph + ph_memsz ph) in
         if sz1 = 0 then Ok (False, sz, s) else exec_segments k ip (off + of_nat PROGHDR_SIZE) sz1 s)"

section \<open>Arguments\<close>

text \<open>The place of a string or an array of \<open>n\<close> bytes below \<open>sp\<close>.\<close>

definition push_sp :: "uint64 \<Rightarrow> uint64 \<Rightarrow> uint64" where
  "push_sp sp n = (let sp = sp - n in sp - sp mod 16)"

text \<open>The loop that pushes the argument strings: \<open>None\<close> on failure, else \<open>sp\<close> and the entries of \<open>ustack\<close>.\<close>

fun push_args :: "uint64 \<Rightarrow> uint64 \<Rightarrow> uint8 list list \<Rightarrow> nat \<Rightarrow> uint64 \<Rightarrow> 'a kstate_scheme \<Rightarrow>
    ((uint64 \<times> uint64 list) option \<times> 'a kstate_scheme) res" where
  "push_args pagetable stackbase [] argc sp s = Ok (Some (sp, []), s)"
| "push_args pagetable stackbase (a # argv) argc sp s =
     (if argc \<ge> MAXARG then Ok (None, s)
      else
        let sp = push_sp sp (of_nat (length a) + 1) in
        if sp < stackbase then Ok (None, s)
        else
          bindr (copyout pagetable sp (a @ [0]) s) (\<lambda>(r, s).
            if r < 0 then Ok (None, s)
            else
              bindr (push_args pagetable stackbase argv (Suc argc) sp s) (\<lambda>(r, s).
                Ok (map_option (\<lambda>(sp', us). (sp', sp # us)) r, s))))"

definition push_ustack :: "uint64 \<Rightarrow> uint64 \<Rightarrow> uint8 list list \<Rightarrow> uint64 \<Rightarrow> 'a kstate_scheme \<Rightarrow>
    (uint64 option \<times> 'a kstate_scheme) res" where
  "push_ustack pagetable stackbase argv sp s =
     bindr (push_args pagetable stackbase argv 0 sp s) (\<lambda>(r, s).
       case r of
         None \<Rightarrow> Ok (None, s)
       | Some (sp, us) \<Rightarrow>
           let sp = push_sp sp ((of_nat (length us) + 1) * 8) in
           if sp < stackbase then Ok (None, s)
           else
             bindr (copyout pagetable sp (concat (map (bytes_of_word 8) (us @ [0]))) s) (\<lambda>(r, s).
               Ok (if r < 0 then None else Some sp, s)))"

section \<open>Loading a program\<close>

definition exec_bad :: "uint64 \<Rightarrow> uint64 \<Rightarrow> nat option \<Rightarrow> 'a kstate_scheme \<Rightarrow> (int \<times> 'a kstate_scheme) res" where
  "exec_bad pagetable sz ip s =
     bindr (if pagetable \<noteq> 0 then proc_freepagetable s pagetable sz else Ok s) (\<lambda>s.
     bindr (case ip of None \<Rightarrow> Ok s | Some ip \<Rightarrow> bindr (iunlockput s ip) end_op) (\<lambda>s.
     bindr (exit_exec_ip s) (\<lambda>s. Ok (-1, s))))"

text \<open>The component of the path behind its last slash.\<close>

definition last_elem :: "uint8 list \<Rightarrow> uint8 list" where
  "last_elem path = rev (takeWhile (\<lambda>c. c \<noteq> slash) (rev path))"

text \<open>From the point where the new image is complete.\<close>

definition exec_commit :: "uint8 list \<Rightarrow> uint64 \<Rightarrow> uint64 \<Rightarrow> uint64 \<Rightarrow> uint64 \<Rightarrow> uint64 \<Rightarrow> 'a kstate_scheme \<Rightarrow> 'a kstate_scheme res" where
  "exec_commit path pagetable sz oldsz entry sp s =
     (let tf = p_trapframe (myproc s); oldpagetable = p_pagetable (myproc s);
          s = s\<lparr>phys := sd64 (phys s) (tf + TF_a0 + 8) sp\<rparr>;
          s = upd_proc (cur s) (\<lambda>x. x\<lparr>p_name := safestrcpy (p_name x) (cstr (last_elem path)) 16, p_pagetable := pagetable,
                p_sz := sz\<rparr>) s;
          s = s\<lparr>phys := sd64 (sd64 (phys s) (tf + 24) entry) (tf + 48) sp\<rparr>
      in proc_freepagetable s oldpagetable oldsz)"

definition exec_stack :: "uint8 list \<Rightarrow> uint8 list list \<Rightarrow> uint64 \<Rightarrow> uint64 \<Rightarrow> uint64 \<Rightarrow> 'a kstate_scheme \<Rightarrow> (int \<times> 'a kstate_scheme) res" where
  "exec_stack path argv pagetable sz entry s =
     (let oldsz = p_sz (myproc s); sz = PGROUNDUP sz in
      bindr (uvmalloc s pagetable sz (sz + (USERSTACK + 1) * PGSIZE) PTE_W) (\<lambda>(sz1, s).
        if sz1 = 0 then exec_bad pagetable sz None s
        else
          bindr (uvmclear s pagetable (sz1 - (USERSTACK + 1) * PGSIZE)) (\<lambda>s.
          let s = upd_paging (cur s) (\<lambda>pg. pg\<lparr>heap_start := sz1, stack_top := sz1\<rparr>) s in
          bindr (exit_swapfile s) (\<lambda>s.
          bindr (create_swap_file s) (\<lambda>(r, s).
            if r < 0 then exec_bad pagetable sz1 None s
            else
              bindr (push_ustack pagetable (sz1 - USERSTACK * PGSIZE) argv sz1 s) (\<lambda>(r, s).
                case r of
                  None \<Rightarrow> exec_bad pagetable sz1 None s
                | Some sp \<Rightarrow>
                    bindr (exec_commit path pagetable sz1 oldsz entry sp s) (\<lambda>s. Ok (int (length argv), s))))))))"

definition kexec :: "uint64 \<Rightarrow> uint8 list \<Rightarrow> uint8 list list \<Rightarrow> 'a kstate_scheme \<Rightarrow> (int \<times> 'a kstate_scheme) res" where
  "kexec trampoline path argv s =
     (let s = upd_paging (cur s) clear_segments s in
      bindr (begin_op s) (\<lambda>s.
      bindr (namei_cwd path s) (\<lambda>(r, s).
        case r of
          None \<Rightarrow> end_with (-1) s
        | Some ip \<Rightarrow>
            bindr (ilock s ip) (\<lambda>s.
            bindr (readi lcopyout (\<lambda>_. 0) s ip 0 0 (of_nat ELFHDR_SIZE)) (\<lambda>(r, d, s).
              let elf = get_elfhdr d in
              if r \<noteq> int ELFHDR_SIZE \<or> e_magic elf \<noteq> ELF_MAGIC then exec_bad 0 0 (Some ip) s
              else
                bindr (proc_pagetable s trampoline (p_trapframe (myproc s))) (\<lambda>(pagetable, s).
                  if pagetable = 0 then exec_bad 0 0 (Some ip) s
                  else
                    bindr (case exec_ip (mypaging s) of None \<Rightarrow> Ok s | Some old \<Rightarrow> iput s old) (\<lambda>s.
                    let s = upd_paging (cur s) (\<lambda>pg. pg\<lparr>exec_ip := Some ip\<rparr>) (snd (idup s ip)) in
                    bindr (exec_segments (unat (e_phnum elf)) ip (ucast (e_phoff elf)) 0 s) (\<lambda>(good, sz, s).
                      if \<not> good then exec_bad pagetable sz (Some ip) s
                      else
                        bindr (iunlockput s ip) (\<lambda>s.
                        bindr (end_op s) (\<lambda>s. exec_stack path argv pagetable sz (e_entry elf) s))))))))))"

section \<open>The system call\<close>

text \<open>The pages of \<open>argv\<close> are given back in the order in which they were allocated.\<close>

primrec free_argv :: "uint64 list \<Rightarrow> 'a kstate_scheme \<Rightarrow> 'a kstate_scheme res" where
  "free_argv [] s = Ok s"
| "free_argv (a # as) s = bindr (kfree s a) (free_argv as)"

text \<open>
  The loop of \<open>sys_exec\<close> from index \<open>i\<close> on, with \<open>k\<close> indices left: whether it succeeded, the pages it has
  allocated and the strings they hold.
\<close>

primrec fetch_argv :: "nat \<Rightarrow> uint64 \<Rightarrow> nat \<Rightarrow> 'a kstate_scheme \<Rightarrow> (bool \<times> uint64 list \<times> uint8 list list \<times> 'a kstate_scheme) res" where
  "fetch_argv 0 uargv i s = Ok (False, [], [], s)"
| "fetch_argv (Suc k) uargv i s =
     bindr (fetchaddr (uargv + 8 * of_nat i) s) (\<lambda>(r, s).
       case r of
         None \<Rightarrow> Ok (False, [], [], s)
       | Some uarg \<Rightarrow>
           if uarg = 0 then Ok (True, [], [], s)
           else
             let (page, s) = kalloc s in
             if page = 0 then Ok (False, [], [], s)
             else
               bindr (fetchstr uarg 4096 s) (\<lambda>(n, str, s).
                 let s = s\<lparr>phys := mem_put (phys s) page (if n < 0 then str else str @ [0])\<rparr> in
                 if n < 0 then Ok (False, [page], [str], s)
                 else
                   bindr (fetch_argv k uargv (Suc i) s) (\<lambda>(good, pgs, strs, s).
                     Ok (good, page # pgs, str # strs, s))))"

definition sys_exec :: "uint64 \<Rightarrow> 'a kstate_scheme \<Rightarrow> (int \<times> 'a kstate_scheme) res" where
  "sys_exec trampoline s =
     bindr (argaddr 1 s) (\<lambda>uargv.
     bindr (argstr 0 MAXPATH s) (\<lambda>(r, path, s).
       if r < 0 then Ok (-1, s)
       else
         bindr (fetch_argv MAXARG uargv 0 s) (\<lambda>(good, pgs, strs, s).
           bindr (if good then kexec trampoline path strs s else Ok (-1, s)) (\<lambda>(ret, s).
           bindr (free_argv pgs s) (\<lambda>s. Ok (ret, s))))))"

section \<open>Results\<close>

lemma push_sp_aligned: "push_sp sp n mod 16 = 0"
proof -
  have "unat (w - w mod 16) mod 16 = 0" for w :: uint64
  proof -
    have "w mod 16 \<le> w" by (simp add: word_le_nat_alt unat_mod)
    then have "unat (w - w mod 16) = unat w - unat w mod 16" by (simp add: unat_sub unat_mod)
    then show ?thesis by (simp add: minus_mod_eq_mult_div)
  qed
  then show ?thesis by (simp add: push_sp_def Let_def word_unat_eq_iff unat_mod)
qed

text \<open>
  C39. The arguments of a new program lie within its stack: every pointer stored in \<open>argv\<close> is
  16-byte aligned and not below the stack's base, and so is the final stack pointer as far as the
  strings go; there is one pointer per argument and never more than \<open>MAXARG\<close> of them.
\<close>

theorem push_args_on_stack:
  assumes "push_args pt base argv argc sp s = Ok (Some (sp', us), s')" and "argc \<le> MAXARG"
  shows "length us = length argv \<and> argc + length us \<le> MAXARG \<and>
     (\<forall>u\<in>set us. base \<le> u \<and> u mod 16 = 0) \<and> sp' = last (sp # us)"
  using assms
proof (induction pt base argv argc sp s arbitrary: sp' us s' rule: push_args.induct)
  case (2 pt base a argv argc sp s)
  let ?sp = "push_sp sp (of_nat (length a) + 1)"
  have c: "\<not> MAXARG \<le> argc" "\<not> ?sp < base"
    using 2(2) by (auto simp: Let_def split: if_splits)
  then obtain r t us' where t: "copyout pt ?sp (a @ [0]) s = Ok (r, t)" "\<not> r < 0"
    "push_args pt base argv (Suc argc) ?sp t = Ok (Some (sp', us'), s')" "us = ?sp # us'"
    using 2(2) by (auto simp: Let_def split: if_splits)
  have "length us' = length argv \<and> Suc argc + length us' \<le> MAXARG \<and>
     (\<forall>u\<in>set us'. base \<le> u \<and> u mod 16 = 0) \<and> sp' = last (?sp # us')"
    using 2(1) [OF c(1) refl c(2) t(1) refl t(2) t(3)] c(1) by simp
  then show ?case using t(4) c(2) push_sp_aligned by (auto simp: not_less)
qed simp

lemma one_page_copyout:
  "copyout 0 0x10 [97, 0] one_page = Ok (0, one_page\<lparr>phys := mem_put one_page_mem 0x80000010 [97, 0]\<rparr>)"
proof -
  have e: "copyout pt v [] t = Ok (0, t)" for pt v and t :: kstate by (subst copyout.simps) simp
  have va: "PGROUNDDOWN 0x10 = 0" by (simp add: PGROUNDDOWN_def PGSIZE_def)
  have off: "page_off 0x10 = 16" by (simp add: page_off_def)
  show ?thesis
    by (subst copyout.simps)
      (simp add: va off e user_page_def one_page_walk one_page_lookup one_page_phys one_page_entry PTE_W_def Let_def)
qed

theorem push_args_on_stack_witness:
  "\<exists>s'. push_args 0 0 [[97]] 0 0x20 one_page = Ok (Some (0x10, [0x10]), s') \<and> (0x10 :: uint64) mod 16 = 0"
proof -
  have sp: "push_sp 0x20 2 = 0x10" by (simp add: push_sp_def)
  obtain s' where "push_args 0 0 [[97]] 0 0x20 one_page = Ok (Some (0x10, [0x10]), s')"
    using one_page_copyout by (simp add: sp MAXARG_def Let_def)
  with push_args_on_stack [OF this] show ?thesis by simp
qed

end
