(* ===== verification/Printf.thy ===== *)
theory Printf
  imports Prelude
begin

text \<open>
  Formatted output: \<open>printint\<close>, \<open>printptr\<close> and \<open>printf\<close> of \<open>kernel/printf.c\<close>, \<open>printint\<close>, \<open>printptr\<close>
  and \<open>vprintf\<close> of \<open>user/printf.c\<close>, and \<open>atoi\<close> of \<open>user/ulib.c\<close>. The result of a definition is the text
  it prints. An argument of a variadic call is a number or a string (\<open>None\<close> is the null pointer);
  running out of arguments, or taking one as the wrong kind, is undefined behaviour and gives \<open>None\<close>.
\<close>

definition BACKSPACE :: uint32 where "BACKSPACE = 0x100"

text \<open>\<open>consputc\<close> of \<open>kernel/console.c\<close>: the bytes it sends to the UART.\<close>

definition consputc :: "uint32 \<Rightarrow> string" where
  "consputc c = (if c = BACKSPACE then [CHR 0x08, CHR '' '', CHR 0x08] else [char_of (unat c)])"

section \<open>Numbers\<close>

datatype parg = PNum uint64 | PStr "string option"

definition digits :: string where "digits = ''0123456789abcdef''"
definition u_digits :: string where "u_digits = ''0123456789ABCDEF''"

text \<open>
  The \<open>do ... while\<close> of \<open>printint\<close>: the digits in the order they are stored in \<open>buf\<close>. It is called
  with base 10 and 16 only.
\<close>

function digit_loop :: "string \<Rightarrow> nat \<Rightarrow> nat \<Rightarrow> string" where
  "digit_loop ds base x = ds ! (x mod base) # (if x div base = 0 \<or> base \<le> 1 then [] else digit_loop ds base (x div base))"
  by pat_completeness auto
termination
  by (relation "measure (\<lambda>(_, _, x). x)") (auto intro!: div_less_dividend intro: Nat.gr0I)

declare digit_loop.simps [simp del]

text \<open>The contents of \<open>buf\<close> when the loops that print it start.\<close>

definition printint_buf :: "uint64 \<Rightarrow> nat \<Rightarrow> bool \<Rightarrow> string" where
  "printint_buf xx base sign =
     (let sign = (sign \<and> sint xx < 0);
          x = (if sign then - xx else xx);
          buf = digit_loop digits base (unat x)
      in if sign then buf @ ''-'' else buf)"

definition printint :: "uint64 \<Rightarrow> nat \<Rightarrow> bool \<Rightarrow> string" where
  "printint xx base sign = rev (printint_buf xx base sign)"

definition u_printint_buf :: "uint64 \<Rightarrow> nat \<Rightarrow> bool \<Rightarrow> string" where
  "u_printint_buf xx base sg =
     (let (neg, x) = (if sg \<and> sint xx < 0 then (True, - xx) else (False, xx));
          buf = digit_loop u_digits base (unat x)
      in if neg then buf @ ''-'' else buf)"

definition u_printint :: "uint64 \<Rightarrow> nat \<Rightarrow> bool \<Rightarrow> string" where
  "u_printint xx base sg = rev (u_printint_buf xx base sg)"

primrec ptr_loop :: "string \<Rightarrow> nat \<Rightarrow> uint64 \<Rightarrow> string" where
  "ptr_loop ds 0 x = []"
| "ptr_loop ds (Suc k) x = ds ! unat (drop_bit 60 x) # ptr_loop ds k (push_bit 4 x)"

definition printptr :: "uint64 \<Rightarrow> string" where
  "printptr x = ''0x'' @ ptr_loop digits 16 x"

definition u_printptr :: "uint64 \<Rightarrow> string" where
  "u_printptr x = ''0x'' @ ptr_loop u_digits 16 x"

section \<open>Formats\<close>

text \<open>\<open>va_arg\<close> at the types the code uses.\<close>

definition va_num :: "parg list \<Rightarrow> (uint64 \<Rightarrow> string) \<Rightarrow> (string \<times> parg list) option" where
  "va_num ap f = (case ap of PNum w # ap \<Rightarrow> Some (f w, ap) | _ \<Rightarrow> None)"

definition va_str :: "parg list \<Rightarrow> (string \<times> parg list) option" where
  "va_str ap = (case ap of PStr s # ap \<Rightarrow> Some (case s of None \<Rightarrow> ''(null)'' | Some t \<Rightarrow> t, ap) | _ \<Rightarrow> None)"

definition arg_int :: "uint64 \<Rightarrow> uint64" where "arg_int w = scast (ucast w :: 32 word)"
definition arg_uint :: "uint64 \<Rightarrow> uint64" where "arg_uint w = ucast (ucast w :: 32 word)"

definition skips :: "nat \<Rightarrow> (string \<times> parg list) option \<Rightarrow> (string \<times> nat \<times> parg list) option" where
  "skips k r = map_option (\<lambda>(out, ap). (out, k, ap)) r"

text \<open>
  The conversion after \<open>%\<close>: what is printed, how many characters of the format it takes beyond \<open>c0\<close>,
  and the arguments that are left. \<open>c1\<close> and \<open>c2\<close> are the next characters, \<open>NUL\<close> behind the end.
\<close>

definition printf_conv :: "char \<Rightarrow> char \<Rightarrow> char \<Rightarrow> parg list \<Rightarrow> (string \<times> nat \<times> parg list) option" where
  "printf_conv c0 c1 c2 ap =
     (if c0 = CHR ''d'' then skips 0 (va_num ap (\<lambda>w. printint (arg_int w) 10 True))
      else if c0 = CHR ''l'' \<and> c1 = CHR ''d'' then skips 1 (va_num ap (\<lambda>w. printint w 10 True))
      else if c0 = CHR ''l'' \<and> c1 = CHR ''l'' \<and> c2 = CHR ''d'' then skips 2 (va_num ap (\<lambda>w. printint w 10 True))
      else if c0 = CHR ''u'' then skips 0 (va_num ap (\<lambda>w. printint (arg_uint w) 10 False))
      else if c0 = CHR ''l'' \<and> c1 = CHR ''u'' then skips 1 (va_num ap (\<lambda>w. printint w 10 False))
      else if c0 = CHR ''l'' \<and> c1 = CHR ''l'' \<and> c2 = CHR ''u'' then skips 2 (va_num ap (\<lambda>w. printint w 10 False))
      else if c0 = CHR ''x'' then skips 0 (va_num ap (\<lambda>w. printint (arg_uint w) 16 False))
      else if c0 = CHR ''l'' \<and> c1 = CHR ''x'' then skips 1 (va_num ap (\<lambda>w. printint w 16 False))
      else if c0 = CHR ''l'' \<and> c1 = CHR ''l'' \<and> c2 = CHR ''x'' then skips 2 (va_num ap (\<lambda>w. printint w 16 False))
      else if c0 = CHR ''p'' then skips 0 (va_num ap printptr)
      else if c0 = CHR ''c'' then skips 0 (va_num ap (\<lambda>w. consputc (ucast w)))
      else if c0 = CHR ''s'' then skips 0 (va_str ap)
      else if c0 = CHR ''%'' then Some (''%'', 0, ap)
      else Some ([CHR ''%'', c0], 0, ap))"

definition vprintf_conv :: "char \<Rightarrow> char \<Rightarrow> char \<Rightarrow> parg list \<Rightarrow> (string \<times> nat \<times> parg list) option" where
  "vprintf_conv c0 c1 c2 ap =
     (if c0 = CHR ''d'' then skips 0 (va_num ap (\<lambda>w. u_printint (arg_int w) 10 True))
      else if c0 = CHR ''l'' \<and> c1 = CHR ''d'' then skips 1 (va_num ap (\<lambda>w. u_printint w 10 True))
      else if c0 = CHR ''l'' \<and> c1 = CHR ''l'' \<and> c2 = CHR ''d'' then skips 2 (va_num ap (\<lambda>w. u_printint w 10 True))
      else if c0 = CHR ''u'' then skips 0 (va_num ap (\<lambda>w. u_printint (arg_uint w) 10 False))
      else if c0 = CHR ''l'' \<and> c1 = CHR ''u'' then skips 1 (va_num ap (\<lambda>w. u_printint w 10 False))
      else if c0 = CHR ''l'' \<and> c1 = CHR ''l'' \<and> c2 = CHR ''u'' then skips 2 (va_num ap (\<lambda>w. u_printint w 10 False))
      else if c0 = CHR ''x'' then skips 0 (va_num ap (\<lambda>w. u_printint (arg_uint w) 16 False))
      else if c0 = CHR ''l'' \<and> c1 = CHR ''x'' then skips 1 (va_num ap (\<lambda>w. u_printint w 16 False))
      else if c0 = CHR ''l'' \<and> c1 = CHR ''l'' \<and> c2 = CHR ''x'' then skips 2 (va_num ap (\<lambda>w. u_printint w 16 False))
      else if c0 = CHR ''p'' then skips 0 (va_num ap u_printptr)
      else if c0 = CHR ''c'' then skips 0 (va_num ap (\<lambda>w. [char_of (unat w)]))
      else if c0 = CHR ''s'' then skips 0 (va_str ap)
      else if c0 = CHR ''%'' then Some (''%'', 0, ap)
      else Some ([CHR ''%'', c0], 0, ap))"

definition peek_char :: "string \<Rightarrow> nat \<Rightarrow> char" where
  "peek_char fmt i = (if i < length fmt then fmt ! i else CHR 0x00)"

text \<open>\<open>fmt\<close> is the rest of the format.\<close>

function printf :: "string \<Rightarrow> parg list \<Rightarrow> string option" where
  "printf [] ap = Some []"
| "printf (cx # fmt) ap =
     (if cx \<noteq> CHR ''%'' then map_option (Cons cx) (printf fmt ap)
      else
        case fmt of
          [] \<Rightarrow> Some []
        | c0 # fmt \<Rightarrow>
            (case printf_conv c0 (peek_char fmt 0) (peek_char fmt 1) ap of
               None \<Rightarrow> None
             | Some (out, k, ap) \<Rightarrow> map_option (append out) (printf (drop k fmt) ap)))"
  by pat_completeness auto
termination
  by (relation "measure (\<lambda>(fmt, _). length fmt)") auto

text \<open>\<open>pct\<close> tells whether \<open>state == '%'\<close>.\<close>

function vprintf :: "bool \<Rightarrow> string \<Rightarrow> parg list \<Rightarrow> string option" where
  "vprintf pct [] ap = Some []"
| "vprintf pct (c0 # fmt) ap =
     (if \<not> pct then
        if c0 = CHR ''%'' then vprintf True fmt ap
        else map_option (Cons c0) (vprintf False fmt ap)
      else
        (case vprintf_conv c0 (peek_char fmt 0) (peek_char fmt 1) ap of
           None \<Rightarrow> None
         | Some (out, k, ap) \<Rightarrow> map_option (append out) (vprintf False (drop k fmt) ap)))"
  by pat_completeness auto
termination
  by (relation "measure (\<lambda>(_, fmt, _). length fmt)") auto

section \<open>Reading numbers\<close>

definition digit_val :: "char \<Rightarrow> nat" where "digit_val c = of_char c - 48"

definition is_digit :: "char \<Rightarrow> bool" where
  "is_digit c \<longleftrightarrow> 48 \<le> (of_char c :: nat) \<and> (of_char c :: nat) \<le> 57"

text \<open>\<open>n\<close> is an \<open>int\<close>; its arithmetic wraps around.\<close>

fun atoi_loop :: "string \<Rightarrow> uint32 \<Rightarrow> uint32" where
  "atoi_loop [] n = n"
| "atoi_loop (c # s) n = (if is_digit c then atoi_loop s (n * 10 + of_nat (digit_val c)) else n)"

definition atoi :: "string \<Rightarrow> int" where
  "atoi s = sint (atoi_loop s 0)"

section \<open>Results\<close>

lemma sint_of_nat_small:
  assumes "d < 2 ^ (LENGTH('a) - 1)"
  shows "sint (of_nat d :: 'a::len word) = int d"
proof -
  have "int d < 2 ^ (LENGTH('a) - 1)" using assms by (metis of_nat_less_iff of_nat_numeral of_nat_power)
  moreover have "- (2 ^ (LENGTH('a) - 1)) \<le> int d" by (rule order_trans [of _ 0]) simp_all
  ultimately show ?thesis by (simp add: signed_of_nat signed_take_bit_int_eq_self)
qed

lemma unat_less_power: "unat (w :: 'a::len word) < 2 ^ LENGTH('a)"
  by (rule unsigned_less)

lemma digit_loop_length:
  assumes "1 < base" and "x < base ^ k" and "0 < k"
  shows "length (digit_loop ds base x) \<le> k"
  using assms
proof (induction k arbitrary: x)
  case (Suc k)
  show ?case
  proof (cases "x div base = 0")
    case True
    then show ?thesis by (simp add: digit_loop.simps [of ds base x])
  next
    case False
    then have "k \<noteq> 0" using Suc.prems(2) by (cases k) auto
    moreover have "x div base < base ^ k" using Suc.prems by (simp add: less_mult_imp_div_less mult.commute)
    ultimately show ?thesis using Suc.IH [of "x div base"] Suc.prems(1) False
      by (simp add: digit_loop.simps [of ds base x])
  qed
qed simp

text \<open>
  \<open>printint\<close> never stores outside its buffer \<open>buf[20]\<close>, whatever number it is given: also not for
  the least negative number, whose sign needs a place too, and not for the largest unsigned one.
  Its callers use base 10, signed or not, and base 16, unsigned.
\<close>

theorem printint_within_buffer:
  "length (printint_buf xx 10 sign) \<le> 20 \<and> length (u_printint_buf xx 10 sign) \<le> 20 \<and>
   length (printint_buf xx 16 False) \<le> 16 \<and> length (u_printint_buf xx 16 False) \<le> 16"
proof -
  have x64: "unat x < 2 ^ 64" for x :: uint64 using unat_less_power [of x] by simp
  have x10: "length (digit_loop ds 10 (unat x)) \<le> 20" for ds and x :: uint64
    using x64 [of x] by (intro digit_loop_length) simp_all
  have x16: "length (digit_loop ds 16 (unat x)) \<le> 16" for ds and x :: uint64
    using x64 [of x] by (intro digit_loop_length) simp_all
  have neg: "length (digit_loop ds 10 (unat (- xx))) \<le> 19" if "sint xx < 0" for ds
  proof -
    have "- xx = word_of_int (- sint xx)" by simp
    then have "uint (- xx) = take_bit 64 (- sint xx)" by (simp only: uint_word_of_int take_bit_eq_mod) simp
    moreover have "take_bit 64 (- sint xx) = - sint xx"
      using that sint_ge [of xx] by (intro take_bit_int_eq_self) simp_all
    ultimately have "uint (- xx) = - sint xx" by (rule trans)
    then have "uint (- xx) \<le> 2 ^ 63" using sint_ge [of xx] by simp
    then have "nat (uint (- xx)) \<le> nat (2 ^ 63)" by (rule nat_mono)
    then have "unat (- xx) < 10 ^ 19" unfolding unat_eq_nat_uint by (rule le_less_trans) simp
    then show ?thesis by (rule digit_loop_length [rotated]) simp_all
  qed
  have neg': "length (digit_loop ds 10 (unat (- xx)) @ ''-'') \<le> 20" if "sint xx < 0" for ds
    using neg [OF that, of ds] by simp
  show ?thesis
    unfolding printint_buf_def u_printint_buf_def Let_def
    by (cases "sign \<and> sint xx < 0") (simp_all only: x10 x16 neg' if_True if_False prod.case simp_thms)
qed

lemma printf_digits:
  "digit_loop u_digits 10 x = digit_loop digits 10 x"
proof (induction x rule: less_induct)
  case (less x)
  have "d \<in> {0,1,2,3,4,5,6,7,8,9}" if "d < 10" for d :: nat using that by auto
  from this [of "x mod 10"] have "x mod 10 \<in> {0,1,2,3,4,5,6,7,8,9}" by (metis mod_less_divisor zero_less_numeral)
  then have "u_digits ! (x mod 10) = digits ! (x mod 10)" by (auto simp: u_digits_def digits_def)
  then show ?case using less [of "x div 10"] by (simp add: digit_loop.simps [of _ 10 x])
qed

lemma u_printint_10: "u_printint xx 10 sg = printint xx 10 sg"
  by (simp add: u_printint_def printint_def u_printint_buf_def printint_buf_def printf_digits Let_def)

definition plain_format :: "string \<Rightarrow> bool" where
  "plain_format fmt \<longleftrightarrow> CHR ''x'' \<notin> set fmt \<and> CHR ''p'' \<notin> set fmt \<and> CHR ''c'' \<notin> set fmt"

lemma plain_format_drop: "plain_format fmt \<Longrightarrow> plain_format (drop k fmt)"
  by (auto simp: plain_format_def dest: in_set_dropD)

lemma vprintf_conv_eq:
  assumes "plain_format (c0 # fmt)"
  shows "vprintf_conv c0 (peek_char fmt 0) (peek_char fmt 1) ap = printf_conv c0 (peek_char fmt 0) (peek_char fmt 1) ap"
proof -
  have "peek_char fmt i \<noteq> CHR ''x''" for i using assms by (auto simp: plain_format_def peek_char_def) (metis nth_mem)
  moreover have "c0 \<noteq> CHR ''x''" "c0 \<noteq> CHR ''p''" "c0 \<noteq> CHR ''c''" using assms by (auto simp: plain_format_def)
  ultimately show ?thesis unfolding vprintf_conv_def printf_conv_def u_printint_10 by simp
qed

text \<open>
  The two implementations agree: \<open>vprintf\<close> in user space, a state machine over the format, prints
  what the kernel's \<open>printf\<close> prints, for every format without hexadecimal conversions (where the
  digits differ in case) and without \<open>%c\<close> (where the kernel has a code for erasing), whatever its arguments; where one of them runs out of arguments, so does
  the other.
\<close>

theorem vprintf_eq_printf:
  assumes "plain_format fmt"
  shows "vprintf False fmt ap = printf fmt ap"
  using assms
proof (induction fmt ap rule: printf.induct)
  case (2 cx fmt ap)
  show ?case
  proof (cases "cx = CHR ''%''")
    case False
    then show ?thesis using 2 by (simp add: plain_format_def)
  next
    case True
    show ?thesis
    proof (cases fmt)
      case Nil
      with True show ?thesis by simp
    next
      case (Cons c0 rest)
      have plain: "plain_format (c0 # rest)" using 2(3) Cons by (simp add: plain_format_def)
      have "vprintf False (drop k rest) ap' = printf (drop k rest) ap'"
        if "printf_conv c0 (peek_char rest 0) (peek_char rest 1) ap = Some (out, k, ap')" for out k ap'
        using 2(2) [OF _ Cons that refl refl] True plain plain_format_drop [of "c0 # rest" "Suc k"] by simp
      then show ?thesis
        using True Cons vprintf_conv_eq [OF plain, of ap] by (auto split: option.split)
    qed
  qed
qed simp

theorem vprintf_eq_printf_witness:
  "vprintf False ''init %d: %s%%'' [PNum 7, PStr None] = printf ''init %d: %s%%'' [PNum 7, PStr None]"
  by (rule vprintf_eq_printf) (simp add: plain_format_def)

lemma atoi_loop_append: "\<forall>c\<in>set s. is_digit c \<Longrightarrow> atoi_loop (s @ t) n = atoi_loop t (atoi_loop s n)"
  by (induction s arbitrary: n) auto

lemma decimal_digit:
  assumes "d < 10"
  shows "is_digit (digits ! d) \<and> digit_val (digits ! d) = d"
proof -
  have "d \<in> {0,1,2,3,4,5,6,7,8,9}" using assms by auto
  then show ?thesis by (auto simp: is_digit_def digit_val_def digits_def)
qed

lemma atoi_loop_digits:
  "(\<forall>c\<in>set (digit_loop digits 10 x). is_digit c) \<and> atoi_loop (rev (digit_loop digits 10 x)) 0 = of_nat x"
proof (induction x rule: less_induct)
  case (less x)
  show ?case
  proof (cases "x div 10 = 0")
    case True
    then have "x < 10" by auto
    then show ?thesis using decimal_digit [of x] by (simp add: digit_loop.simps)
  next
    case False
    then have "x div 10 < x" by auto
    note IH = less [OF this]
    have "of_nat (x div 10) * 10 + of_nat (x mod 10) = (of_nat (x div 10 * 10 + x mod 10) :: uint32)"
      by (simp only: of_nat_add of_nat_mult of_nat_numeral)
    also have "\<dots> = of_nat x" by (simp only: div_mult_mod_eq)
    finally have e: "of_nat (x div 10) * 10 + of_nat (x mod 10) = (of_nat x :: uint32)" .
    have l: "digit_loop digits 10 x = digits ! (x mod 10) # digit_loop digits 10 (x div 10)"
      using False by (simp add: digit_loop.simps [of _ 10 x])
    have "atoi_loop (rev (digit_loop digits 10 x)) 0 = of_nat (x div 10) * 10 + of_nat (x mod 10)"
      using IH decimal_digit [of "x mod 10"] unfolding l by (simp add: atoi_loop_append)
    then show ?thesis using IH decimal_digit [of "x mod 10"] unfolding e by (simp add: l)
  qed
qed

text \<open>
  Numbers survive printing and reading: \<open>atoi\<close> of what \<open>%d\<close> prints for a non-negative \<open>int\<close> is
  that number, with the \<open>printint\<close> of the kernel and with that of user space.
\<close>

theorem atoi_printint:
  assumes "d < 2 ^ 31"
  shows "atoi (printint (of_nat d) 10 True) = int d \<and> atoi (u_printint (of_nat d) 10 True) = int d"
proof -
  have d: "unat (of_nat d :: uint64) = d" using assms by (intro unat_of_nat_small) simp
  have "\<not> sint (of_nat d :: uint64) < 0"
    using assms by (simp add: sint_of_nat_small)
  then have "printint (of_nat d) 10 True = rev (digit_loop digits 10 d)"
    by (simp add: printint_def printint_buf_def d)
  moreover have "sint (of_nat d :: uint32) = int d" using assms by (simp add: sint_of_nat_small)
  ultimately show ?thesis
    using atoi_loop_digits [of d] by (simp add: atoi_def u_printint_10)
qed

theorem atoi_printint_witness: "atoi (printint 1984 10 True) = 1984"
  using atoi_printint [of 1984] by simp

end
