(* ===== verification/Console.thy ===== *)
theory Console
  imports Pipe Printf
begin

text \<open>
  Console input, \<open>consoleintr\<close> and \<open>consoleread\<close> of \<open>kernel/console.c\<close>, and \<open>procdump\<close> of \<open>kernel/proc.c\<close>,
  which a key prints. The input buffer is a ring with three free-running counters: bytes from \<open>r\<close> to
  \<open>w\<close> are complete lines that can be read, bytes from \<open>w\<close> to \<open>e\<close> belong to the line being edited.
\<close>

definition INPUT_BUF_SIZE :: nat where "INPUT_BUF_SIZE = 128"

record cons =
  cons_buf :: "nat \<Rightarrow> uint8"
  cons_r :: uint32
  cons_w :: uint32
  cons_e :: uint32

record cstate = kstate +
  kcons :: cons
  uart_tx :: string

definition Ctrl :: "nat \<Rightarrow> uint32" where "Ctrl x = of_nat (x - 0x40)"

definition NEWLINE :: uint8 where "NEWLINE = 0x0A"

section \<open>The process listing\<close>

definition state_name :: "procstate \<Rightarrow> string" where
  "state_name st = (case st of UNUSED \<Rightarrow> ''unused'' | USED \<Rightarrow> ''used'' | SLEEPING \<Rightarrow> ''sleep '' | RUNNABLE \<Rightarrow> ''runble''
     | RUNNING \<Rightarrow> ''run   '' | ZOMBIE \<Rightarrow> ''zombie'')"

definition name_string :: "bytes \<Rightarrow> string" where
  "name_string b = map (\<lambda>c. char_of (unat c)) (takeWhile (\<lambda>c. c \<noteq> 0) (map b [0..<16]))"

definition procdump_line :: "proc \<Rightarrow> string" where
  "procdump_line p =
     (if p_state p = UNUSED then []
      else
        (case printf ''%d %s %s'' [PNum (of_int (p_pid p)), PStr (Some (state_name (p_state p))), PStr (Some (name_string (p_name p)))] of
           Some out \<Rightarrow> out @ [CHR 0x0A] | None \<Rightarrow> []))"

definition procdump :: "'a kstate_scheme \<Rightarrow> string" where
  "procdump s = CHR 0x0A # concat (map (\<lambda>p. procdump_line (procs s p)) [0..<NPROC])"

section \<open>Line editing\<close>

lemma unat_back:
  fixes e x :: uint32
  assumes "e \<noteq> x"
  shows "unat (e - 1 - x) = unat (e - x) - 1"
proof -
  have "e - 1 - x = e - x - 1" by simp
  moreover have "0 < unat (e - x)" using assms by (simp add: unat_gt_0)
  ultimately show ?thesis using unat_sub_1 [of "e - x"] by metis
qed

text \<open>\<open>cons.e--; consputc(BACKSPACE);\<close>, and the loop that erases the line: the buffer and the text sent.\<close>

definition cons_back :: "cons \<Rightarrow> cons" where
  "cons_back c = c\<lparr>cons_e := cons_e c - 1\<rparr>"

function kill_line :: "cons \<Rightarrow> cons \<times> string" where
  "kill_line c =
     (if cons_e c \<noteq> cons_w c \<and> cons_buf c (unat (cons_e c - 1) mod INPUT_BUF_SIZE) \<noteq> NEWLINE then
        let (c, out) = kill_line (cons_back c) in (c, consputc BACKSPACE @ out)
      else (c, []))"
  by pat_completeness auto
termination
proof (relation "measure (\<lambda>c. unat (cons_e c - cons_w c))", simp)
  fix c :: cons
  assume "cons_e c \<noteq> cons_w c \<and> cons_buf c (unat (cons_e c - 1) mod INPUT_BUF_SIZE) \<noteq> NEWLINE"
  then have "cons_e c \<noteq> cons_w c" by simp
  then have "unat (cons_e c - 1 - cons_w c) = unat (cons_e c - cons_w c) - 1" "0 < unat (cons_e c - cons_w c)"
    by (rule unat_back, simp add: unat_gt_0)
  then show "(cons_back c, c) \<in> measure (\<lambda>c. unat (cons_e c - cons_w c))"
    by (simp add: cons_back_def)
qed

declare kill_line.simps [simp del]

text \<open>The \<open>default\<close> case: whether a whole line has arrived, the buffer and the text sent.\<close>

definition cons_store :: "uint32 \<Rightarrow> cons \<Rightarrow> bool \<times> cons \<times> string" where
  "cons_store ch c =
     (if ch \<noteq> 0 \<and> cons_e c - cons_r c < of_nat INPUT_BUF_SIZE then
        let ch = (if ch = 0x0D then 0x0A else ch);
            c = c\<lparr>cons_buf := (cons_buf c)(unat (cons_e c) mod INPUT_BUF_SIZE := ucast ch), cons_e := cons_e c + 1\<rparr>
        in if ch = 0x0A \<or> ch = Ctrl 0x44 \<or> cons_e c - cons_r c = of_nat INPUT_BUF_SIZE
           then (True, c\<lparr>cons_w := cons_e c\<rparr>, consputc ch)
           else (False, c, consputc ch)
      else (False, c, []))"

definition consoleintr :: "uint32 \<Rightarrow> 'a cstate_scheme \<Rightarrow> 'a cstate_scheme" where
  "consoleintr ch s =
     (if ch = Ctrl 0x50 then s\<lparr>uart_tx := uart_tx s @ procdump s\<rparr>
      else if ch = Ctrl 0x55 then
        let (c, out) = kill_line (kcons s) in s\<lparr>kcons := c, uart_tx := uart_tx s @ out\<rparr>
      else if ch = Ctrl 0x48 \<or> ch = 0x7F then
        if cons_e (kcons s) \<noteq> cons_w (kcons s)
        then s\<lparr>kcons := cons_back (kcons s), uart_tx := uart_tx s @ consputc BACKSPACE\<rparr> else s
      else
        let (line, c, out) = cons_store ch (kcons s); s = s\<lparr>kcons := c, uart_tx := uart_tx s @ out\<rparr>
        in if line then wakeup ChConsR s else s)"

section \<open>Reading\<close>

text \<open>
  The loop of \<open>consoleread\<close> with \<open>n\<close> bytes left of \<open>target\<close>; it is entered again with \<open>n\<close> after sleeping.
\<close>

fun consoleread_loop :: "nat \<Rightarrow> bool \<Rightarrow> uint64 \<Rightarrow> nat \<Rightarrow> 'a cstate_scheme \<Rightarrow> (pipe_outcome \<times> 'a cstate_scheme) res" where
  "consoleread_loop target user_dst dst 0 s = Ok (Ret (int target), s)"
| "consoleread_loop target user_dst dst (Suc n) s =
     (let c = kcons s; ret = Ret (int target - int (Suc n)) in
      if cons_r c = cons_w c then
        if killed (cur s) s then Ok (Ret (-1), s)
        else Ok (Wait ChConsR (Suc n), sleep_enter ChConsR s)
      else
        let ch = cons_buf c (unat (cons_r c) mod INPUT_BUF_SIZE); s1 = s\<lparr>kcons := c\<lparr>cons_r := cons_r c + 1\<rparr>\<rparr> in
        if ucast ch = Ctrl 0x44 then Ok (ret, if Suc n < target then s else s1)
        else
          bindr (either_copyout user_dst dst [ch] s1) (\<lambda>(r, s).
            if r = -1 then Ok (ret, s)
            else if ch = NEWLINE then Ok (Ret (int target - int n), s)
            else consoleread_loop target user_dst (dst + 1) n s))"

definition consoleread :: "bool \<Rightarrow> uint64 \<Rightarrow> int \<Rightarrow> 'a cstate_scheme \<Rightarrow> (pipe_outcome \<times> 'a cstate_scheme) res" where
  "consoleread user_dst dst n s = consoleread_loop (nat n) user_dst dst (nat n) s"

section \<open>Results\<close>

interpretation cons_ring: ring INPUT_BUF_SIZE "TYPE(32)"
  by unfold_locales (simp_all add: INPUT_BUF_SIZE_def)

definition cons_inv :: "cons \<Rightarrow> bool" where
  "cons_inv c \<longleftrightarrow> unat (cons_w c - cons_r c) \<le> unat (cons_e c - cons_r c) \<and> unat (cons_e c - cons_r c) \<le> INPUT_BUF_SIZE"

text \<open>The input that can be read.\<close>

definition cons_lines :: "cons \<Rightarrow> uint8 list" where
  "cons_lines c = ring_list INPUT_BUF_SIZE (cons_buf c) (cons_r c) (cons_w c)"

lemma ring_list_take:
  "unat (w - r) \<le> unat (e - r) \<Longrightarrow> ring_list n d r w = take (unat (w - r)) (ring_list n d r e)"
  by (simp add: ring_list_def take_map)

lemma cons_back_ok:
  assumes "cons_inv c" and "cons_e c \<noteq> cons_w c"
  shows "cons_inv (cons_back c) \<and> cons_lines (cons_back c) = cons_lines c"
proof -
  have le: "unat (cons_w c - cons_r c) \<le> unat (cons_e c - cons_r c)" using assms(1) by (simp add: cons_inv_def)
  have ne: "unat (cons_w c - cons_r c) \<noteq> unat (cons_e c - cons_r c)"
    using assms(2) unfolding word_unat_eq_iff [symmetric] by (metis diff_add_cancel)
  have "cons_e c \<noteq> cons_r c" using le ne by auto
  then have "unat (cons_e c - 1 - cons_r c) = unat (cons_e c - cons_r c) - 1" by (rule unat_back)
  then show ?thesis
    using assms(1) le ne by (simp add: cons_inv_def cons_back_def cons_lines_def, arith)
qed

lemma kill_line_ok:
  "cons_inv c \<Longrightarrow> cons_inv (fst (kill_line c)) \<and> cons_lines (fst (kill_line c)) = cons_lines c"
proof (induction c rule: kill_line.induct)
  case (1 c)
  show ?case
  proof (cases "cons_e c \<noteq> cons_w c \<and> cons_buf c (unat (cons_e c - 1) mod INPUT_BUF_SIZE) \<noteq> NEWLINE")
    case True
    then have "fst (kill_line c) = fst (kill_line (cons_back c))"
      by (subst kill_line.simps) (simp add: case_prod_beta Let_def)
    then show ?thesis using 1(1) [OF True] cons_back_ok [OF 1(2)] True by simp
  next
    case False
    then have "kill_line c = (c, [])" by (subst kill_line.simps) auto
    then show ?thesis using 1(2) by simp
  qed
qed

lemma cons_store_ok:
  assumes "cons_inv c" and "cons_store ch c = (line, c', out)"
  shows "cons_inv c' \<and> (\<exists>xs. cons_lines c' = cons_lines c @ xs)"
proof (cases "ch \<noteq> 0 \<and> cons_e c - cons_r c < of_nat INPUT_BUF_SIZE")
  case False
  then have "c' = c" using assms(2) by (auto simp: cons_store_def)
  then show ?thesis using assms(1) by simp
next
  case True
  let ?x = "(if ch = 0x0D then 0x0A else ch)" and ?k = "unat (cons_e c - cons_r c)"
  let ?b = "(cons_buf c)(unat (cons_e c) mod INPUT_BUF_SIZE := ucast ?x)"
  have k: "?k < INPUT_BUF_SIZE" using True by (simp add: word_less_nat_alt INPUT_BUF_SIZE_def)
  have le: "unat (cons_w c - cons_r c) \<le> ?k" using assms(1) by (simp add: cons_inv_def)
  have push: "ring_list INPUT_BUF_SIZE ?b (cons_r c) (cons_e c + 1) =
      ring_list INPUT_BUF_SIZE (cons_buf c) (cons_r c) (cons_e c) @ [ucast ?x]"
    using k by (rule cons_ring.push)
  then have l: "unat (cons_e c + 1 - cons_r c) = Suc ?k" by (metis length_append_singleton ring_list_length)
  have old: "cons_lines c = take (unat (cons_w c - cons_r c)) (ring_list INPUT_BUF_SIZE (cons_buf c) (cons_r c) (cons_e c))"
    unfolding cons_lines_def using le by (rule ring_list_take)
  have keep: "ring_list INPUT_BUF_SIZE ?b (cons_r c) (cons_w c) = cons_lines c"
    using ring_list_take [of "cons_w c" "cons_r c" "cons_e c + 1" INPUT_BUF_SIZE ?b] le l push old by simp
  consider "c' = c\<lparr>cons_buf := ?b, cons_e := cons_e c + 1, cons_w := cons_e c + 1\<rparr>"
    | "c' = c\<lparr>cons_buf := ?b, cons_e := cons_e c + 1\<rparr>"
    using assms(2) True by (auto simp: cons_store_def Let_def split: if_splits)
  then show ?thesis
  proof cases
    case 1
    have "cons_lines c' = cons_lines c @ drop (unat (cons_w c - cons_r c)) (ring_list INPUT_BUF_SIZE (cons_buf c) (cons_r c) (cons_e c)) @ [ucast ?x]"
      unfolding 1 cons_lines_def [of "c\<lparr>cons_buf := _, cons_e := _, cons_w := _\<rparr>"] old using push by simp
    then show ?thesis using 1 k l by (auto simp: cons_inv_def)
  next
    case 2
    then show ?thesis using keep k l le by (simp add: cons_inv_def cons_lines_def)
  qed
qed

text \<open>
  C32. Typing never damages input that can already be read: whatever key arrives, the bytes of the
  complete lines stay as they are and new ones are only appended to them, also when the buffer is
  full, when lines are erased and when the counters wrap around; the counters keep their order.
\<close>

theorem consoleintr_keeps_input:
  assumes "cons_inv (kcons s)"
  shows "cons_inv (kcons (consoleintr ch s)) \<and>
     (\<exists>xs. cons_lines (kcons (consoleintr ch s)) = cons_lines (kcons s) @ xs)"
proof -
  have w: "kcons (wakeup c t) = kcons t" for c and t :: "'a cstate_scheme" by (simp add: wakeup_def)
  obtain line c out where st: "cons_store ch (kcons s) = (line, c, out)" by (cases "cons_store ch (kcons s)")
  show ?thesis
    using assms kill_line_ok [OF assms] cons_back_ok [OF assms] cons_store_ok [OF assms st] st
    by (auto simp: consoleintr_def w case_prod_beta Let_def)
qed

theorem consoleintr_keeps_input_witness:
  "let c = \<lparr>cons_buf = (\<lambda>_. 0), cons_r = 0xFFFFFFFF, cons_w = 0xFFFFFFFF, cons_e = 0xFFFFFFFF\<rparr>
   in cons_inv (kcons (consoleintr 0x61 (kstate.extend k0 (cstate.fields c []))))"
  unfolding Let_def
  by (rule consoleintr_keeps_input [THEN conjunct1]) (simp add: cstate.defs kstate.defs cons_inv_def)

end
