(* ===== verification/Uart.thy ===== *)
theory Uart
  imports Console Spinlock
begin

text \<open>
  Console output and the devices behind it: \<open>kernel/uart.c\<close>, \<open>consolewrite\<close> of \<open>kernel/console.c\<close>
  and the register writes of \<open>kernel/plic.c\<close>. What a device register answers when it is read is an
  argument of the operation that reads it. A writer sends a byte, marks the transmitter busy, and
  sleeps until the transmit interrupt. Here \<open>uartwrite\<close> is the part of it a process runs with
  \<open>tx_lock\<close> held, up to its \<open>sleep\<close> or its end: it returns the bytes it has still to send. Theory
  \<open>Uart_Tx\<close> has it step by step, with several writers and the handler interleaved.
\<close>

section \<open>Registers\<close>

definition RHR :: nat where "RHR = 0"
definition THR :: nat where "THR = 0"
definition IER :: nat where "IER = 1"
definition FCR :: nat where "FCR = 2"
definition ISR :: nat where "ISR = 2"
definition LCR :: nat where "LCR = 3"
definition LSR :: nat where "LSR = 5"

definition IER_RX_ENABLE :: uint8 where "IER_RX_ENABLE = push_bit 0 1"
definition IER_TX_ENABLE :: uint8 where "IER_TX_ENABLE = push_bit 1 1"
definition FCR_FIFO_ENABLE :: uint8 where "FCR_FIFO_ENABLE = push_bit 0 1"
definition FCR_FIFO_CLEAR :: uint8 where "FCR_FIFO_CLEAR = push_bit 1 3"
definition LCR_EIGHT_BITS :: uint8 where "LCR_EIGHT_BITS = push_bit 0 3"
definition LCR_BAUD_LATCH :: uint8 where "LCR_BAUD_LATCH = push_bit 7 1"
definition LSR_RX_READY :: uint8 where "LSR_RX_READY = push_bit 0 1"
definition LSR_TX_IDLE :: uint8 where "LSR_TX_IDLE = push_bit 5 1"

text \<open>The register writes of \<open>uartinit\<close>, in their order.\<close>

definition uartinit :: "(nat \<times> uint8) list" where
  "uartinit =
     [(IER, 0x00), (LCR, LCR_BAUD_LATCH), (0, 0x03), (1, 0x00), (LCR, LCR_EIGHT_BITS),
      (FCR, FCR_FIFO_ENABLE OR FCR_FIFO_CLEAR), (IER, IER_TX_ENABLE OR IER_RX_ENABLE)]"

section \<open>The interrupt controller\<close>

definition PLIC_SENABLE :: "nat \<Rightarrow> uint64" where "PLIC_SENABLE hart = PLIC + 0x2080 + of_nat hart * 0x100"
definition PLIC_SPRIORITY :: "nat \<Rightarrow> uint64" where "PLIC_SPRIORITY hart = PLIC + 0x201000 + of_nat hart * 0x2000"
definition PLIC_SCLAIM :: "nat \<Rightarrow> uint64" where "PLIC_SCLAIM hart = PLIC + 0x201004 + of_nat hart * 0x2000"

text \<open>The 32-bit register writes of each operation; \<open>rd\<close> answers the read of \<open>plic_claim\<close>.\<close>

definition plicinit :: "(uint64 \<times> uint32) list" where
  "plicinit = [(PLIC + ucast UART0_IRQ * 4, 1), (PLIC + ucast VIRTIO0_IRQ * 4, 1)]"

definition plicinithart :: "nat \<Rightarrow> (uint64 \<times> uint32) list" where
  "plicinithart hart =
     [(PLIC_SENABLE hart, push_bit (unat UART0_IRQ) 1 OR push_bit (unat VIRTIO0_IRQ) 1), (PLIC_SPRIORITY hart, 0)]"

definition plic_claim :: "(uint64 \<Rightarrow> uint32) \<Rightarrow> nat \<Rightarrow> uint32" where
  "plic_claim rd hart = rd (PLIC_SCLAIM hart)"

definition plic_complete :: "nat \<Rightarrow> uint32 \<Rightarrow> (uint64 \<times> uint32) list" where
  "plic_complete hart irq = [(PLIC_SCLAIM hart, irq)]"

section \<open>The transmitter\<close>

record ustate = cstate +
  tx_busy :: bool

definition send_byte :: "uint8 \<Rightarrow> 'a cstate_scheme \<Rightarrow> 'a cstate_scheme" where
  "send_byte c s = s\<lparr>uart_tx := uart_tx s @ [char_of (unat c)]\<rparr>"

primrec uartwrite :: "uint8 list \<Rightarrow> 'a ustate_scheme \<Rightarrow> uint8 list \<times> 'a ustate_scheme" where
  "uartwrite [] s = ([], s)"
| "uartwrite (c # cs) s =
     (if tx_busy s then (c # cs, sleep_enter ChTx s)
      else uartwrite cs ((send_byte c s)\<lparr>tx_busy := True\<rparr>))"

text \<open>
  \<open>uartputc_sync\<close> on the CPU that calls it. \<open>lsr k\<close> is what the line status register answers at its
  \<open>k\<close>-th read; \<open>None\<close> is a wait without an end, as in the loop once another CPU has panicked.
\<close>

partial_function (option) wait_idle :: "(nat \<Rightarrow> uint8) \<Rightarrow> nat \<Rightarrow> nat option" where
  "wait_idle lsr k = (if lsr k AND LSR_TX_IDLE = 0 then wait_idle lsr (Suc k) else Some k)"

definition uartputc_sync :: "bool \<Rightarrow> bool \<Rightarrow> (nat \<Rightarrow> uint8) \<Rightarrow> uint32 \<Rightarrow> cpu \<times> 'a cstate_scheme \<Rightarrow> (cpu \<times> 'a cstate_scheme) res option" where
  "uartputc_sync panicking panicked lsr c cs =
     (let (cp, s) = cs; cp = (if \<not> panicking then push_off cp else cp) in
      if panicked then None
      else
        case wait_idle lsr 0 of
          None \<Rightarrow> None
        | Some _ \<Rightarrow>
            let s = send_byte (ucast c) s in
            Some (bindr (if \<not> panicking then pop_off cp else Ok cp) (\<lambda>cp. Ok (cp, s))))"

section \<open>The interrupt\<close>

text \<open>The receiver holds \<open>rx\<close>; \<open>uartgetc\<close> takes its first byte, if there is one.\<close>

definition uartgetc :: "uint8 list \<Rightarrow> int \<times> uint8 list" where
  "uartgetc rx = (case rx of [] \<Rightarrow> (-1, []) | c # rx \<Rightarrow> (int (unat c), rx))"

function uart_input :: "uint8 list \<Rightarrow> 'a cstate_scheme \<Rightarrow> 'a cstate_scheme" where
  "uart_input rx s = (let (c, rx') = uartgetc rx in if c = -1 then s else uart_input rx' (consoleintr (of_int c) s))"
  by pat_completeness auto
termination
  by (relation "measure (length \<circ> fst)") (auto simp: uartgetc_def split: list.splits)

declare uart_input.simps [simp del]

definition uartintr :: "uint8 \<Rightarrow> uint8 list \<Rightarrow> 'a ustate_scheme \<Rightarrow> 'a ustate_scheme" where
  "uartintr lsr rx s = uart_input rx (if lsr AND LSR_TX_IDLE \<noteq> 0 then wakeup ChTx (s\<lparr>tx_busy := False\<rparr>) else s)"

section \<open>Writing to the console\<close>

text \<open>
  \<open>consolewrite\<close> returns, or waits with \<open>i\<close> bytes done, a batch of \<open>nn\<close> in hand and \<open>rest\<close> of the
  batch to send; \<open>consolewrite_resume\<close> continues from there when the process has been woken.
\<close>

datatype cw_outcome = CRet int | CWait int int "uint8 list"

function consolewrite_from :: "bool \<Rightarrow> uint64 \<Rightarrow> int \<Rightarrow> int \<Rightarrow> 'a ustate_scheme \<Rightarrow> (cw_outcome \<times> 'a ustate_scheme) res" where
  "consolewrite_from user_src src n i s =
     (if i < n then
        let nn = (if 32 > n - i then n - i else 32) in
        bindr (either_copyin user_src (src + of_int i) (nat nn) s) (\<lambda>(r, buf, s).
          if r = -1 then Ok (CRet i, s)
          else
            let (rest, s) = uartwrite buf s in
            if rest = [] then consolewrite_from user_src src n (i + nn) s
            else Ok (CWait i nn rest, s))
      else Ok (CRet i, s))"
  by pat_completeness auto
termination
  by (relation "measure (\<lambda>(_, _, n, i, _). nat (n - i))") auto

declare consolewrite_from.simps [simp del]

definition consolewrite :: "bool \<Rightarrow> uint64 \<Rightarrow> int \<Rightarrow> 'a ustate_scheme \<Rightarrow> (cw_outcome \<times> 'a ustate_scheme) res" where
  "consolewrite user_src src n s = consolewrite_from user_src src n 0 s"

definition consolewrite_resume ::
    "bool \<Rightarrow> uint64 \<Rightarrow> int \<Rightarrow> int \<Rightarrow> int \<Rightarrow> uint8 list \<Rightarrow> 'a ustate_scheme \<Rightarrow> (cw_outcome \<times> 'a ustate_scheme) res" where
  "consolewrite_resume user_src src n i nn rest s =
     (let (rest, s) = uartwrite rest s in
      if rest = [] then consolewrite_from user_src src n (i + nn) s else Ok (CWait i nn rest, s))"

section \<open>Results\<close>

lemma wait_idle_reaches:
  assumes "lsr (k + d) AND LSR_TX_IDLE \<noteq> 0"
  shows "\<exists>j. wait_idle lsr k = Some j"
  using assms
proof (induction d arbitrary: k)
  case (Suc d)
  then show ?case by (subst wait_idle.simps) auto
qed (subst wait_idle.simps, simp)

lemma wait_idle_idle:
  assumes "wait_idle lsr k = Some j"
  shows "lsr j AND LSR_TX_IDLE \<noteq> 0"
  by (rule wait_idle.raw_induct [OF _ assms, where P = "\<lambda>lsr k j. lsr j AND LSR_TX_IDLE \<noteq> 0"]) (simp split: if_splits)

text \<open>
  \<open>uartputc_sync\<close> returns exactly if no CPU has panicked and the transmitter becomes idle.
\<close>

lemma wait_idle_returns_iff: "(\<exists>j. wait_idle lsr 0 = Some j) \<longleftrightarrow> (\<exists>j. lsr j AND LSR_TX_IDLE \<noteq> 0)"
  using wait_idle_idle wait_idle_reaches [of lsr 0] by (metis add_0)

lemma uartputc_sync_returns_iff:
  "uartputc_sync panicking panicked lsr c cs \<noteq> None \<longleftrightarrow> \<not> panicked \<and> (\<exists>j. lsr j AND LSR_TX_IDLE \<noteq> 0)"
  unfolding wait_idle_returns_iff [symmetric] uartputc_sync_def
  by (cases "wait_idle lsr 0") (simp_all add: case_prod_beta Let_def)

definition u0 :: ustate where
  "u0 = kstate.extend k0 \<lparr>kcons = \<lparr>cons_buf = (\<lambda>_. 0), cons_r = 0, cons_w = 0, cons_e = 0\<rparr>, uart_tx = [], tx_busy = True\<rparr>"

end
