(* ===== verification/Virtio.thy ===== *)
theory Virtio
  imports Bio Ring
begin

text \<open>
  \<open>kernel/virtio_disk.c\<close>, the driver of the disk. It shares a table of descriptors and two rings with
  the device. Memory that the device is given the address of is named by what it is: a command
  header \<open>disk.ops[i]\<close>, the data of a buffer, or a status byte \<open>disk.info[i].status\<close>.

  \<open>virtio_disk_rw\<close> sleeps twice, for descriptors and for the completion of its request. It appears as
  \<open>rw_start\<close>, up to the second wait, and \<open>rw_finish\<close>, after it; in between other processes, the
  interrupt handler and the device act.
\<close>

definition NUM :: nat where "NUM = 8"
definition VRING_DESC_F_NEXT :: uint16 where "VRING_DESC_F_NEXT = 1"
definition VRING_DESC_F_WRITE :: uint16 where "VRING_DESC_F_WRITE = 2"
definition VIRTIO_BLK_T_IN :: uint32 where "VIRTIO_BLK_T_IN = 0"
definition VIRTIO_BLK_T_OUT :: uint32 where "VIRTIO_BLK_T_OUT = 1"

datatype dma = NoAddr | OpsAt nat | DataOf nat | StatusOf nat

record virtq_desc =
  d_addr :: dma
  d_len :: uint32
  d_flags :: uint16
  d_next :: uint16

record virtio_blk_req =
  rq_type :: uint32
  rq_reserved :: uint32
  rq_sector :: uint64

text \<open>\<open>struct disk\<close>, with the fields of the two rings, the \<open>disk\<close> field of each buffer and the pending wakeups.\<close>

record vdisk =
  desc :: "nat \<Rightarrow> virtq_desc"
  avail_ring :: "nat \<Rightarrow> uint16"
  avail_idx :: uint16
  used_ring :: "nat \<Rightarrow> uint32"
  used_idx :: uint16
  vfree :: "nat \<Rightarrow> bool"
  seen_idx :: uint16
  info_b :: "nat \<Rightarrow> nat option"
  info_status :: "nat \<Rightarrow> uint8"
  ops :: "nat \<Rightarrow> virtio_blk_req"
  b_disk :: "nat \<Rightarrow> bool"
  vwakes :: "chan list"

abbreviation ch_free :: chan where "ch_free \<equiv> ChDisk 0"
abbreviation ch_buf :: "nat \<Rightarrow> chan" where "ch_buf b \<equiv> ChDisk (Suc b)"

section \<open>Initialisation\<close>

text \<open>
  The registers of the device that initialisation uses. \<open>rd r\<close> is what the device answers when register
  \<open>r\<close> is read; the result has the register writes in their order, the addresses of the three pages
  shared with the device, and the driver at rest.
\<close>

datatype mmio = MAGIC_VALUE | VERSION | DEVICE_ID | VENDOR_ID | DEVICE_FEATURES | DRIVER_FEATURES | QUEUE_SEL
  | QUEUE_NUM_MAX | QUEUE_NUM | QUEUE_READY | STATUS | QUEUE_DESC_LOW | QUEUE_DESC_HIGH | DRIVER_DESC_LOW
  | DRIVER_DESC_HIGH | DEVICE_DESC_LOW | DEVICE_DESC_HIGH

definition S_ACKNOWLEDGE :: uint32 where "S_ACKNOWLEDGE = 1"
definition S_DRIVER :: uint32 where "S_DRIVER = 2"
definition S_DRIVER_OK :: uint32 where "S_DRIVER_OK = 4"
definition S_FEATURES_OK :: uint32 where "S_FEATURES_OK = 8"

definition unwanted_features :: "nat list" where
  "unwanted_features = [5, 7, 11, 12, 27, 29, 28]"

text \<open>\<open>features &= ~(1 << f)\<close> for each of them; the result is stored into a 32-bit register.\<close>

definition negotiate :: "uint32 \<Rightarrow> uint32" where
  "negotiate features = fold (\<lambda>f w. w AND NOT (push_bit f 1)) unwanted_features features"

definition addr_writes :: "mmio \<Rightarrow> mmio \<Rightarrow> uint64 \<Rightarrow> (mmio \<times> uint32) list" where
  "addr_writes lo hi a = [(lo, ucast a), (hi, ucast (drop_bit 32 a))]"

definition vdisk_init :: vdisk where
  "vdisk_init = \<lparr>desc = (\<lambda>_. \<lparr>d_addr = NoAddr, d_len = 0, d_flags = 0, d_next = 0\<rparr>), avail_ring = (\<lambda>_. 0), avail_idx = 0,
     used_ring = (\<lambda>_. 0), used_idx = 0, vfree = (\<lambda>i. i < NUM), seen_idx = 0, info_b = (\<lambda>_. None),
     info_status = (\<lambda>_. 0), ops = (\<lambda>_. \<lparr>rq_type = 0, rq_reserved = 0, rq_sector = 0\<rparr>), b_disk = (\<lambda>_. False), vwakes = []\<rparr>"

definition virtio_disk_init :: "(mmio \<Rightarrow> uint32) \<Rightarrow> 'a kmem_scheme \<Rightarrow>
    ((mmio \<times> uint32) list \<times> (uint64 \<times> uint64 \<times> uint64) \<times> vdisk \<times> 'a kmem_scheme) res" where
  "virtio_disk_init rd s =
     (if rd MAGIC_VALUE \<noteq> 0x74726976 \<or> rd VERSION \<noteq> 2 \<or> rd DEVICE_ID \<noteq> 2 \<or> rd VENDOR_ID \<noteq> 0x554D4551
      then Panic ''could not find virtio disk''
      else if rd STATUS AND S_FEATURES_OK = 0 then Panic ''virtio disk FEATURES_OK unset''
      else if rd QUEUE_READY \<noteq> 0 then Panic ''virtio disk should not be ready''
      else if rd QUEUE_NUM_MAX = 0 then Panic ''virtio disk has no queue 0''
      else if rd QUEUE_NUM_MAX < of_nat NUM then Panic ''virtio disk max queue too short''
      else
        let (d, s) = kalloc s; (a, s) = kalloc s; (u, s) = kalloc s in
        if d = 0 \<or> a = 0 \<or> u = 0 then Panic ''virtio disk kalloc''
        else
          let s = s\<lparr>phys := memset (memset (memset (phys s) d 0 4096) a 0 4096) u 0 4096\<rparr>;
              st2 = S_ACKNOWLEDGE OR S_DRIVER; st3 = st2 OR S_FEATURES_OK
          in Ok ([(STATUS, 0), (STATUS, S_ACKNOWLEDGE), (STATUS, st2),
                  (DRIVER_FEATURES, negotiate (rd DEVICE_FEATURES)), (STATUS, st3), (QUEUE_SEL, 0), (QUEUE_NUM, of_nat NUM)]
                 @ addr_writes QUEUE_DESC_LOW QUEUE_DESC_HIGH d @ addr_writes DRIVER_DESC_LOW DRIVER_DESC_HIGH a
                 @ addr_writes DEVICE_DESC_LOW DEVICE_DESC_HIGH u
                 @ [(QUEUE_READY, 1), (STATUS, rd STATUS OR S_DRIVER_OK)], (d, a, u), vdisk_init, s))"

section \<open>Descriptors\<close>

definition alloc_desc :: "vdisk \<Rightarrow> nat option \<times> vdisk" where
  "alloc_desc v =
     (case scan (vfree v) NUM of
        Some i \<Rightarrow> (Some i, v\<lparr>vfree := (vfree v)(i := False)\<rparr>)
      | None \<Rightarrow> (None, v))"

definition free_desc :: "nat \<Rightarrow> vdisk \<Rightarrow> vdisk res" where
  "free_desc i v =
     (if i \<ge> NUM then Panic ''free_desc 1''
      else if vfree v i then Panic ''free_desc 2''
      else Ok (v\<lparr>desc := (desc v)(i := \<lparr>d_addr = NoAddr, d_len = 0, d_flags = 0, d_next = 0\<rparr>),
                vfree := (vfree v)(i := True), vwakes := vwakes v @ [ch_free]\<rparr>))"

lemma free_desc_less:
  assumes "free_desc i v = Ok v'"
  shows "card {j. j < NUM \<and> \<not> vfree v' j} < card {j. j < NUM \<and> \<not> vfree v j}"
proof -
  have i: "i < NUM" "\<not> vfree v i" "vfree v' = (vfree v)(i := True)"
    using assms by (auto simp: free_desc_def split: if_splits)
  then have "{j. j < NUM \<and> \<not> vfree v' j} = {j. j < NUM \<and> \<not> vfree v j} - {i}" by auto
  then show ?thesis using i by (intro psubset_card_mono) auto
qed

text \<open>The loop ends because a chain that came back to a descriptor would free it twice, which panics.\<close>

function free_chain :: "nat \<Rightarrow> vdisk \<Rightarrow> vdisk res" where
  "free_chain i v =
     (let flag = d_flags (desc v i); nxt = d_next (desc v i) in
      bindr (free_desc i v) (\<lambda>v. if flag AND VRING_DESC_F_NEXT \<noteq> 0 then free_chain (unat nxt) v else Ok v))"
  by pat_completeness auto
termination
  by (relation "measure (\<lambda>(_, v). card {j. j < NUM \<and> \<not> vfree v j})") (auto intro: free_desc_less)

declare free_chain.simps [simp del]

text \<open>The failing paths of \<open>alloc3_desc\<close> give back what it has allocated.\<close>

definition alloc3_desc :: "vdisk \<Rightarrow> ((nat \<times> nat \<times> nat) option \<times> vdisk) res" where
  "alloc3_desc v =
     (case alloc_desc v of
        (None, v) \<Rightarrow> Ok (None, v)
      | (Some i, v) \<Rightarrow>
          (case alloc_desc v of
             (None, v) \<Rightarrow> bindr (free_desc i v) (\<lambda>v. Ok (None, v))
           | (Some j, v) \<Rightarrow>
               (case alloc_desc v of
                  (None, v) \<Rightarrow> bindr (free_desc i v) (\<lambda>v. bindr (free_desc j v) (\<lambda>v. Ok (None, v)))
                | (Some k, v) \<Rightarrow> Ok (Some (i, j, k), v))))"

section \<open>Requests\<close>

text \<open>\<open>b->blockno * (BSIZE / 512)\<close> is computed in 32 bits.\<close>

definition sector_of :: "uint32 \<Rightarrow> uint64" where
  "sector_of blockno = ucast (blockno * of_nat (BSIZE div 512))"

text \<open>Formatting the three descriptors and making them available.\<close>

definition format_chain :: "nat \<Rightarrow> nat \<Rightarrow> nat \<Rightarrow> nat \<Rightarrow> uint32 \<Rightarrow> bool \<Rightarrow> vdisk \<Rightarrow> vdisk" where
  "format_chain i0 i1 i2 b blockno wr v =
     (let v = v\<lparr>ops := (ops v)(i0 := \<lparr>rq_type = (if wr then VIRTIO_BLK_T_OUT else VIRTIO_BLK_T_IN), rq_reserved = 0,
                   rq_sector = sector_of blockno\<rparr>)\<rparr>;
          v = v\<lparr>desc := (desc v)(i0 := \<lparr>d_addr = OpsAt i0, d_len = 16, d_flags = VRING_DESC_F_NEXT, d_next = of_nat i1\<rparr>)\<rparr>;
          v = v\<lparr>desc := (desc v)(i1 := \<lparr>d_addr = DataOf b, d_len = of_nat BSIZE,
                   d_flags = (if wr then 0 else VRING_DESC_F_WRITE) OR VRING_DESC_F_NEXT, d_next = of_nat i2\<rparr>)\<rparr>;
          v = v\<lparr>info_status := (info_status v)(i0 := 0xFF)\<rparr>;
          v = v\<lparr>desc := (desc v)(i2 := \<lparr>d_addr = StatusOf i0, d_len = 1, d_flags = VRING_DESC_F_WRITE, d_next = 0\<rparr>)\<rparr>
      in v\<lparr>b_disk := (b_disk v)(b := True), info_b := (info_b v)(i0 := Some b)\<rparr>)"

definition submit_chain :: "nat \<Rightarrow> vdisk \<Rightarrow> vdisk" where
  "submit_chain i0 v =
     v\<lparr>avail_ring := (avail_ring v)(unat (avail_idx v) mod NUM := of_nat i0), avail_idx := avail_idx v + 1\<rparr>"

text \<open>
  \<open>virtio_disk_rw\<close> up to its second wait: the head of its chain. \<open>None\<close> is going to sleep for free
  descriptors, after which the call starts again.
\<close>

definition rw_start :: "nat \<Rightarrow> uint32 \<Rightarrow> bool \<Rightarrow> vdisk \<Rightarrow> (nat option \<times> vdisk) res" where
  "rw_start b blockno wr v =
     bindr (alloc3_desc v) (\<lambda>(r, v).
       case r of
         None \<Rightarrow> Ok (None, v)
       | Some (i0, i1, i2) \<Rightarrow> Ok (Some i0, submit_chain i0 (format_chain i0 i1 i2 b blockno wr v)))"

text \<open>After the wait, when \<open>b->disk\<close> is no longer set.\<close>

definition rw_finish :: "nat \<Rightarrow> vdisk \<Rightarrow> vdisk res" where
  "rw_finish i0 v = free_chain i0 (v\<lparr>info_b := (info_b v)(i0 := None)\<rparr>)"

text \<open>The interrupt handler; it does not depend on the registers it acknowledges.\<close>

function virtio_disk_intr :: "vdisk \<Rightarrow> vdisk res" where
  "virtio_disk_intr v =
     (if seen_idx v \<noteq> used_idx v then
        let i = unat (used_ring v (unat (seen_idx v) mod NUM)) in
        if info_status v i \<noteq> 0 then Panic ''virtio_disk_intr status''
        else
          (case info_b v i of
             None \<Rightarrow> Panic ''kerneltrap''
           | Some b \<Rightarrow>
               virtio_disk_intr (v\<lparr>b_disk := (b_disk v)(b := False), vwakes := vwakes v @ [ch_buf b],
                                   seen_idx := seen_idx v + 1\<rparr>))
      else Ok v)"
  by pat_completeness auto
termination
proof (relation "measure (\<lambda>v. unat (used_idx v - seen_idx v))", simp)
  fix v i b x
  assume "seen_idx v \<noteq> used_idx v"
  from ring_pop [OF this, of 1 "\<lambda>_. ()"] have "Suc (unat (used_idx v - (seen_idx v + 1))) = unat (used_idx v - seen_idx v)"
    by (metis length_Cons ring_list_length)
  then show "(v\<lparr>b_disk := (b_disk v)(b := False), vwakes := vwakes v @ [ch_buf b], seen_idx := seen_idx v + 1\<rparr>, v)
    \<in> measure (\<lambda>v. unat (used_idx v - seen_idx v))"
    by simp
qed

declare virtio_disk_intr.simps [simp del]

section \<open>The device\<close>

text \<open>
  The system of driver and device: the blocks and buffers of the layer above, the driver, and of
  the device how far it has read the ring of available requests and which requests it is serving.
  Two fields only record: \<open>asked\<close> whether the process whose chain starts at a head asked for a write,
  \<open>reported\<close> the status with which the device completed the last request at a head.
\<close>

record vsys = bstate +
  drv :: vdisk
  dev_idx :: uint16
  dev_q :: "nat list"
  asked :: "nat \<Rightarrow> bool"
  reported :: "nat \<Rightarrow> uint8"

text \<open>
  The documented effect of a request that succeeds, byte by byte: \<open>len\<close> bytes from sector
  \<open>rq_sector\<close> on, from the buffer if its descriptor is one the device reads, or into it if it is one the
  device writes.
\<close>

definition transfer :: "virtio_blk_req \<Rightarrow> nat \<Rightarrow> uint32 \<Rightarrow> uint16 \<Rightarrow> 'a vsys_scheme \<Rightarrow> 'a vsys_scheme" where
  "transfer rq b len flags s =
     (let base = unat (rq_sector rq) * 512; data = b_data (bufs s b) in
      if rq_type rq = VIRTIO_BLK_T_OUT \<and> flags AND VRING_DESC_F_WRITE = 0 then
        let dk = (\<lambda>blk off. let a = unat blk * BSIZE + off in
                    if off < BSIZE \<and> base \<le> a \<and> a < base + unat len then data (a - base) else disk s blk off);
            n = of_nat (base div BSIZE)
        in s\<lparr>disk := dk, dtrace := dtrace s @ [(n, dk n)]\<rparr>
      else if rq_type rq = VIRTIO_BLK_T_IN \<and> flags AND VRING_DESC_F_WRITE \<noteq> 0 then
        set_buf b ((bufs s b)\<lparr>b_data := (\<lambda>off. if off < unat len
          then disk s (of_nat ((base + off) div BSIZE)) ((base + off) mod BSIZE) else data off)\<rparr>) s
      else s)"

text \<open>
  The device completes the request at head \<open>h\<close> with status \<open>st\<close>: it follows the chain, transfers, stores
  the status where the last descriptor allows it to write, and puts the head on the used ring. A
  request that fails, with any status other than 0, may leave anything on the disk and in the
  buffer; so may one that asks for more bytes than a buffer has.
\<close>

definition served :: "nat \<Rightarrow> uint8 \<Rightarrow> 'a vsys_scheme \<Rightarrow> 'a vsys_scheme \<Rightarrow> bool" where
  "served h st s s' \<longleftrightarrow>
     (let v = drv s; d0 = desc v h; d1 = desc v (unat (d_next d0)); d2 = desc v (unat (d_next d1)) in
      case (d_addr d0, d_addr d1, d_addr d2) of
        (OpsAt k, DataOf b, StatusOf j) \<Rightarrow>
          (\<exists>dk bd tr.
             (st = 0 \<and> unat (d_len d1) \<le> BSIZE \<longrightarrow>
                (let t = transfer (ops v k) b (d_len d1) (d_flags d1) s in
                 dk = disk t \<and> bd = b_data (bufs t b) \<and> tr = dtrace t)) \<and>
             s' = s\<lparr>disk := dk, bufs := (bufs s)(b := (bufs s b)\<lparr>b_data := bd\<rparr>), dtrace := tr,
                    drv := v\<lparr>info_status := (if d_flags d2 AND VRING_DESC_F_WRITE \<noteq> 0 \<and> d_len d2 \<noteq> 0
                                then (info_status v)(j := st) else info_status v),
                             used_ring := (used_ring v)(unat (used_idx v) mod NUM := of_nat h), used_idx := used_idx v + 1\<rparr>,
                    dev_q := remove1 h (dev_q s), reported := (reported s)(h := st)\<rparr>)
      | _ \<Rightarrow> False)"

text \<open>
  A step of a device that conforms to the specification: it takes a request, or completes one of
  those it has taken, in any order and with any status.
\<close>

definition device_conforms :: "('a vsys_scheme \<Rightarrow> 'a vsys_scheme \<Rightarrow> bool) \<Rightarrow> bool" where
  "device_conforms dev \<longleftrightarrow>
     (\<forall>s s'. dev s s' \<longrightarrow>
        (dev_idx s \<noteq> avail_idx (drv s) \<and>
           s' = s\<lparr>dev_idx := dev_idx s + 1, dev_q := dev_q s @ [unat (avail_ring (drv s) (unat (dev_idx s) mod NUM))]\<rparr>) \<or>
        (\<exists>h\<in>set (dev_q s). \<exists>st. served h st s s'))"

text \<open>
  Steps of the whole system. A process starts a request for a buffer it has locked, so that there
  is none for it yet; the cache changes only buffers that are not being transferred.
\<close>

inductive vstep :: "('a vsys_scheme \<Rightarrow> 'a vsys_scheme \<Rightarrow> bool) \<Rightarrow> 'a vsys_scheme \<Rightarrow> 'a vsys_scheme \<Rightarrow> bool"
  for dev where
  vstep_start:
    "rw_start b (b_blockno (bufs s b)) wr (drv s) = Ok (r, v) \<Longrightarrow> (\<And>h. info_b (drv s) h \<noteq> Some b) \<Longrightarrow>
     b_blockno (bufs s b) < 2 ^ 31 \<Longrightarrow>
     vstep dev s (s\<lparr>drv := v, asked := (case r of Some h \<Rightarrow> (asked s)(h := wr) | None \<Rightarrow> asked s)\<rparr>)"
| vstep_finish:
    "info_b (drv s) h = Some b \<Longrightarrow> \<not> b_disk (drv s) b \<Longrightarrow> rw_finish h (drv s) = Ok v \<Longrightarrow> vstep dev s (s\<lparr>drv := v\<rparr>)"
| vstep_intr: "virtio_disk_intr (drv s) = Ok v \<Longrightarrow> vstep dev s (s\<lparr>drv := v\<rparr>)"
| vstep_device: "dev s s' \<Longrightarrow> vstep dev s s'"
| vstep_cache:
    "(\<And>h b. info_b (drv s) h = Some b \<Longrightarrow> bs b = bufs s b) \<Longrightarrow> vstep dev s (s\<lparr>bufs := bs\<rparr>)"

inductive_cases vstepE: "vstep dev s s'"

definition vinit :: "'a vsys_scheme \<Rightarrow> bool" where
  "vinit s \<longleftrightarrow> dev_idx s = 0 \<and> dev_q s = [] \<and>
     (let v = drv s in avail_idx v = 0 \<and> used_idx v = 0 \<and> seen_idx v = 0 \<and> (\<forall>i. vfree v i = (i < NUM)) \<and>
        info_b v = (\<lambda>_. None) \<and> b_disk v = (\<lambda>_. False))"

inductive vreach :: "('a vsys_scheme \<Rightarrow> 'a vsys_scheme \<Rightarrow> bool) \<Rightarrow> 'a vsys_scheme \<Rightarrow> bool" for dev where
  vreach_init: "vinit s \<Longrightarrow> vreach dev s"
| vreach_step: "vreach dev s \<Longrightarrow> vstep dev s s' \<Longrightarrow> vreach dev s'"

section \<open>The invariant\<close>

text \<open>A request in progress: its three descriptors, its buffer and its direction.\<close>

record vreq =
  q_h :: nat
  q_m :: nat
  q_t :: nat
  q_b :: nat
  q_w :: bool

definition descs :: "vreq \<Rightarrow> nat list" where
  "descs q = [q_h q, q_m q, q_t q]"

definition chain_ok :: "vdisk \<Rightarrow> (nat \<Rightarrow> uint32) \<Rightarrow> vreq \<Rightarrow> bool" where
  "chain_ok v bn q \<longleftrightarrow>
     d_addr (desc v (q_h q)) = OpsAt (q_h q) \<and> d_flags (desc v (q_h q)) AND VRING_DESC_F_NEXT \<noteq> 0 \<and>
     d_next (desc v (q_h q)) = of_nat (q_m q) \<and>
     d_addr (desc v (q_m q)) = DataOf (q_b q) \<and> d_flags (desc v (q_m q)) AND VRING_DESC_F_NEXT \<noteq> 0 \<and>
     d_len (desc v (q_m q)) = of_nat BSIZE \<and>
     (q_w q \<longleftrightarrow> d_flags (desc v (q_m q)) AND VRING_DESC_F_WRITE = 0) \<and> d_next (desc v (q_m q)) = of_nat (q_t q) \<and>
     d_addr (desc v (q_t q)) = StatusOf (q_h q) \<and> d_flags (desc v (q_t q)) AND VRING_DESC_F_NEXT = 0 \<and>
     d_flags (desc v (q_t q)) AND VRING_DESC_F_WRITE \<noteq> 0 \<and> d_len (desc v (q_t q)) = 1 \<and>
     info_b v (q_h q) = Some (q_b q) \<and>
     rq_type (ops v (q_h q)) = (if q_w q then VIRTIO_BLK_T_OUT else VIRTIO_BLK_T_IN) \<and>
     rq_sector (ops v (q_h q)) = sector_of (bn (q_b q)) \<and> bn (q_b q) < 2 ^ 31"

text \<open>
  The requests that are not yet seen by the interrupt handler: those in the ring of available ones,
  those the device is serving and those in the used ring.
\<close>

definition done_heads :: "vdisk \<Rightarrow> nat list" where
  "done_heads v = map unat (ring_list NUM (used_ring v) (seen_idx v) (used_idx v))"

definition pend :: "vdisk \<Rightarrow> uint16 \<Rightarrow> nat list \<Rightarrow> nat list" where
  "pend v di dq = map unat (ring_list NUM (avail_ring v) di (avail_idx v)) @ dq @ done_heads v"

definition owned :: "vreq list \<Rightarrow> nat list" where
  "owned cs = concat (map descs cs)"

definition vinv :: "(nat \<Rightarrow> uint8) \<Rightarrow> vdisk \<Rightarrow> (nat \<Rightarrow> uint32) \<Rightarrow> uint16 \<Rightarrow> nat list \<Rightarrow> vreq list \<Rightarrow> bool" where
  "vinv rep v bn di dq cs \<longleftrightarrow>
     distinct (owned cs) \<and> (\<forall>i\<in>set (owned cs). i < NUM) \<and> (\<forall>i. vfree v i \<longleftrightarrow> i < NUM \<and> i \<notin> set (owned cs)) \<and>
     (\<forall>q\<in>set cs. chain_ok v bn q) \<and> (\<forall>i. info_b v i \<noteq> None \<longrightarrow> i \<in> q_h ` set cs) \<and> distinct (map q_b cs) \<and>
     distinct (pend v di dq) \<and> set (pend v di dq) \<subseteq> q_h ` set cs \<and>
     (\<forall>q\<in>set cs. q_h q \<in> set (pend v di dq) \<longrightarrow> b_disk v (q_b q)) \<and> (\<forall>h\<in>set (done_heads v). info_status v h = rep h)"

interpretation vring: ring NUM "TYPE(16)"
  by unfold_locales (simp_all add: NUM_def)

lemma heads_owned: "q_h ` set cs \<subseteq> set (owned cs)"
  by (auto simp: owned_def descs_def)

lemma owned_mem: "q \<in> set cs \<Longrightarrow> set (descs q) \<subseteq> set (owned cs)"
  by (auto simp: owned_def)

lemma owned_Cons: "owned (q # cs) = q_h q # q_m q # q_t q # owned cs"
  by (simp add: owned_def descs_def)

lemma length_owned: "length (owned cs) = 3 * length cs"
  by (induction cs) (simp_all add: owned_def descs_def)

text \<open>At most two requests are in progress, so the rings never fill up.\<close>

lemma requests_le:
  assumes "vinv rep v bn di dq cs"
  shows "length cs \<le> 2" and "length (pend v di dq) \<le> 2"
proof -
  have "length (owned cs) = card (set (owned cs))" using assms by (simp add: vinv_def distinct_card)
  also have "\<dots> \<le> card {..<NUM}" using assms by (intro card_mono) (auto simp: vinv_def)
  finally show l: "length cs \<le> 2" by (simp add: length_owned NUM_def)
  have "length (pend v di dq) = card (set (pend v di dq))" using assms by (simp add: vinv_def distinct_card)
  also have "\<dots> \<le> card (q_h ` set cs)" using assms by (intro card_mono) (auto simp: vinv_def)
  also have "\<dots> \<le> length cs" by (meson card_image_le card_length finite_set le_trans)
  finally show "length (pend v di dq) \<le> 2" using l by linarith
qed

lemma head_unique:
  assumes "vinv rep v bn di dq cs" and "q \<in> set cs" and "q' \<in> set cs" and "q_h q = q_h q'"
  shows "q = q'"
proof -
  have "chain_ok v bn q" "chain_ok v bn q'" using assms by (auto simp: vinv_def)
  then have "q_b q = q_b q'" using assms(4) by (simp add: chain_ok_def)
  then show ?thesis using assms by (auto simp: vinv_def distinct_map dest: inj_onD)
qed

section \<open>Every step keeps the invariant\<close>

lemma alloc_desc_Some:
  "alloc_desc v = (Some i, v') \<Longrightarrow> i < NUM \<and> vfree v i \<and> v' = v\<lparr>vfree := (vfree v)(i := False)\<rparr>"
  by (auto simp: alloc_desc_def scan_Some_iff split: option.splits)

lemma alloc_desc_None: "alloc_desc v = (None, v') \<Longrightarrow> v' = v"
  by (auto simp: alloc_desc_def split: option.splits)

lemma alloc3_Some:
  assumes "alloc3_desc v = Ok (Some (i, j, k), v')"
  shows "distinct [i, j, k] \<and> i < NUM \<and> j < NUM \<and> k < NUM \<and> vfree v i \<and> vfree v j \<and> vfree v k \<and>
     v' = v\<lparr>vfree := (vfree v)(i := False, j := False, k := False)\<rparr>"
  using assms
  by (auto simp: alloc3_desc_def split: prod.splits option.splits if_splits dest!: alloc_desc_Some)

text \<open>Giving back descriptors that were free before restores the driver, up to the contents of free descriptors.\<close>

definition same_driver :: "vdisk \<Rightarrow> vdisk \<Rightarrow> bool" where
  "same_driver v v' \<longleftrightarrow> (\<exists>ds fr ws. v' = v\<lparr>desc := ds, vfree := fr, vwakes := ws\<rparr> \<and> fr = vfree v \<and>
     (\<forall>i. \<not> vfree v i \<longrightarrow> ds i = desc v i))"

lemma same_driverI:
  "fr = vfree v \<Longrightarrow> \<forall>i. \<not> vfree v i \<longrightarrow> ds i = desc v i \<Longrightarrow> same_driver v (v\<lparr>desc := ds, vfree := fr, vwakes := ws\<rparr>)"
  unfolding same_driver_def by blast

lemma alloc3_total:
  obtains (full) h m t v' where "alloc3_desc v = Ok (Some (h, m, t), v')"
  | (none) v' where "alloc3_desc v = Ok (None, v')" and "same_driver v v'"
proof -
  consider "fst (alloc_desc v) = None" | i v1 where "alloc_desc v = (Some i, v1)" by (cases "alloc_desc v") auto
  then show ?thesis
  proof cases
    case 1
    then have "alloc3_desc v = Ok (None, v)" by (auto simp: alloc3_desc_def alloc_desc_def split: option.splits)
    moreover have "same_driver v v" unfolding same_driver_def by (cases v) auto
    ultimately show ?thesis by (rule none)
  next
    case (2 i v1)
    note i = alloc_desc_Some [OF 2]
    consider "alloc_desc v1 = (None, v1)" | j v2 where "alloc_desc v1 = (Some j, v2)"
      using alloc_desc_None by (cases "alloc_desc v1") (metis option.exhaust)
    then show ?thesis
    proof cases
      case 1
      then have "alloc3_desc v = Ok (None, v\<lparr>desc := (desc v)(i := \<lparr>d_addr = NoAddr, d_len = 0, d_flags = 0, d_next = 0\<rparr>),
          vfree := (vfree v)(i := True), vwakes := vwakes v @ [ch_free]\<rparr>)"
        using 2 i by (simp add: alloc3_desc_def free_desc_def)
      then show ?thesis by (rule none) (rule same_driverI, use i in \<open>auto simp: fun_eq_iff\<close>)
    next
      case (2 j v2)
      note j = alloc_desc_Some [OF 2]
      consider "alloc_desc v2 = (None, v2)" | k v3 where "alloc_desc v2 = (Some k, v3)"
        using alloc_desc_None by (cases "alloc_desc v2") (metis option.exhaust)
      then show ?thesis
      proof cases
        case 1
        let ?z = "\<lparr>d_addr = NoAddr, d_len = 0, d_flags = 0, d_next = 0\<rparr>"
        have "alloc3_desc v = Ok (None, v\<lparr>desc := (desc v)(i := ?z, j := ?z), vfree := (vfree v)(i := True, j := True),
            vwakes := vwakes v @ [ch_free, ch_free]\<rparr>)"
          using \<open>alloc_desc v = _\<close> 2 1 i j by (auto simp: alloc3_desc_def free_desc_def fun_upd_twist)
        then show ?thesis by (rule none) (rule same_driverI, use i j in \<open>auto simp: fun_eq_iff split: if_splits\<close>)
      next
        case (2 k v3)
        then show ?thesis using \<open>alloc_desc v = _\<close> \<open>alloc_desc v1 = _\<close> by (intro full) (simp add: alloc3_desc_def)
      qed
    qed
  qed
qed

lemma pend_cong:
  assumes "avail_ring v' = avail_ring v" "avail_idx v' = avail_idx v" "used_ring v' = used_ring v"
    "seen_idx v' = seen_idx v" "used_idx v' = used_idx v"
  shows "pend v' di dq = pend v di dq" "done_heads v' = done_heads v"
  using assms by (simp_all add: pend_def done_heads_def)

lemma chain_ok_cong:
  assumes "\<And>i. i \<in> set (descs q) \<Longrightarrow> desc v' i = desc v i" "info_b v' (q_h q) = info_b v (q_h q)"
    "ops v' (q_h q) = ops v (q_h q)"
  shows "chain_ok v' bn q = chain_ok v bn q"
proof -
  have "desc v' (q_h q) = desc v (q_h q)" "desc v' (q_m q) = desc v (q_m q)" "desc v' (q_t q) = desc v (q_t q)"
    using assms(1) by (simp_all add: descs_def)
  then show ?thesis using assms(2,3) by (simp add: chain_ok_def)
qed

lemma vinv_same_driver:
  assumes "vinv rep v bn di dq cs" and "same_driver v v'"
  shows "vinv rep v' bn di dq cs"
proof -
  obtain ds fr ws where v': "v' = v\<lparr>desc := ds, vfree := fr, vwakes := ws\<rparr>" "fr = vfree v" "\<And>i. \<not> vfree v i \<Longrightarrow> ds i = desc v i"
    using assms(2) by (auto simp: same_driver_def)
  have "chain_ok v' bn q = chain_ok v bn q" if "q \<in> set cs" for q
    using owned_mem [OF that] assms(1) v' by (intro chain_ok_cong) (auto simp: vinv_def)
  moreover have "pend v' di dq = pend v di dq" "done_heads v' = done_heads v"
    using v' by (auto intro!: pend_cong)
  ultimately show ?thesis using assms(1) v' by (simp add: vinv_def)
qed

lemma start_fields:
  assumes "v' = submit_chain i0 (format_chain i0 i1 i2 b n wr v)"
  shows "avail_ring v' = (avail_ring v)(unat (avail_idx v) mod NUM := of_nat i0)" "avail_idx v' = avail_idx v + 1"
    "used_ring v' = used_ring v" "seen_idx v' = seen_idx v" "used_idx v' = used_idx v" "vfree v' = vfree v"
    "info_b v' = (info_b v)(i0 := Some b)" "b_disk v' = (b_disk v)(b := True)"
    "info_status v' = (info_status v)(i0 := 0xFF)"
    "i \<notin> {i0, i1, i2} \<Longrightarrow> desc v' i = desc v i" "i \<noteq> i0 \<Longrightarrow> ops v' i = ops v i"
  using assms by (simp_all add: submit_chain_def format_chain_def Let_def)

lemma vinv_start:
  assumes inv: "vinv rep v bn di dq cs" and al: "alloc3_desc v = Ok (Some (i0, i1, i2), v1)"
    and fresh: "\<forall>h. info_b v h \<noteq> Some b" and bn: "bn b < 2 ^ 31"
    and v': "v' = submit_chain i0 (format_chain i0 i1 i2 b (bn b) wr v1)"
    and q: "q = \<lparr>q_h = i0, q_m = i1, q_t = i2, q_b = b, q_w = wr\<rparr>"
  shows "vinv rep v' bn di dq (q # cs)"
proof -
  have i: "distinct [i0, i1, i2]" "i0 < NUM" "i1 < NUM" "i2 < NUM" "vfree v i0" "vfree v i1" "vfree v i2"
    and v1: "v1 = v\<lparr>vfree := (vfree v)(i0 := False, i1 := False, i2 := False)\<rparr>"
    using alloc3_Some [OF al] by simp_all
  have new: "j \<notin> set (owned cs)" if "j \<in> {i0, i1, i2}" for j using i inv that by (auto simp: vinv_def)
  note sel = start_fields [OF v']
  have sel1: "avail_ring v1 = avail_ring v" "avail_idx v1 = avail_idx v" "used_ring v1 = used_ring v"
    "seen_idx v1 = seen_idx v" "used_idx v1 = used_idx v" "vfree v1 = (vfree v)(i0 := False, i1 := False, i2 := False)"
    "info_b v1 = info_b v" "b_disk v1 = b_disk v" "info_status v1 = info_status v" "desc v1 = desc v" "ops v1 = ops v"
    by (simp_all add: v1)
  have i0: "i0 \<notin> q_h ` set cs" using new heads_owned by blast
  have old: "chain_ok v' bn x = chain_ok v bn x" if "x \<in> set cs" for x
  proof (rule chain_ok_cong)
    show "desc v' j = desc v j" if "j \<in> set (descs x)" for j
      using that owned_mem [OF \<open>x \<in> set cs\<close>] new by (subst sel) (auto simp: sel1)
    have "q_h x \<noteq> i0" using i0 that by auto
    then show "info_b v' (q_h x) = info_b v (q_h x)" "ops v' (q_h x) = ops v (q_h x)" by (simp_all add: sel sel1)
  qed
  have small: "unat (of_nat j :: uint16) = j" if "j < NUM" for j
    using that by (intro unat_of_nat_small) (simp add: NUM_def)
  have qok: "chain_ok v' bn q"
    using i bn unfolding v' q
    by (simp add: chain_ok_def submit_chain_def format_chain_def Let_def VRING_DESC_F_NEXT_def VRING_DESC_F_WRITE_def)
  have le: "unat (avail_idx v - di) < NUM"
    using requests_le(2) [OF inv] by (simp add: pend_def NUM_def)
  have d: "done_heads v' = done_heads v" by (simp add: done_heads_def sel sel1)
  have p: "pend v' di dq = map unat (ring_list NUM (avail_ring v) di (avail_idx v)) @ i0 # dq @ done_heads v"
    using small i(2) by (simp add: pend_def d sel sel1 vring.push [OF le])
  have ps: "set (pend v' di dq) = insert i0 (set (pend v di dq))" unfolding p by (auto simp: pend_def)
  have dist: "distinct (pend v' di dq)" using i0 inv unfolding p by (auto simp: vinv_def pend_def)
  have bs: "q_b x \<noteq> b" if "x \<in> set cs" for x using inv that fresh by (auto simp: vinv_def chain_ok_def)
  have o: "set (owned (q # cs)) = {i0, i1, i2} \<union> set (owned cs)" by (auto simp: owned_Cons q)
  have "distinct (owned (q # cs))" using inv i new by (auto simp: owned_Cons vinv_def q)
  moreover have "\<forall>j. vfree v' j \<longleftrightarrow> j < NUM \<and> j \<notin> set (owned (q # cs))"
    using inv i unfolding o sel sel1 by (auto simp: vinv_def)
  moreover have "\<forall>j. info_b v' j \<noteq> None \<longrightarrow> j \<in> q_h ` set (q # cs)"
    using inv unfolding sel sel1 by (auto simp: vinv_def q)
  moreover have "\<forall>x\<in>set (q # cs). q_h x \<in> set (pend v' di dq) \<longrightarrow> b_disk v' (q_b x)"
    using inv i0 unfolding ps sel sel1 by (auto simp: vinv_def q)
  moreover have "\<forall>h\<in>set (done_heads v'). info_status v' h = rep h"
  proof
    fix h assume h: "h \<in> set (done_heads v')"
    then have "h \<in> q_h ` set cs" using inv by (auto simp: d vinv_def pend_def)
    then have "h \<noteq> i0" using i0 by auto
    then show "info_status v' h = rep h" using h inv unfolding d sel sel1 by (simp add: vinv_def)
  qed
  moreover have "distinct (map q_b (q # cs))" using inv bs by (auto simp: vinv_def q)
  moreover have "\<forall>j\<in>set (owned (q # cs)). j < NUM" using inv i unfolding o by (auto simp: vinv_def)
  moreover have "\<forall>x\<in>set (q # cs). chain_ok v' bn x" using inv qok old by (simp add: vinv_def)
  moreover have "set (pend v' di dq) \<subseteq> q_h ` set (q # cs)" using inv unfolding ps by (auto simp: vinv_def q)
  ultimately show ?thesis using dist unfolding vinv_def by (intro conjI)
qed

text \<open>Freeing a chain of three.\<close>

lemma free_chain_three:
  assumes c: "chain_ok v bn q" and d: "distinct (descs q)" and n: "\<forall>i\<in>set (descs q). i < NUM \<and> \<not> vfree v i"
    and w: "w = v\<lparr>info_b := ib\<rparr>"
  shows "\<exists>ds ws. free_chain (q_h q) w =
       Ok (w\<lparr>desc := ds, vfree := (vfree v)(q_h q := True, q_m q := True, q_t q := True), vwakes := ws\<rparr>) \<and>
     (\<forall>i. i \<notin> set (descs q) \<longrightarrow> ds i = desc v i)"
proof -
  have i: "q_h q < NUM" "q_m q < NUM" "q_t q < NUM" "\<not> vfree v (q_h q)" "\<not> vfree v (q_m q)" "\<not> vfree v (q_t q)"
    "q_h q \<noteq> q_m q" "q_h q \<noteq> q_t q" "q_m q \<noteq> q_t q"
    using d n by (auto simp: descs_def)
  have small: "unat (of_nat j :: uint16) = j" if "j < NUM" for j
    using that by (intro unat_of_nat_small) (simp add: NUM_def)
  let ?z = "\<lparr>d_addr = NoAddr, d_len = 0, d_flags = 0, d_next = 0\<rparr>"
  let ?ds = "(desc v)(q_h q := ?z, q_m q := ?z, q_t q := ?z)"
  have n1: "d_next (desc v (q_h q)) = of_nat (q_m q)" "d_flags (desc v (q_h q)) AND VRING_DESC_F_NEXT \<noteq> 0"
    "d_next (desc v (q_m q)) = of_nat (q_t q)" "d_flags (desc v (q_m q)) AND VRING_DESC_F_NEXT \<noteq> 0"
    "d_flags (desc v (q_t q)) AND VRING_DESC_F_NEXT = 0"
    using c by (simp_all add: chain_ok_def)
  define w1 where "w1 = w\<lparr>desc := (desc v)(q_h q := ?z), vfree := (vfree v)(q_h q := True), vwakes := vwakes v @ [ch_free]\<rparr>"
  define w2 where "w2 = w1\<lparr>desc := (desc v)(q_h q := ?z, q_m q := ?z), vfree := (vfree v)(q_h q := True, q_m q := True),
      vwakes := vwakes v @ [ch_free, ch_free]\<rparr>"
  have "free_chain (q_h q) w = free_chain (q_m q) w1"
    using i n1 small by (subst free_chain.simps) (simp add: free_desc_def w w1_def Let_def)
  also have "\<dots> = free_chain (q_t q) w2"
    using i n1 small by (subst free_chain.simps) (simp add: free_desc_def w w1_def w2_def Let_def)
  also have "\<dots> = Ok (w\<lparr>desc := ?ds, vfree := (vfree v)(q_h q := True, q_m q := True, q_t q := True),
      vwakes := vwakes v @ [ch_free, ch_free, ch_free]\<rparr>)"
    using i n1 small by (subst free_chain.simps) (simp add: free_desc_def w w1_def w2_def Let_def)
  finally have "free_chain (q_h q) w = Ok (w\<lparr>desc := ?ds, vfree := (vfree v)(q_h q := True, q_m q := True, q_t q := True),
      vwakes := vwakes v @ [ch_free, ch_free, ch_free]\<rparr>)" .
  moreover have "\<forall>i. i \<notin> set (descs q) \<longrightarrow> ?ds i = desc v i" by (auto simp: descs_def)
  ultimately show ?thesis by blast
qed

lemma owned_remove1:
  assumes "q \<in> set cs" and "distinct (owned cs)"
  shows "set (owned (remove1 q cs)) = set (owned cs) - set (descs q) \<and> distinct (owned (remove1 q cs))"
  using assms
proof (induction cs)
  case (Cons x cs)
  show ?case
  proof (cases "x = q")
    case True
    then show ?thesis using Cons.prems(2) by (auto simp: owned_def)
  next
    case False
    then have q: "q \<in> set cs" using Cons.prems(1) by simp
    have dis: "set (descs x) \<inter> set (owned cs) = {}" "distinct (descs x)" "distinct (owned cs)"
      using Cons.prems(2) by (auto simp: owned_def)
    have "set (descs q) \<subseteq> set (owned cs)" using q by (rule owned_mem)
    then show ?thesis using Cons.IH [OF q dis(3)] dis False by (auto simp: owned_def)
  qed
qed simp

lemma vinv_finish:
  assumes inv: "vinv rep v bn di dq cs" and b: "info_b v h = Some b" "\<not> b_disk v b"
  shows "\<exists>v' q. rw_finish h v = Ok v' \<and> q \<in> set cs \<and> q_h q = h \<and> vinv rep v' bn di dq (remove1 q cs)"
proof -
  obtain q where q: "q \<in> set cs" "q_h q = h" using inv b by (force simp: vinv_def)
  have c: "chain_ok v bn q" using inv q by (simp add: vinv_def)
  then have qb: "q_b q = b" using b q by (simp add: chain_ok_def)
  have "distinct (descs q)" using inv q by (auto simp: vinv_def owned_def distinct_concat_iff)
  moreover have "\<forall>i\<in>set (descs q). i < NUM \<and> \<not> vfree v i" using inv owned_mem [OF q(1)] by (auto simp: vinv_def)
  ultimately obtain ds ws where r: "rw_finish h v = Ok (v\<lparr>info_b := (info_b v)(h := None), desc := ds,
       vfree := (vfree v)(q_h q := True, q_m q := True, q_t q := True), vwakes := ws\<rparr>)"
    and ds: "\<forall>i. i \<notin> set (descs q) \<longrightarrow> ds i = desc v i"
    using free_chain_three [OF c _ _ refl, of "(info_b v)(h := None)"] q by (auto simp: rw_finish_def)
  let ?v = "v\<lparr>info_b := (info_b v)(h := None), desc := ds,
       vfree := (vfree v)(q_h q := True, q_m q := True, q_t q := True), vwakes := ws\<rparr>" and ?cs = "remove1 q cs"
  have o: "set (owned ?cs) = set (owned cs) - set (descs q)" "distinct (owned ?cs)"
    using owned_remove1 [OF q(1)] inv by (auto simp: vinv_def)
  have sub: "set ?cs \<subseteq> set cs" by (rule set_remove1_subset)
  have dm: "distinct cs" using inv by (auto simp: vinv_def distinct_map)
  have set: "set ?cs = set cs - {q}" using dm by (rule set_remove1_eq)
  have hh: "q_h x \<noteq> h" if "x \<in> set ?cs" for x
    using head_unique [OF inv _ q(1)] that q(2) unfolding set by auto
  have np: "h \<notin> set (pend v di dq)" using inv q b(2) qb by (auto simp: vinv_def)
  have p: "pend ?v di dq = pend v di dq" "done_heads ?v = done_heads v" by (simp_all add: pend_def done_heads_def)
  have ok: "chain_ok ?v bn x" if x: "x \<in> set ?cs" for x
  proof -
    have "set (descs x) \<inter> set (descs q) = {}" using owned_mem [OF x] o(1) by auto
    then have "chain_ok ?v bn x = chain_ok v bn x"
      using ds hh [OF x] by (intro chain_ok_cong) (auto simp: descs_def)
    then show ?thesis using inv x sub by (auto simp: vinv_def)
  qed
  have "\<forall>i. vfree ?v i \<longleftrightarrow> i < NUM \<and> i \<notin> set (owned ?cs)"
    using inv owned_mem [OF q(1)] unfolding o(1) by (auto simp: vinv_def descs_def)
  moreover have "\<forall>i\<in>set (owned ?cs). i < NUM" using inv unfolding o(1) by (simp add: vinv_def)
  moreover have "\<forall>i. info_b ?v i \<noteq> None \<longrightarrow> i \<in> q_h ` set ?cs"
    using inv q(2) unfolding set by (auto simp: vinv_def)
  moreover have "distinct (map q_b ?cs)"
    using inv dm sub by (auto simp: vinv_def distinct_map intro: inj_on_subset)
  moreover have "set (pend v di dq) \<subseteq> q_h ` set ?cs"
    using inv np q(2) unfolding set by (auto simp: vinv_def)
  ultimately have "vinv rep ?v bn di dq ?cs"
    using inv o(2) ok sub unfolding vinv_def p by (auto dest: subsetD)
  then show ?thesis using r q by blast
qed

lemma vinv_intr:
  assumes "vinv rep v bn di dq cs"
  shows "if \<forall>h\<in>set (done_heads v). rep h = 0
    then \<exists>v'. virtio_disk_intr v = Ok v' \<and> vinv rep v' bn di dq cs \<and> seen_idx v' = used_idx v'
    else virtio_disk_intr v = Panic ''virtio_disk_intr status''"
  using assms
proof (induction v rule: virtio_disk_intr.induct)
  case (1 v)
  show ?case
  proof (cases "seen_idx v = used_idx v")
    case True
    then have "done_heads v = []" by (simp add: done_heads_def)
    moreover have "virtio_disk_intr v = Ok v" using True by (subst virtio_disk_intr.simps) simp
    ultimately show ?thesis using 1(2) True by simp
  next
    case False
    let ?i = "unat (used_ring v (unat (seen_idx v) mod NUM))"
    have d: "done_heads v = ?i # map unat (ring_list NUM (used_ring v) (seen_idx v + 1) (used_idx v))"
      unfolding done_heads_def using ring_pop [OF False, of NUM "used_ring v"] by simp
    have p: "?i \<in> set (pend v di dq)" unfolding pend_def d by simp
    then obtain q where q: "q \<in> set cs" "q_h q = ?i" using 1(2) by (auto simp: vinv_def)
    have st: "info_status v ?i = rep ?i" using 1(2) unfolding vinv_def d by simp
    have b: "info_b v ?i = Some (q_b q)" using 1(2) q by (auto simp: vinv_def chain_ok_def)
    let ?v = "v\<lparr>b_disk := (b_disk v)(q_b q := False), vwakes := vwakes v @ [ch_buf (q_b q)], seen_idx := seen_idx v + 1\<rparr>"
    have pv: "distinct (pend v di dq)" using 1(2) by (simp add: vinv_def)
    have d': "done_heads ?v = map unat (ring_list NUM (used_ring v) (seen_idx v + 1) (used_idx v))" by (simp add: done_heads_def)
    have p': "set (pend v di dq) = insert ?i (set (pend ?v di dq))" "?i \<notin> set (pend ?v di dq)" "distinct (pend ?v di dq)"
      using pv unfolding pend_def d d' by auto
    have ch: "chain_ok ?v bn x = chain_ok v bn x" for x by (rule chain_ok_cong) simp_all
    have disk: "b_disk ?v (q_b x)" if x: "x \<in> set cs" "q_h x \<in> set (pend ?v di dq)" for x
    proof -
      have "x \<noteq> q" using x p'(2) q by auto
      then have "q_b x \<noteq> q_b q" using 1(2) x(1) q(1) by (auto simp: vinv_def distinct_map dest: inj_onD)
      then show ?thesis using 1(2) x unfolding vinv_def p'(1) by auto
    qed
    have vi: "vinv rep ?v bn di dq cs"
      unfolding vinv_def
    proof (intro conjI)
      show "distinct (owned cs)" "\<forall>i\<in>set (owned cs). i < NUM" "\<forall>i. vfree ?v i = (i < NUM \<and> i \<notin> set (owned cs))"
        "\<forall>q\<in>set cs. chain_ok ?v bn q" "\<forall>i. info_b ?v i \<noteq> None \<longrightarrow> i \<in> q_h ` set cs" "distinct (map q_b cs)"
        using 1(2) unfolding vinv_def ch by simp_all
      show "distinct (pend ?v di dq)" by (rule p'(3))
      show "set (pend ?v di dq) \<subseteq> q_h ` set cs" using 1(2) unfolding vinv_def p'(1) by blast
      show "\<forall>q\<in>set cs. q_h q \<in> set (pend ?v di dq) \<longrightarrow> b_disk ?v (q_b q)" using disk by blast
      show "\<forall>h\<in>set (done_heads ?v). info_status ?v h = rep h" using 1(2) unfolding vinv_def d' d by simp
    qed
    show ?thesis
    proof (cases "rep ?i = 0")
      case True
      then have "virtio_disk_intr v = virtio_disk_intr ?v"
        using False st b by (subst virtio_disk_intr.simps) (simp add: Let_def)
      moreover have "(\<forall>h\<in>set (done_heads v). rep h = 0) \<longleftrightarrow> (\<forall>h\<in>set (done_heads ?v). rep h = 0)" unfolding d d' using True by simp
      ultimately show ?thesis using 1(1) [OF False refl _ b vi] st True by simp
    next
      case r: False
      then have "virtio_disk_intr v = Panic ''virtio_disk_intr status''"
        using False st by (subst virtio_disk_intr.simps) (simp add: Let_def)
      then show ?thesis using r unfolding d by simp
    qed
  qed
qed

text \<open>The device takes a request.\<close>

lemma vinv_fetch:
  assumes "vinv rep v bn di dq cs" and "di \<noteq> avail_idx v"
  shows "vinv rep v bn (di + 1) (dq @ [unat (avail_ring v (unat di mod NUM))]) cs"
proof -
  have "pend v (di + 1) (dq @ [unat (avail_ring v (unat di mod NUM))]) =
      map unat (ring_list NUM (avail_ring v) (di + 1) (avail_idx v)) @ dq @ unat (avail_ring v (unat di mod NUM)) # done_heads v"
    "pend v di dq = unat (avail_ring v (unat di mod NUM)) # map unat (ring_list NUM (avail_ring v) (di + 1) (avail_idx v)) @ dq @ done_heads v"
    using ring_pop [OF assms(2), of NUM "avail_ring v"] by (simp_all add: pend_def)
  then have "set (pend v (di + 1) (dq @ [unat (avail_ring v (unat di mod NUM))])) = set (pend v di dq)"
    "distinct (pend v (di + 1) (dq @ [unat (avail_ring v (unat di mod NUM))])) = distinct (pend v di dq)"
    by auto
  then show ?thesis using assms(1) by (simp add: vinv_def)
qed

text \<open>The device completes a request.\<close>

lemma vinv_complete:
  assumes inv: "vinv rep v bn di dq cs" and h: "h \<in> set dq"
    and v': "v' = v\<lparr>info_status := (info_status v)(h := st),
      used_ring := (used_ring v)(unat (used_idx v) mod NUM := of_nat h), used_idx := used_idx v + 1\<rparr>"
  shows "vinv (rep(h := st)) v' bn di (remove1 h dq) cs"
proof -
  have "h \<in> q_h ` set cs" using inv h by (auto simp: vinv_def pend_def)
  then have "h \<in> set (owned cs)" using heads_owned by blast
  then have "h < NUM" using inv by (simp add: vinv_def)
  then have small: "unat (of_nat h :: uint32) = h" by (intro unat_of_nat_small) (simp add: NUM_def)
  have le: "unat (used_idx v - seen_idx v) < NUM"
    using requests_le(2) [OF inv] by (simp add: pend_def done_heads_def NUM_def)
  have d: "done_heads v' = done_heads v @ [h]"
    using small by (simp add: done_heads_def v' vring.push [OF le])
  have ddq: "distinct dq" using inv by (auto simp: vinv_def pend_def)
  have "pend v' di (remove1 h dq) = map unat (ring_list NUM (avail_ring v) di (avail_idx v)) @ remove1 h dq @ done_heads v @ [h]"
    unfolding pend_def d by (simp add: v')
  moreover have "distinct (pend v di dq)" using inv by (simp add: vinv_def)
  ultimately have p: "set (pend v' di (remove1 h dq)) = set (pend v di dq)" "distinct (pend v' di (remove1 h dq))"
    using h unfolding pend_def by (simp_all add: set_remove1_eq [OF ddq] distinct_remove1 ddq) (blast, blast)
  have ch: "chain_ok v' bn x = chain_ok v bn x" for x by (rule chain_ok_cong) (simp_all add: v')
  have sel: "vfree v' = vfree v" "info_b v' = info_b v" "b_disk v' = b_disk v" "info_status v' = (info_status v)(h := st)"
    by (simp_all add: v')
  show ?thesis
    using inv p unfolding vinv_def ch sel by (auto simp: d)
qed

section \<open>Results\<close>

definition vsys_inv :: "'a vsys_scheme \<Rightarrow> vreq list \<Rightarrow> bool" where
  "vsys_inv s cs \<longleftrightarrow> vinv (reported s) (drv s) (\<lambda>b. b_blockno (bufs s b)) (dev_idx s) (dev_q s) cs \<and> (\<forall>q\<in>set cs. asked s (q_h q) = q_w q)"

text \<open>
  Two states with the same disk, buffers and trace of writes. A block is its first \<open>BSIZE\<close> bytes.
\<close>

definition same_block :: "bytes \<Rightarrow> bytes \<Rightarrow> bool" where
  "same_block d d' \<longleftrightarrow> (\<forall>off<BSIZE. d off = d' off)"

definition same_blocks :: "'a bstate_scheme \<Rightarrow> 'a bstate_scheme \<Rightarrow> bool" where
  "same_blocks s t \<longleftrightarrow>
     (\<forall>n. same_block (disk s n) (disk t n)) \<and>
     (\<forall>i. same_block (b_data (bufs s i)) (b_data (bufs t i)) \<and> bufs s i = (bufs t i)\<lparr>b_data := b_data (bufs s i)\<rparr>) \<and>
     list_all2 (\<lambda>x y. fst x = fst y \<and> same_block (snd x) (snd y)) (dtrace s) (dtrace t)"

lemma same_block_refl [simp]: "same_block d d"
  by (simp add: same_block_def)

lemma unat_sector_of:
  assumes "n < 2 ^ 31"
  shows "unat (sector_of n) = unat n * 2"
proof -
  have n: "unat n < 2 ^ 31" using assms by (simp add: word_less_nat_alt)
  then have u: "unat (n * 2) = unat n * 2" by (simp add: unat_word_ariths)
  have "unat (ucast (n * 2) :: uint64) = unat n * 2"
    unfolding unsigned_ucast_eq u using n by (intro take_bit_nat_eq_self) simp
  then show ?thesis by (simp add: sector_of_def BSIZE_def)
qed

text \<open>What a transfer of one block does is what the buffer cache relies on.\<close>

lemma transfer_block:
  assumes n: "n = b_blockno (bufs s b)" "n < 2 ^ 31" and rq: "rq_sector rq = sector_of n"
    "rq_type rq = (if wr then VIRTIO_BLK_T_OUT else VIRTIO_BLK_T_IN)" and f: "wr \<longleftrightarrow> flags AND VRING_DESC_F_WRITE = 0"
  shows "same_blocks (transfer rq b (of_nat BSIZE) flags s) (virtio_transfer s b wr)"
proof -
  have base: "unat (rq_sector rq) * 512 = unat n * BSIZE" using unat_sector_of [OF n(2)] rq(1) by (simp add: BSIZE_def)
  have len: "unat (of_nat BSIZE :: uint32) = BSIZE" by (simp add: BSIZE_def)
  have blk: "of_nat ((unat n * BSIZE) div BSIZE) = n" by (simp add: BSIZE_def)
  show ?thesis
  proof (cases wr)
    case True
    have a: "(unat n * BSIZE \<le> unat m * BSIZE + off \<and> unat m * BSIZE + off < unat n * BSIZE + BSIZE) \<longleftrightarrow> m = n"
      if "off < BSIZE" for m :: uint32 and off
      using that unfolding word_unat_eq_iff BSIZE_def by auto
    have o: "(rq_type rq = VIRTIO_BLK_T_OUT \<and> flags AND VRING_DESC_F_WRITE = 0) = True" using True rq(2) f by simp
    show ?thesis
      unfolding transfer_def Let_def base len blk o if_True
      using True n(1) a
      by (auto simp: same_blocks_def virtio_transfer_def same_block_def Let_def list_all2_append list.rel_refl)
  next
    case False
    have o: "(rq_type rq = VIRTIO_BLK_T_OUT \<and> flags AND VRING_DESC_F_WRITE = 0) = False"
      "(rq_type rq = VIRTIO_BLK_T_IN \<and> flags AND VRING_DESC_F_WRITE \<noteq> 0) = True" using False rq(2) f by simp_all
    have d: "of_nat ((unat n * BSIZE + off) div BSIZE) = n" "(unat n * BSIZE + off) mod BSIZE = off" if "off < BSIZE" for off
      using that by (simp_all add: BSIZE_def)
    show ?thesis
      unfolding transfer_def Let_def base len o if_True if_False
      using False n(1) d
      by (auto simp: same_blocks_def virtio_transfer_def same_block_def Let_def list.rel_refl)
  qed
qed

lemma transfer_keeps: "bufs (transfer rq b len flags s) = (bufs s)(b := (bufs s b)\<lparr>b_data := b_data (bufs (transfer rq b len flags s) b)\<rparr>)"
  by (auto simp: transfer_def Let_def)

lemma served_transfer:
  assumes inv: "vsys_inv s cs" and h: "h \<in> set (dev_q s)" and sv: "served h st s s'"
  shows "\<exists>q\<in>set cs. q_h q = h \<and> vsys_inv s' cs \<and> reported s' h = st \<and> used_idx (drv s') = used_idx (drv s) + 1 \<and>
     (st = 0 \<longrightarrow> same_blocks s' (virtio_transfer s (q_b q) (q_w q)))"
proof -
  obtain q where q: "q \<in> set cs" "q_h q = h" using inv h by (auto simp: vsys_inv_def vinv_def pend_def)
  let ?n = "b_blockno (bufs s (q_b q))" and ?fl = "d_flags (desc (drv s) (q_m q))" and ?rq = "ops (drv s) h"
  have c: "chain_ok (drv s) (\<lambda>b. b_blockno (bufs s b)) q" using inv q by (simp add: vsys_inv_def vinv_def)
  have "set (descs q) \<subseteq> {..<NUM}" using inv owned_mem [OF q(1)] by (auto simp: vsys_inv_def vinv_def)
  then have small: "unat (of_nat (q_m q) :: uint16) = q_m q" "unat (of_nat (q_t q) :: uint16) = q_t q"
    by (auto simp: descs_def NUM_def intro!: unat_of_nat_small)
  have len: "unat (of_nat BSIZE :: uint32) \<le> BSIZE" by (simp add: BSIZE_def)
  let ?v = "(drv s)\<lparr>info_status := (info_status (drv s))(h := st),
      used_ring := (used_ring (drv s))(unat (used_idx (drv s)) mod NUM := of_nat h), used_idx := used_idx (drv s) + 1\<rparr>"
  let ?t = "transfer ?rq (q_b q) (of_nat BSIZE) ?fl s"
  obtain dk bd tr where t: "st = 0 \<Longrightarrow> dk = disk ?t \<and> bd = b_data (bufs ?t (q_b q)) \<and> tr = dtrace ?t"
    and s': "s' = s\<lparr>disk := dk, bufs := (bufs s)(q_b q := (bufs s (q_b q))\<lparr>b_data := bd\<rparr>), dtrace := tr, drv := ?v,
      dev_q := remove1 h (dev_q s), reported := (reported s)(h := st)\<rparr>"
    using sv c q small len unfolding served_def chain_ok_def Let_def by auto
  have sb: "same_blocks s' (virtio_transfer s (q_b q) (q_w q))" if "st = 0"
  proof -
    have "same_blocks ?t (virtio_transfer s (q_b q) (q_w q))"
      by (rule transfer_block [OF refl]) (use c q(2) in \<open>simp_all add: chain_ok_def\<close>)
    moreover have "disk s' = disk ?t" "bufs s' = bufs ?t" "dtrace s' = dtrace ?t"
      using t [OF that] by (simp_all add: s' transfer_keeps [symmetric])
    ultimately show ?thesis by (simp add: same_blocks_def)
  qed
  have "b_blockno (bufs s' b) = b_blockno (bufs s b)" for b by (simp add: s')
  then have "vsys_inv s' cs"
    using vinv_complete [OF _ h refl, of "reported s" "drv s" _ _ cs st] inv by (simp add: vsys_inv_def s')
  then show ?thesis using q sb by (intro bexI [of _ q]) (simp_all add: s')
qed

lemma start_total:
  assumes "vsys_inv s cs" and "\<forall>h. info_b (drv s) h \<noteq> Some b" and "b_blockno (bufs s b) < 2 ^ 31"
  shows "\<exists>r v cs'. rw_start b (b_blockno (bufs s b)) wr (drv s) = Ok (r, v) \<and>
    vsys_inv (s\<lparr>drv := v, asked := (case r of Some h \<Rightarrow> (asked s)(h := wr) | None \<Rightarrow> asked s)\<rparr>) cs'"
proof (cases rule: alloc3_total [of "drv s"])
  case (full h m t v1)
  have "h \<notin> set (owned cs)" using alloc3_Some [OF full] assms(1) by (auto simp: vsys_inv_def vinv_def)
  then have "h \<noteq> q_h q" if "q \<in> set cs" for q using that heads_owned by fastforce
  then have new: "\<forall>q\<in>set cs. (if q_h q = h then wr else asked s (q_h q)) = q_w q" using assms(1) by (auto simp: vsys_inv_def)
  have "rw_start b (b_blockno (bufs s b)) wr (drv s) =
      Ok (Some h, submit_chain h (format_chain h m t b (b_blockno (bufs s b)) wr v1))"
    using full by (simp add: rw_start_def)
  moreover have "vsys_inv (s\<lparr>drv := submit_chain h (format_chain h m t b (b_blockno (bufs s b)) wr v1), asked := (asked s)(h := wr)\<rparr>)
      (\<lparr>q_h = h, q_m = m, q_t = t, q_b = b, q_w = wr\<rparr> # cs)"
    using vinv_start [OF _ full assms(2) _ refl refl, of "reported s" "\<lambda>b. b_blockno (bufs s b)"] assms new
    by (simp add: vsys_inv_def)
  ultimately show ?thesis by (intro exI) auto
next
  case (none v')
  then have "rw_start b (b_blockno (bufs s b)) wr (drv s) = Ok (None, v')" by (simp add: rw_start_def)
  moreover have "vsys_inv (s\<lparr>drv := v', asked := asked s\<rparr>) cs" using vinv_same_driver [OF _ none(2)] assms(1) by (simp add: vsys_inv_def)
  ultimately show ?thesis by (intro exI) auto
qed

lemma vstep_inv:
  assumes dev: "device_conforms dev" and inv: "vsys_inv s cs" and st: "vstep dev s s'"
  shows "\<exists>cs'. vsys_inv s' cs'"
  using st
proof cases
  case (vstep_start b wr r v)
  then show ?thesis using start_total [OF inv, of b wr] by auto
next
  case (vstep_finish h b v)
  obtain v' q where f: "rw_finish h (drv s) = Ok v'" "q \<in> set cs"
    "vinv (reported s) v' (\<lambda>b. b_blockno (bufs s b)) (dev_idx s) (dev_q s) (remove1 q cs)"
    using vinv_finish vstep_finish(2,3) inv unfolding vsys_inv_def by blast
  moreover have "\<forall>x\<in>set (remove1 q cs). asked s (q_h x) = q_w x"
    using inv set_remove1_subset [of q cs] by (auto simp: vsys_inv_def)
  ultimately have "vsys_inv s' (remove1 q cs)" using vstep_finish(1,4) by (simp add: vsys_inv_def)
  then show ?thesis by blast
next
  case (vstep_intr v)
  have vi: "vinv (reported s) (drv s) (\<lambda>b. b_blockno (bufs s b)) (dev_idx s) (dev_q s) cs" using inv by (simp add: vsys_inv_def)
  from vinv_intr [OF vi] vstep_intr(2) have "vinv (reported s) v (\<lambda>b. b_blockno (bufs s b)) (dev_idx s) (dev_q s) cs"
    by (auto split: if_splits)
  then have "vsys_inv s' cs" using inv vstep_intr(1) by (simp add: vsys_inv_def)
  then show ?thesis by blast
next
  case vstep_device
  then consider "dev_idx s \<noteq> avail_idx (drv s)"
      "s' = s\<lparr>dev_idx := dev_idx s + 1, dev_q := dev_q s @ [unat (avail_ring (drv s) (unat (dev_idx s) mod NUM))]\<rparr>"
    | h st where "h \<in> set (dev_q s)" "served h st s s'"
    using dev unfolding device_conforms_def by blast
  then show ?thesis
  proof cases
    case 1
    then have "vsys_inv s' cs" using vinv_fetch [OF _ 1(1)] inv by (simp add: vsys_inv_def)
    then show ?thesis by blast
  next
    case 2
    then show ?thesis using served_transfer [OF inv] by blast
  qed
next
  case (vstep_cache bs)
  have "b_blockno (bs (q_b q)) = b_blockno (bufs s (q_b q))" if "q \<in> set cs" for q
    using vstep_cache(2) [of "q_h q" "q_b q"] inv that by (simp add: vsys_inv_def vinv_def chain_ok_def)
  then have "chain_ok (drv s) (\<lambda>b. b_blockno (bs b)) q = chain_ok (drv s) (\<lambda>b. b_blockno (bufs s b)) q" if "q \<in> set cs" for q
    using that by (simp add: chain_ok_def)
  then have "vsys_inv s' cs" using inv vstep_cache(1) by (simp add: vsys_inv_def vinv_def)
  then show ?thesis by blast
qed

lemma vreach_inv:
  assumes "device_conforms dev" and "vreach dev s"
  shows "\<exists>cs. vsys_inv s cs"
  using assms(2)
proof (induction rule: vreach.induct)
  case (vreach_init s)
  then have "vsys_inv s []"
    by (simp add: vsys_inv_def vinv_def vinit_def Let_def owned_def pend_def done_heads_def)
  then show ?case by blast
next
  case (vreach_step s s')
  then show ?case using vstep_inv [OF assms(1)] by blast
qed

text \<open>A driver at rest, a device that takes requests in order, and a state after one request was started.\<close>

definition vsys0 :: vsys where
  "vsys0 = bstate.extend cache0 (vsys.fields vdisk_init 0 [] (\<lambda>_. False) (\<lambda>_. 0))"

definition device0 :: "vsys \<Rightarrow> vsys \<Rightarrow> bool" where
  "device0 s s' \<longleftrightarrow>
     dev_idx s \<noteq> avail_idx (drv s) \<and>
       s' = s\<lparr>dev_idx := dev_idx s + 1, dev_q := dev_q s @ [unat (avail_ring (drv s) (unat (dev_idx s) mod NUM))]\<rparr> \<or>
     dev_q s \<noteq> [] \<and> served (hd (dev_q s)) 0 s s'"

lemma device0_conforms: "device_conforms device0"
  unfolding device_conforms_def device0_def by (metis list.set_sel(1))

lemma vsys0_sel: "drv vsys0 = vdisk_init" "dev_idx vsys0 = 0" "dev_q vsys0 = []" "bufs vsys0 = bufs cache0" "asked vsys0 = (\<lambda>_. False)"
  by (simp_all add: vsys0_def bstate.defs vsys.defs)

lemma vsys0_reach: "vreach device0 vsys0"
  by (rule vreach_init) (simp add: vinit_def vsys0_sel vdisk_init_def)

definition vdisk1 :: vdisk where
  "vdisk1 = submit_chain 0 (format_chain 0 1 2 3 0 True (vdisk_init\<lparr>vfree := (vfree vdisk_init)(0 := False, 1 := False, 2 := False)\<rparr>))"

definition vsys1 :: vsys where
  "vsys1 = vsys0\<lparr>drv := vdisk1, asked := (\<lambda>_. False)(0 := True)\<rparr>"

lemma vsys1_reach: "vreach device0 vsys1"
proof -
  have f: "vfree vdisk_init = (\<lambda>i. i < NUM)" by (simp add: vdisk_init_def)
  have a: "alloc_desc (vdisk_init\<lparr>vfree := g\<rparr>) = (Some i, vdisk_init\<lparr>vfree := g(i := False)\<rparr>)"
    if "i < NUM" "g i" "\<forall>j<i. \<not> g j" for g i
    using that scan_Some_iff [of g NUM i] by (simp add: alloc_desc_def)
  have v: "vdisk_init = vdisk_init\<lparr>vfree := (\<lambda>i. i < NUM)\<rparr>" by (simp add: vdisk_init_def)
  have "alloc_desc vdisk_init = (Some 0, vdisk_init\<lparr>vfree := (\<lambda>i. i < NUM)(0 := False)\<rparr>)"
    by (subst v) (rule a, simp_all add: NUM_def)
  moreover have "alloc_desc (vdisk_init\<lparr>vfree := (\<lambda>i. i < NUM)(0 := False)\<rparr>) = (Some 1, vdisk_init\<lparr>vfree := (\<lambda>i. i < NUM)(0 := False, 1 := False)\<rparr>)"
    by (rule a) (simp_all add: NUM_def)
  moreover have "alloc_desc (vdisk_init\<lparr>vfree := (\<lambda>i. i < NUM)(0 := False, 1 := False)\<rparr>) =
      (Some 2, vdisk_init\<lparr>vfree := (\<lambda>i. i < NUM)(0 := False, 1 := False, 2 := False)\<rparr>)"
    by (rule a) (auto simp: NUM_def less_2_cases_iff)
  ultimately have "alloc3_desc vdisk_init = Ok (Some (0, 1, 2), vdisk_init\<lparr>vfree := (vfree vdisk_init)(0 := False, 1 := False, 2 := False)\<rparr>)"
    by (simp add: alloc3_desc_def f)
  moreover have bn: "b_blockno (bufs cache0 3) = 0" by (simp add: cache0_def binit_def)
  ultimately have "rw_start 3 (b_blockno (bufs vsys0 3)) True (drv vsys0) = Ok (Some 0, vdisk1)"
    by (simp add: rw_start_def vsys0_sel vdisk1_def)
  then have "vstep device0 vsys0 (vsys0\<lparr>drv := vdisk1, asked := (case Some 0 of Some h \<Rightarrow> (asked vsys0)(h := True) | None \<Rightarrow> asked vsys0)\<rparr>)"
    by (rule vstep_start) (simp_all add: vsys0_sel bn, simp add: vdisk_init_def)
  then have "vstep device0 vsys0 vsys1" by (simp add: vsys1_def vsys0_sel)
  with vsys0_reach show ?thesis by (rule vreach_step)
qed

text \<open>
  C8. The disk driver has one panic, the deliberate one on a failed request, and never loses a
  descriptor, however processes, interrupts and a device that conforms to its specification
  interleave. In every reachable state a process can start a request for a buffer it has locked (or
  is told to wait), and a process whose request is done can free its chain. The interrupt handler
  runs to its end if the device reported success for every completion the handler has not seen,
  and otherwise panics with the message for a failed request. Each of the \<open>NUM\<close> descriptors is free
  or in exactly one request of three.
\<close>

theorem virtio_never_panics:
  assumes "device_conforms dev" and "vreach dev s"
  shows "(if \<forall>h\<in>set (done_heads (drv s)). reported s h = 0 then \<exists>v. virtio_disk_intr (drv s) = Ok v
        else virtio_disk_intr (drv s) = Panic ''virtio_disk_intr status'') \<and>
     (\<forall>b wr. (\<forall>h. info_b (drv s) h \<noteq> Some b) \<and> b_blockno (bufs s b) < 2 ^ 31 \<longrightarrow>
        (\<exists>r. rw_start b (b_blockno (bufs s b)) wr (drv s) = Ok r)) \<and>
     (\<forall>h b. info_b (drv s) h = Some b \<and> \<not> b_disk (drv s) b \<longrightarrow> (\<exists>v. rw_finish h (drv s) = Ok v)) \<and>
     card {i. i < NUM \<and> vfree (drv s) i} + 3 * card {i. i < NUM \<and> info_b (drv s) i \<noteq> None} = NUM"
proof -
  obtain cs where inv: "vsys_inv s cs" using vreach_inv [OF assms] by blast
  then have v: "vinv (reported s) (drv s) (\<lambda>b. b_blockno (bufs s b)) (dev_idx s) (dev_q s) cs" by (simp add: vsys_inv_def)
  have "{i. i < NUM \<and> vfree (drv s) i} = {..<NUM} - set (owned cs)" using v by (auto simp: vinv_def)
  moreover have "set (owned cs) \<subseteq> {..<NUM}" using v by (auto simp: vinv_def)
  moreover have "card (set (owned cs)) = 3 * length cs" using v by (simp add: vinv_def distinct_card length_owned)
  ultimately have free: "card {i. i < NUM \<and> vfree (drv s) i} + 3 * length cs = NUM"
    using card_Diff_subset [of "set (owned cs)" "{..<NUM}"] card_mono [of "{..<NUM}" "set (owned cs)"] by simp
  have busy: "{i. i < NUM \<and> info_b (drv s) i \<noteq> None} = q_h ` set cs"
  proof (intro set_eqI iffI)
    fix i assume "i \<in> {i. i < NUM \<and> info_b (drv s) i \<noteq> None}"
    then show "i \<in> q_h ` set cs" using v unfolding vinv_def by blast
  next
    fix i assume i: "i \<in> q_h ` set cs"
    then obtain q where q: "q \<in> set cs" "i = q_h q" by blast
    have "i \<in> set (owned cs)" using i heads_owned by blast
    then have "i < NUM" using v by (simp add: vinv_def)
    moreover have "chain_ok (drv s) (\<lambda>b. b_blockno (bufs s b)) q" using v q by (simp add: vinv_def)
    then have "info_b (drv s) i = Some (q_b q)" using q by (simp add: chain_ok_def)
    ultimately show "i \<in> {i. i < NUM \<and> info_b (drv s) i \<noteq> None}" by simp
  qed
  have heads: "card (q_h ` set cs) = length cs"
  proof -
    have "inj_on q_h (set cs)" using head_unique [OF v] by (auto intro: inj_onI)
    moreover have "distinct cs" using v by (auto simp: vinv_def distinct_map)
    ultimately show ?thesis by (simp add: card_image distinct_card)
  qed
  show ?thesis
  proof (intro conjI allI impI)
    show "if \<forall>h\<in>set (done_heads (drv s)). reported s h = 0 then \<exists>v. virtio_disk_intr (drv s) = Ok v
        else virtio_disk_intr (drv s) = Panic ''virtio_disk_intr status''"
      using vinv_intr [OF v] by (auto split: if_splits)
    show "\<exists>r. rw_start b (b_blockno (bufs s b)) wr (drv s) = Ok r"
      if "(\<forall>h. info_b (drv s) h \<noteq> Some b) \<and> b_blockno (bufs s b) < 2 ^ 31" for b wr
      using start_total [OF inv conjunct1 [OF that] conjunct2 [OF that]] by blast
    show "\<exists>v. rw_finish h (drv s) = Ok v" if "info_b (drv s) h = Some b \<and> \<not> b_disk (drv s) b" for h b
      using vinv_finish [OF v conjunct1 [OF that] conjunct2 [OF that]] by blast
    show "card {i. i < NUM \<and> vfree (drv s) i} + 3 * card {i. i < NUM \<and> info_b (drv s) i \<noteq> None} = NUM"
      unfolding busy heads by (rule free)
  qed
qed

lemma vdisk1_sel:
  "avail_idx vdisk1 = 1" "avail_ring vdisk1 0 = 0" "used_idx vdisk1 = 0" "seen_idx vdisk1 = 0"
  "desc vdisk1 0 = \<lparr>d_addr = OpsAt 0, d_len = 16, d_flags = VRING_DESC_F_NEXT, d_next = 1\<rparr>"
  "desc vdisk1 1 = \<lparr>d_addr = DataOf 3, d_len = of_nat BSIZE, d_flags = VRING_DESC_F_NEXT, d_next = 2\<rparr>"
  "desc vdisk1 2 = \<lparr>d_addr = StatusOf 0, d_len = 1, d_flags = VRING_DESC_F_WRITE, d_next = 0\<rparr>"
  "info_b vdisk1 h = (if h = 0 then Some 3 else None)"
  by (simp_all add: vdisk1_def submit_chain_def format_chain_def Let_def vdisk_init_def)

theorem virtio_never_panics_witness:
  "(\<exists>v. virtio_disk_intr vdisk1 = Ok v) \<and> card {i. i < NUM \<and> vfree vdisk1 i} + 3 * card {i. i < NUM \<and> info_b vdisk1 i \<noteq> None} = NUM"
proof -
  have "done_heads vdisk1 = []" by (simp add: done_heads_def vdisk1_sel)
  then show ?thesis using virtio_never_panics [OF device0_conforms vsys1_reach] by (simp add: vsys1_def)
qed

text \<open>
  C11. Driver and device together implement the block transfer that the buffer cache assumes
  (\<open>virtio_transfer\<close> of \<open>Bio\<close>). In every reachable state a step of the device either completes nothing
  and leaves disk, buffers and the trace of writes alone; or it completes a request whose process
  is waiting for it, and if it reports success the bytes of every block and buffer, and the trace,
  are those after \<open>virtio_transfer\<close> of that buffer in the direction its process asked for.
\<close>

theorem virtio_refines_transfer:
  assumes "device_conforms dev" and "vreach dev s" and "dev s s'"
  shows "used_idx (drv s') = used_idx (drv s) \<and> (disk s', bufs s', dtrace s') = (disk s, bufs s, dtrace s) \<or>
     used_idx (drv s') = used_idx (drv s) + 1 \<and>
     (\<exists>h b. h \<in> set (dev_q s) \<and> info_b (drv s) h = Some b \<and> b_disk (drv s) b \<and>
        (reported s' h = 0 \<longrightarrow> same_blocks s' (virtio_transfer s b (asked s h))))"
proof -
  obtain cs where inv: "vsys_inv s cs" using vreach_inv [OF assms(1,2)] by blast
  consider "s' = s\<lparr>dev_idx := dev_idx s + 1, dev_q := dev_q s @ [unat (avail_ring (drv s) (unat (dev_idx s) mod NUM))]\<rparr>"
    | h st where "h \<in> set (dev_q s)" "served h st s s'"
    using assms(1,3) unfolding device_conforms_def by blast
  then show ?thesis
  proof cases
    case 1
    then show ?thesis by simp
  next
    case (2 h st)
    obtain q where q: "q \<in> set cs" "q_h q = h" "reported s' h = st" "used_idx (drv s') = used_idx (drv s) + 1"
      "st = 0 \<longrightarrow> same_blocks s' (virtio_transfer s (q_b q) (q_w q))"
      using served_transfer [OF inv 2] by blast
    have "h \<in> set (pend (drv s) (dev_idx s) (dev_q s))" using 2(1) by (simp add: pend_def)
    then have "info_b (drv s) h = Some (q_b q)" "b_disk (drv s) (q_b q)" "asked s h = q_w q"
      using inv q(1,2) by (auto simp: vsys_inv_def vinv_def chain_ok_def)
    then show ?thesis using 2(1) q(3-5) by (intro disjI2 conjI exI [of _ h] exI [of _ "q_b q"]) simp_all
  qed
qed

lemma served_exists:
  assumes "d_addr (desc (drv s) h) = OpsAt k" "d_addr (desc (drv s) (unat (d_next (desc (drv s) h)))) = DataOf b"
    "d_addr (desc (drv s) (unat (d_next (desc (drv s) (unat (d_next (desc (drv s) h))))))) = StatusOf j"
  shows "\<exists>s'. served h st s s' \<and> used_idx (drv s') = used_idx (drv s) + 1 \<and> reported s' h = st"
proof -
  let ?v = "drv s"
  let ?d1 = "desc ?v (unat (d_next (desc ?v h)))"
  let ?d2 = "desc ?v (unat (d_next ?d1))" and ?t = "transfer (ops ?v k) b (d_len ?d1) (d_flags ?d1) s"
  define u where "u = s\<lparr>disk := disk ?t, bufs := (bufs s)(b := (bufs s b)\<lparr>b_data := b_data (bufs ?t b)\<rparr>), dtrace := dtrace ?t,
      drv := ?v\<lparr>info_status := (if d_flags ?d2 AND VRING_DESC_F_WRITE \<noteq> 0 \<and> d_len ?d2 \<noteq> 0
          then (info_status ?v)(j := st) else info_status ?v),
        used_ring := (used_ring ?v)(unat (used_idx ?v) mod NUM := of_nat h), used_idx := used_idx ?v + 1\<rparr>,
      dev_q := remove1 h (dev_q s), reported := (reported s)(h := st)\<rparr>"
  have "served h st s u"
    unfolding served_def Let_def assms prod.case dma.case
    by (rule exI [of _ "disk ?t"], rule exI [of _ "b_data (bufs ?t b)"], rule exI [of _ "dtrace ?t"]) (simp only: u_def simp_thms)
  moreover have "used_idx (drv u) = used_idx ?v + 1" "reported u h = st" by (simp_all add: u_def)
  ultimately show ?thesis by blast
qed

text \<open>The write of \<open>vsys1\<close> is taken and completed: the disk has the block of the buffer.\<close>

theorem virtio_refines_transfer_witness:
  "\<exists>s s'. vreach device0 s \<and> device0 s s' \<and> used_idx (drv s') = used_idx (drv s) + 1 \<and>
     same_blocks s' (virtio_transfer s 3 True)"
proof -
  let ?s = "vsys1\<lparr>dev_idx := 1, dev_q := [0]\<rparr>"
  have "device0 vsys1 ?s" by (simp add: device0_def vsys1_def vsys0_sel vdisk1_sel)
  then have r: "vreach device0 ?s" using vsys1_reach by (blast intro: vreach_step vstep_device)
  have v: "drv ?s = vdisk1" by (simp add: vsys1_def)
  obtain s' where s': "served 0 0 ?s s'" "used_idx (drv s') = 1" "reported s' 0 = 0"
    using served_exists [of ?s 0 0 3 0 0] unfolding v by (auto simp: vdisk1_sel simp del: One_nat_def)
  have d: "device0 ?s s'" using s'(1) by (simp add: device0_def)
  from virtio_refines_transfer [OF device0_conforms r d] s'(2,3) have "same_blocks s' (virtio_transfer ?s 3 True)"
    by (auto simp: vsys1_def vdisk1_sel split: if_splits)
  moreover have "used_idx (drv ?s) = 0" by (simp add: vsys1_def vdisk1_sel)
  ultimately show ?thesis using r d s'(2) by (intro exI [of _ ?s] exI [of _ s']) simp
qed

end
