(* ===== verification/Trap.thy ===== *)
theory Trap
  imports Exec Uart Virtio
begin

text \<open>
  The way into the kernel and back: the system-call table of \<open>kernel/syscall.c\<close> over the handlers of
  the other theories, and the traps of \<open>kernel/trap.c\<close>. The control registers of the hart are
  fields of the state. What the devices answer during a trap, the addresses the linker chose and
  what other processes do between \<open>yield\<close> and the return from it are arguments.
\<close>

section \<open>State\<close>

record tstate = ustate +
  sstatus :: uint64
  scause :: uint64
  sepc :: uint64
  stval :: uint64
  stvec :: uint64
  satp :: uint64
  stimecmp :: uint64
  tp :: uint64
  vdrv :: vdisk
  plic_log :: "(uint64 \<times> uint32) list"

record hardware =
  hw_plic :: "uint64 \<Rightarrow> uint32"
  hw_lsr :: uint8
  hw_rx :: "uint8 list"
  hw_time :: uint64

record addresses =
  a_trampoline :: uint64
  a_uservec :: uint64
  a_usertrap :: uint64
  a_kernelvec :: uint64
  a_forkret :: uint64

definition intr_on :: "'a tstate_scheme \<Rightarrow> 'a tstate_scheme" where
  "intr_on s = s\<lparr>sstatus := sstatus s OR SSTATUS_SIE\<rparr>"

definition intr_off :: "'a tstate_scheme \<Rightarrow> 'a tstate_scheme" where
  "intr_off s = s\<lparr>sstatus := sstatus s AND NOT SSTATUS_SIE\<rparr>"

definition intr_get :: "'a tstate_scheme \<Rightarrow> bool" where
  "intr_get s \<longleftrightarrow> sstatus s AND SSTATUS_SIE \<noteq> 0"

definition kprintf :: "string \<Rightarrow> parg list \<Rightarrow> 'a cstate_scheme \<Rightarrow> 'a cstate_scheme" where
  "kprintf fmt ap s = s\<lparr>uart_tx := uart_tx s @ (case printf fmt ap of Some out \<Rightarrow> out | None \<Rightarrow> [])\<rparr>"

text \<open>The fields of the trap frame that the kernel itself uses, by their offset in the page.\<close>

definition tf_ld :: "nat \<Rightarrow> nat \<Rightarrow> 'a kstate_scheme \<Rightarrow> uint64" where
  "tf_ld p off s = ld64 (phys s) (p_trapframe (procs s p) + of_nat off)"

definition tf_sd :: "nat \<Rightarrow> nat \<Rightarrow> uint64 \<Rightarrow> 'a kstate_scheme \<Rightarrow> 'a kstate_scheme" where
  "tf_sd p off v s = s\<lparr>phys := sd64 (phys s) (p_trapframe (procs s p) + of_nat off) v\<rparr>"

definition TF_kernel_satp :: nat where "TF_kernel_satp = 0"
definition TF_kernel_sp :: nat where "TF_kernel_sp = 8"
definition TF_kernel_trap :: nat where "TF_kernel_trap = 16"
definition TF_epc :: nat where "TF_epc = 24"
definition TF_kernel_hartid :: nat where "TF_kernel_hartid = 32"
definition TF_r0 :: nat where "TF_r0 = 112"
definition TF_a7 :: nat where "TF_a7 = 168"

lemmas tf_offsets = TF_kernel_satp_def TF_kernel_sp_def TF_kernel_trap_def TF_epc_def TF_kernel_hartid_def TF_r0_def TF_a7_def

section \<open>System calls\<close>

text \<open>A handler returns a value for \<open>a0\<close>, goes to sleep on a channel, or ends the process.\<close>

datatype sysout = Returns uint64 | Sleeps chan nat | Exits

definition ret_int :: "(int \<times> 's) res \<Rightarrow> (sysout \<times> 's) res" where
  "ret_int r = bindr r (\<lambda>(v, s). Ok (Returns (of_int v), s))"

definition ret_word :: "(uint64 \<times> 's) res \<Rightarrow> (sysout \<times> 's) res" where
  "ret_word r = bindr r (\<lambda>(v, s). Ok (Returns v, s))"

definition ret_wait :: "(pipe_outcome \<times> 's) res \<Rightarrow> (sysout \<times> 's) res" where
  "ret_wait r = bindr r (\<lambda>(o1, s). Ok (case o1 of Ret v \<Rightarrow> Returns (of_int v) | Wait ch n \<Rightarrow> Sleeps ch n, s))"

definition exits :: "'s res \<Rightarrow> (sysout \<times> 's) res" where
  "exits r = bindr r (\<lambda>s. Ok (Exits, s))"

text \<open>The console's entries of \<open>devsw\<close>, set by \<open>consoleinit\<close>.\<close>

definition CONSOLE :: nat where "CONSOLE = 1"

definition devsw_read :: "nat \<Rightarrow> 'a ustate_scheme devop option" where
  "devsw_read major = (if major = CONSOLE then Some consoleread else None)"

definition devsw_write :: "nat \<Rightarrow> 'a ustate_scheme devop option" where
  "devsw_write major =
     (if major = CONSOLE
      then Some (\<lambda>user src n s. bindr (consolewrite user src n s) (\<lambda>(o1, s).
             Ok (case o1 of CRet r \<Rightarrow> Ret r | CWait i nn rest \<Rightarrow> Wait ChTx (nat (i + nn) - length rest), s)))
      else None)"

definition syscalls :: "addresses \<Rightarrow> uint8 list \<Rightarrow> ('a tstate_scheme \<Rightarrow> (sysout \<times> 'a tstate_scheme) res) option list" where
  "syscalls ka pad =
     [None,
      Some (\<lambda>s. ret_word (sys_fork (a_trampoline ka) (a_forkret ka) s)),
      Some (\<lambda>s. exits (sys_exit s)),
      Some (\<lambda>s. ret_wait (sys_wait s)),
      Some (\<lambda>s. ret_int (sys_pipe s)),
      Some (\<lambda>s. ret_wait (sys_read devsw_read s)),
      Some (\<lambda>s. ret_word (sys_kill s)),
      Some (\<lambda>s. ret_int (sys_exec (a_trampoline ka) s)),
      Some (\<lambda>s. ret_int (sys_fstat pad s)),
      Some (\<lambda>s. ret_int (sys_chdir s)),
      Some (\<lambda>s. ret_int (sys_dup s)),
      Some (\<lambda>s. ret_word (Ok (sys_getpid s))),
      Some (\<lambda>s. ret_word (sys_sbrk s)),
      Some (\<lambda>s. ret_wait (sys_pause s)),
      Some (\<lambda>s. ret_word (Ok (sys_uptime s))),
      Some (\<lambda>s. ret_int (sys_open s)),
      Some (\<lambda>s. ret_wait (sys_write devsw_write s)),
      Some (\<lambda>s. ret_int (sys_mknod s)),
      Some (\<lambda>s. ret_int (sys_unlink s)),
      Some (\<lambda>s. ret_int (sys_link s)),
      Some (\<lambda>s. ret_int (sys_mkdir s)),
      Some (\<lambda>s. ret_int (sys_close s)),
      Some (\<lambda>s. ret_word (sys_memstat s))]"

definition syscall :: "addresses \<Rightarrow> uint8 list \<Rightarrow> 'a tstate_scheme \<Rightarrow> (sysout \<times> 'a tstate_scheme) res" where
  "syscall ka pad s =
     (let p = cur s; num = sint (ucast (tf_ld p TF_a7 s) :: uint32);
          unknown = Ok (Returns (-1), tf_sd p TF_r0 (-1)
            (kprintf (''%d %s: unknown sys call %d'' @ [CHR 0x0A])
               [PNum (of_int (p_pid (procs s p))), PStr (Some (name_string (p_name (procs s p)))), PNum (of_int num)] s))
      in
      if 0 < num \<and> num < int (length (syscalls ka pad :: ('a tstate_scheme \<Rightarrow> _) option list)) then
        (case syscalls ka pad ! nat num of
           Some h \<Rightarrow>
             bindr (h s) (\<lambda>(r, s).
               case r of Returns v \<Rightarrow> Ok (Returns v, tf_sd p TF_r0 v s) | _ \<Rightarrow> Ok (r, s))
         | None \<Rightarrow> unknown)
      else unknown)"

section \<open>Interrupts\<close>

definition trapinithart :: "addresses \<Rightarrow> 'a tstate_scheme \<Rightarrow> 'a tstate_scheme" where
  "trapinithart ka s = s\<lparr>stvec := a_kernelvec ka\<rparr>"

definition clockintr :: "hardware \<Rightarrow> 'a tstate_scheme \<Rightarrow> 'a tstate_scheme" where
  "clockintr hw s =
     (let s = (if tp s = 0 then wakeup ChTicks (s\<lparr>ticks := ticks s + 1\<rparr>) else s)
      in s\<lparr>stimecmp := hw_time hw + 1000000\<rparr>)"

text \<open>The disk interrupt of the driver's theory, with its wakeups delivered to the process table.\<close>

definition disk_interrupt :: "'a tstate_scheme \<Rightarrow> 'a tstate_scheme res" where
  "disk_interrupt s =
     bindr (virtio_disk_intr (vdrv s)) (\<lambda>v. Ok (fold wakeup (vwakes v) (s\<lparr>vdrv := v\<lparr>vwakes := []\<rparr>\<rparr>)))"

definition SCAUSE_EXTERNAL :: uint64 where "SCAUSE_EXTERNAL = 0x8000000000000009"
definition SCAUSE_TIMER :: uint64 where "SCAUSE_TIMER = 0x8000000000000005"

definition devintr :: "hardware \<Rightarrow> 'a tstate_scheme \<Rightarrow> (nat \<times> 'a tstate_scheme) res" where
  "devintr hw s =
     (if scause s = SCAUSE_EXTERNAL then
        let hart = unat (tp s); irq = plic_claim (hw_plic hw) hart in
        bindr (if irq = UART0_IRQ then Ok (uartintr (hw_lsr hw) (hw_rx hw) s)
               else if irq = VIRTIO0_IRQ then disk_interrupt s
               else if irq \<noteq> 0 then Ok (kprintf (''unexpected interrupt irq=%d'' @ [CHR 0x0A]) [PNum (of_int (sint irq))] s)
               else Ok s) (\<lambda>s.
          Ok (1, if irq \<noteq> 0 then s\<lparr>plic_log := plic_log s @ plic_complete hart irq\<rparr> else s))
      else if scause s = SCAUSE_TIMER then Ok (2, clockintr hw s)
      else Ok (0, s))"

section \<open>Traps\<close>

definition prepare_return :: "addresses \<Rightarrow> 'a tstate_scheme \<Rightarrow> 'a tstate_scheme" where
  "prepare_return ka s =
     (let p = cur s;
          s = intr_off s;
          s = s\<lparr>stvec := TRAMPOLINE + (a_uservec ka - a_trampoline ka)\<rparr>;
          s = tf_sd p TF_kernel_satp (satp s) s;
          s = tf_sd p TF_kernel_sp (p_kstack (procs s p) + PGSIZE) s;
          s = tf_sd p TF_kernel_trap (a_usertrap ka) s;
          s = tf_sd p TF_kernel_hartid (tp s) s;
          s = s\<lparr>sstatus := (sstatus s AND NOT SSTATUS_SPP) OR SSTATUS_SPIE\<rparr>
      in s\<lparr>sepc := tf_ld p TF_epc s\<rparr>)"

text \<open>The last branch of \<open>usertrap\<close>, a trap that is neither a system call nor a device.\<close>

definition usertrap_fault :: "nat \<Rightarrow> 'a tstate_scheme \<Rightarrow> 'a tstate_scheme res" where
  "usertrap_fault p s =
     (if scause s = 12 \<or> scause s = 13 \<or> scause s = 15 then
        bindr (handle_page_fault (stval s) (int (unat (scause s))) s) (\<lambda>(r, s).
          if r = 0 then Ok s
          else Ok (setkilled p (kprintf (''usertrap(): unhandled page fault at 0x%lx pid=%d'' @ [CHR 0x0A])
                     [PNum (stval s), PNum (of_int (p_pid (procs s p)))] s)))
      else
        let s = kprintf (''usertrap(): unexpected scause 0x%lx pid=%d'' @ [CHR 0x0A])
                  [PNum (scause s), PNum (of_int (p_pid (procs s p)))] s;
            s = kprintf (''            sepc=0x%lx stval=0x%lx'' @ [CHR 0x0A]) [PNum (sepc s), PNum (stval s)] s
        in Ok (setkilled p s))"

text \<open>Its end, from the second test of \<open>killed\<close>.\<close>

definition usertrap_end ::
    "addresses \<Rightarrow> (nat \<Rightarrow> 'a tstate_scheme \<Rightarrow> 'a tstate_scheme) \<Rightarrow> nat \<Rightarrow> nat \<Rightarrow> 'a tstate_scheme \<Rightarrow> (sysout \<times> 'a tstate_scheme) res" where
  "usertrap_end ka resume p which_dev s =
     (if killed p s then exits (kexit (-1) s)
      else
        let s = (if which_dev = 2 then resume p (yield s) else s);
            s = prepare_return ka s
        in Ok (Returns (MAKE_SATP (p_pagetable (procs s p))), s))"

definition usertrap ::
    "addresses \<Rightarrow> uint8 list \<Rightarrow> (nat \<Rightarrow> 'a tstate_scheme \<Rightarrow> 'a tstate_scheme) \<Rightarrow> hardware \<Rightarrow> 'a tstate_scheme \<Rightarrow>
     (sysout \<times> 'a tstate_scheme) res" where
  "usertrap ka pad resume hw s =
     (if sstatus s AND SSTATUS_SPP \<noteq> 0 then Panic ''usertrap: not from user mode''
      else
        let p = cur s; s = tf_sd p TF_epc (sepc s) (s\<lparr>stvec := a_kernelvec ka\<rparr>) in
        if scause s = 8 then
          if killed p s then exits (kexit (-1) s)
          else
            bindr (syscall ka pad (intr_on (tf_sd p TF_epc (tf_ld p TF_epc s + 4) s))) (\<lambda>(r, s).
              case r of Returns _ \<Rightarrow> usertrap_end ka resume p 0 s | _ \<Rightarrow> Ok (r, s))
        else
          bindr (devintr hw s) (\<lambda>(which_dev, s).
            if which_dev \<noteq> 0 then usertrap_end ka resume p which_dev s
            else bindr (usertrap_fault p s) (\<lambda>s. usertrap_end ka resume p 0 s)))"

text \<open>\<open>running\<close> is whether the interrupted CPU has a process, \<open>myproc() != 0\<close>.\<close>

definition kerneltrap ::
    "bool \<Rightarrow> (nat \<Rightarrow> 'a tstate_scheme \<Rightarrow> 'a tstate_scheme) \<Rightarrow> hardware \<Rightarrow> 'a tstate_scheme \<Rightarrow> 'a tstate_scheme res" where
  "kerneltrap running resume hw s =
     (let pc = sepc s; st = sstatus s in
      if st AND SSTATUS_SPP = 0 then Panic ''kerneltrap: not from supervisor mode''
      else if intr_get s then Panic ''kerneltrap: interrupts enabled''
      else
        bindr (devintr hw s) (\<lambda>(which_dev, s).
          if which_dev = 0 then Panic ''kerneltrap''
          else
            let s = (if which_dev = 2 \<and> running then resume (cur s) (yield s) else s)
            in Ok (s\<lparr>sepc := pc, sstatus := st\<rparr>)))"

section \<open>Results\<close>

lemma ld64_sd64_offset:
  assumes "i + 8 \<le> j \<or> j + 8 \<le> i" "i < 2 ^ 32" "j < 2 ^ 32"
  shows "ld64 (sd64 m (a + of_nat i) v) (a + of_nat j) = ld64 m (a + of_nat j)"
proof (rule ld64_cong)
  fix x :: uint64
  assume "within x (a + of_nat j) 8"
  then obtain k where k: "k < 8" "x = a + of_nat j + of_nat k" by (rule withinE)
  have "\<not> within x (a + of_nat i) 8"
  proof
    assume "within x (a + of_nat i) 8"
    then obtain l where l: "l < 8" "x = a + of_nat i + of_nat l" by (rule withinE)
    then have "(of_nat (j + k) :: uint64) = of_nat (i + l)" using k by (simp add: algebra_simps)
    then have "unat (of_nat (j + k) :: uint64) = unat (of_nat (i + l) :: uint64)" by simp
    moreover have "unat (of_nat (j + k) :: uint64) = j + k" "unat (of_nat (i + l) :: uint64) = i + l"
      using assms(2,3) k(1) l(1) unat_of_nat_small [of "j + k", where 'a = 64] unat_of_nat_small [of "i + l", where 'a = 64]
      by simp_all
    ultimately show False using assms(1) k(1) l(1) by simp
  qed
  then show "sd64 m (a + of_nat i) v x = m x" by (rule sd64_other)
qed

lemma tf_sd_simps [simp]:
  "procs (tf_sd p off v s) = procs s" "cur (tf_sd p off v s) = cur s" "initproc (tf_sd p off v s) = initproc s"
  by (simp_all add: tf_sd_def)

lemma tf_sd_regs [simp]:
  "sstatus (tf_sd p off v t) = sstatus t" "scause (tf_sd p off v t) = scause t" "sepc (tf_sd p off v t) = sepc t"
  "stval (tf_sd p off v t) = stval t" "stvec (tf_sd p off v t) = stvec t" "satp (tf_sd p off v t) = satp t"
  "tp (tf_sd p off v t) = tp t" "uart_tx (tf_sd p off v t) = uart_tx t"
  by (simp_all add: tf_sd_def)

lemma tf_ld_sd [simp]: "tf_ld p off (tf_sd p off v s) = v"
  by (simp add: tf_ld_def tf_sd_def)

lemma tf_ld_sd_other:
  "i + 8 \<le> j \<or> j + 8 \<le> i \<Longrightarrow> i < 2 ^ 32 \<Longrightarrow> j < 2 ^ 32 \<Longrightarrow> tf_ld p j (tf_sd p i v s) = tf_ld p j s"
  by (simp add: tf_ld_def tf_sd_def ld64_sd64_offset)

lemma tf_ld_cong: "phys s = phys t \<Longrightarrow> procs s = procs t \<Longrightarrow> tf_ld p off s = tf_ld p off t"
  by (simp add: tf_ld_def)

lemma kprintf_simps [simp]:
  "procs (kprintf fmt ap s) = procs s" "cur (kprintf fmt ap s) = cur s" "phys (kprintf fmt ap s) = phys s"
  by (simp_all add: kprintf_def)

lemma kprintf_regs [simp]:
  "sstatus (kprintf fmt ap t) = sstatus t" "sepc (kprintf fmt ap t) = sepc t" "stval (kprintf fmt ap t) = stval t"
  "scause (kprintf fmt ap t) = scause t"
  by (simp_all add: kprintf_def)

lemma one_bit_masks:
  fixes x y :: uint64
  assumes "i \<noteq> j" "j \<noteq> k"
  shows "(x AND NOT (push_bit i 1) OR push_bit j 1) AND push_bit i 1 = 0"
    and "(x OR push_bit j 1) AND push_bit j 1 = push_bit j 1"
    and "((y AND NOT (push_bit k 1)) AND NOT (push_bit i 1) OR push_bit j 1) AND push_bit k 1 = 0"
  using assms by (auto intro!: bit_word_eqI simp: bit_simps)

lemmas sstatus_bits = one_bit_masks [of 8 5 1, folded SSTATUS_SPP_def SSTATUS_SPIE_def SSTATUS_SIE_def, simplified]

lemma SSTATUS_SPIE_nonzero [simp]: "SSTATUS_SPIE \<noteq> 0"
  by (simp add: SSTATUS_SPIE_def)

text \<open>The state in which \<open>sret\<close> enters user space.\<close>

definition ready_for_user :: "addresses \<Rightarrow> 'a tstate_scheme \<Rightarrow> bool" where
  "ready_for_user ka s \<longleftrightarrow>
     sstatus s AND SSTATUS_SPP = 0 \<and> sstatus s AND SSTATUS_SPIE \<noteq> 0 \<and> \<not> intr_get s \<and>
     stvec s = TRAMPOLINE + (a_uservec ka - a_trampoline ka) \<and>
     sepc s = tf_ld (cur s) TF_epc s \<and>
     tf_ld (cur s) TF_kernel_satp s = satp s \<and> tf_ld (cur s) TF_kernel_sp s = p_kstack (myproc s) + PGSIZE \<and>
     tf_ld (cur s) TF_kernel_trap s = a_usertrap ka \<and> tf_ld (cur s) TF_kernel_hartid s = tp s"

lemma prepare_return_procs [simp]:
  "procs (prepare_return ka s) = procs s" "cur (prepare_return ka s) = cur s"
  by (simp_all add: prepare_return_def intr_off_def Let_def)

lemma tf_ld_reg_updates [simp]:
  "tf_ld p off (t\<lparr>sstatus := x\<rparr>) = tf_ld p off t" "tf_ld p off (t\<lparr>stvec := x\<rparr>) = tf_ld p off t"
  "tf_ld p off (t\<lparr>sepc := x\<rparr>) = tf_ld p off t"
  by (simp_all add: tf_ld_def)

lemma prepare_return_frame:
  "tf_ld (cur s) TF_epc (prepare_return ka s) = tf_ld (cur s) TF_epc s"
  "tf_ld (cur s) TF_r0 (prepare_return ka s) = tf_ld (cur s) TF_r0 s"
  by (simp_all add: prepare_return_def Let_def intr_off_def tf_ld_sd_other tf_offsets)

lemma prepare_return_epc: "sepc (prepare_return ka s) = tf_ld (cur s) TF_epc s"
  by (simp add: prepare_return_def Let_def intr_off_def tf_ld_sd_other tf_offsets)

lemma prepare_return_ready: "ready_for_user ka (prepare_return ka s)"
  unfolding ready_for_user_def prepare_return_procs prepare_return_frame prepare_return_epc
  by (intro conjI) (simp_all add: prepare_return_def intr_get_def Let_def intr_off_def sstatus_bits tf_ld_sd_other tf_offsets)

lemma exits_not_returns [simp]: "exits r \<noteq> Ok (Returns w, s)"
  by (cases r) (simp_all add: exits_def)

text \<open>
  The second test of \<open>killed\<close> comes before \<open>yield\<close>: only a process killed while the CPU is given
  away goes back with the flag set.
\<close>

lemma usertrap_end_returns:
  assumes "usertrap_end ka resume p which s = Ok (Returns w, s')"
  shows "ready_for_user ka s' \<and> w = MAKE_SATP (p_pagetable (procs s' p)) \<and>
    (\<not> killed p s' \<or> which = 2 \<and> (\<exists>t. \<not> killed p t \<and> killed p (resume p t)))"
proof -
  have y: "killed p (yield s) = killed p s" by (simp add: killed_def yield_def upd_proc_def)
  show ?thesis
    using assms prepare_return_ready y
    by (auto simp: usertrap_end_def killed_def Let_def split: if_splits)
qed

lemma wakeup_killed [simp]: "p_killed (procs (wakeup ch s) p) = p_killed (procs s p)"
  by (simp add: wakeup_def)

lemma usertrap_timer_not_killed:
  assumes "usertrap ka pad resume hw s = Ok (Returns w, s')" "scause s = SCAUSE_TIMER"
  shows "\<not> killed (cur s) s"
proof
  assume "killed (cur s) s"
  then have "usertrap ka pad resume hw s = Panic ''usertrap: not from user mode'' \<or>
      (\<exists>t. usertrap ka pad resume hw s = exits (kexit (-1) t))"
    using assms(2)
    by (auto simp: usertrap_def Let_def devintr_def usertrap_end_def clockintr_def killed_def SCAUSE_TIMER_def SCAUSE_EXTERNAL_def)
  moreover have "exits r \<noteq> Ok (Returns w, s')" for r :: "'a tstate_scheme res" by (cases r) (auto simp: exits_def)
  ultimately show False using assms(1) by (metis res.distinct(1))
qed

lemma devintr_which:
  assumes "devintr hw s = Ok (n, s')"
  shows "n = 2 \<longrightarrow> scause s = SCAUSE_TIMER"
proof (cases "scause s = SCAUSE_EXTERNAL")
  case True
  then have "n = 1" using assms unfolding devintr_def Let_def by (simp only: refl if_True bindr_eq_Ok res.inject prod.inject) blast
  then show ?thesis by simp
next
  case False
  then show ?thesis using assms unfolding devintr_def Let_def
    by (cases "scause s = SCAUSE_TIMER") (simp_all only: if_False res.inject prod.inject, simp_all)
qed

lemma usertrap_via_end:
  assumes "usertrap ka pad resume hw s = Ok (Returns w, s')"
  obtains which s1 where "usertrap_end ka resume (cur s) which s1 = Ok (Returns w, s')"
    and "which = 2 \<longrightarrow> scause s = SCAUSE_TIMER"
proof -
  define s0 where "s0 = tf_sd (cur s) TF_epc (sepc s) (s\<lparr>stvec := a_kernelvec ka\<rparr>)"
  have c: "scause s0 = scause s" by (simp add: s0_def)
  have u: "sstatus s AND SSTATUS_SPP = 0" using assms by (auto simp: usertrap_def split: if_splits)
  note t = assms [unfolded usertrap_def Let_def, folded s0_def, unfolded c]
  show thesis
  proof (cases "scause s = 8")
    case True
    with t u obtain r s1 where "(case r of Returns _ \<Rightarrow> usertrap_end ka resume (cur s) 0 s1 | _ \<Rightarrow> Ok (r, s1)) = Ok (Returns w, s')"
      by (auto simp del: split_paired_Ex split: if_splits prod.splits)
    then show thesis by (cases r) (auto intro: that)
  next
    case False
    with t u obtain n s1 where d: "devintr hw s0 = Ok (n, s1)"
      and r: "(if n \<noteq> 0 then usertrap_end ka resume (cur s) n s1
        else bindr (usertrap_fault (cur s) s1) (\<lambda>s2. usertrap_end ka resume (cur s) 0 s2)) = Ok (Returns w, s')"
      by (auto simp: s0_def)
    show thesis
    proof (cases "n = 0")
      case True
      with r show thesis by (auto simp: s0_def intro: that)
    next
      case False
      with r that devintr_which [OF d] c show thesis by auto
    qed
  qed
qed

text \<open>
  C5. Whatever trap brought a process into the kernel, a system call, a device, the timer, a page
  fault or anything else: if \<open>usertrap\<close> goes back to user space, then the hart will return to user
  mode with interrupts off until \<open>sret\<close> and on after it, at the saved program counter, with the
  next trap directed at the trampoline and the trap frame set for it, on the page table of the
  process. The process has not been killed, with one exception, which the code has because it
  tests the flag before it yields: after a timer interrupt, a process that was not killed when
  the trap began, and that somebody else killed while it had given the CPU away.
\<close>

theorem usertrap_returns_safely:
  assumes "usertrap ka pad resume hw s = Ok (Returns w, s')"
  shows "ready_for_user ka s' \<and> w = MAKE_SATP (p_pagetable (procs s' (cur s))) \<and>
    (\<not> killed (cur s) s' \<or>
     scause s = SCAUSE_TIMER \<and> \<not> killed (cur s) s \<and> (\<exists>t. \<not> killed (cur s) t \<and> killed (cur s) (resume (cur s) t)))"
proof -
  obtain which s1 where "usertrap_end ka resume (cur s) which s1 = Ok (Returns w, s')"
    and "which = 2 \<longrightarrow> scause s = SCAUSE_TIMER"
    using assms by (rule usertrap_via_end)
  with usertrap_end_returns usertrap_timer_not_killed [OF assms] show ?thesis by blast
qed

text \<open>A fault the handler turns down or a trap nobody expects leaves the process killed.\<close>

lemma usertrap_killed_exits:
  assumes "sstatus s AND SSTATUS_SPP = 0" "scause s \<noteq> 8" "scause s \<noteq> SCAUSE_EXTERNAL" "scause s \<noteq> SCAUSE_TIMER"
    and "usertrap_fault (cur s) (tf_sd (cur s) TF_epc (sepc s) (s\<lparr>stvec := a_kernelvec ka\<rparr>)) = Ok s1" "killed (cur s) s1"
  shows "usertrap ka pad resume hw s = exits (kexit (-1) s1)"
  using assms by (simp add: usertrap_def Let_def devintr_def usertrap_end_def)

lemma fault_turned_down:
  assumes "scause s = 12 \<or> scause s = 13 \<or> scause s = 15"
    and "handle_page_fault (stval s) (int (unat (scause s))) s = Ok (r, t)" "phys t = phys s" "r \<noteq> 0 \<or> killed p t"
  shows "\<exists>s1. usertrap_fault p s = Ok s1 \<and> killed p s1 \<and> phys s1 = phys s"
  using assms by (auto simp: usertrap_fault_def killed_def setkilled_def)

text \<open>
  The pages a process may touch: its text, but not to write, its data and its heap up to \<open>p->sz\<close>,
  below \<open>MAXVA\<close>; and any page whose record says it is swapped out. The last is what the handler
  tests first, so a page swapped out before \<open>sbrk\<close> shrank the heap below it is still served.
\<close>

definition may_touch :: "'a kstate_scheme \<Rightarrow> uint64 \<Rightarrow> bool \<Rightarrow> bool" where
  "may_touch s va write \<longleftrightarrow>
     (let pg = mypaging s; code = (text_start pg \<le> va \<and> va < text_end pg) in
      va < MAXVA \<and> \<not> (code \<and> write) \<and>
      (code \<or> data_start pg \<le> va \<and> va < data_end pg \<or> heap_start pg \<le> va \<and> va < p_sz (myproc s) \<or>
       (case get_page_info va of Some n \<Rightarrow> pg_state (pages pg n) = SWAPPED | None \<Rightarrow> False)))"

lemma refused_fault:
  assumes "\<not> may_touch s (PGROUNDDOWN va) (cause = 15)"
  shows "\<exists>r t. handle_page_fault va cause s = Ok (r, t) \<and> phys t = phys s \<and> (r \<noteq> 0 \<or> killed (cur s) t)"
proof -
  let ?pg = "mypaging s" and ?va = "PGROUNDDOWN va"
  define code where "code = (text_start ?pg \<le> ?va \<and> ?va < text_end ?pg)"
  define sw where "sw = (case get_page_info ?va of Some n \<Rightarrow> pg_state (pages ?pg n) = SWAPPED | None \<Rightarrow> False)"
  have k: "killed (cur s) (setkilled (cur s) s)" "phys (setkilled (cur s) s) = phys s"
    by (simp_all add: killed_def setkilled_def)
  consider "MAXVA \<le> ?va" | "\<not> MAXVA \<le> ?va" code "cause = 15"
    | "\<not> MAXVA \<le> ?va" "\<not> code" "\<not> (data_start ?pg \<le> ?va \<and> ?va < data_end ?pg)"
      "\<not> (heap_start ?pg \<le> ?va \<and> ?va < p_sz (myproc s))" "\<not> sw"
    using assms unfolding may_touch_def Let_def code_def [symmetric] sw_def [symmetric] by (meson not_le)
  then show ?thesis
  proof cases
    case 1
    then show ?thesis by (simp add: handle_page_fault_def Let_def)
  next
    case 2
    then show ?thesis using k by (simp add: handle_page_fault_def Let_def code_def)
  next
    case 3
    then have "handle_page_fault va cause s = Ok (-1, setkilled (cur s) s)"
      unfolding handle_page_fault_def Let_def code_def sw_def by (simp only: if_False conj_assoc [symmetric] simp_thms)
    then show ?thesis using k by simp
  qed
qed

text \<open>
  C17. A process that touches a page it may not, one at or above \<open>MAXVA\<close>, one of its text it wants to
  write, or one outside its text, data and heap with no copy in the swap file, never gets back to
  user space: the trap ends in \<open>kexit(-1)\<close>, run on the memory as the trap found it but for the saved
  program counter in the trap frame.
\<close>

theorem invalid_access_exits:
  assumes "scause s = 12 \<or> scause s = 13 \<or> scause s = 15" "sstatus s AND SSTATUS_SPP = 0"
    and "\<not> may_touch s (PGROUNDDOWN (stval s)) (scause s = 15)"
  shows "\<exists>s1. usertrap ka pad resume hw s = exits (kexit (-1) s1) \<and>
    phys s1 = sd64 (phys s) (p_trapframe (myproc s) + of_nat TF_epc) (sepc s)"
proof -
  let ?s = "tf_sd (cur s) TF_epc (sepc s) (s\<lparr>stvec := a_kernelvec ka\<rparr>)"
  have f: "cur ?s = cur s" "procs ?s = procs s" "stval ?s = stval s" "scause ?s = scause s"
    "phys ?s = sd64 (phys s) (p_trapframe (myproc s) + of_nat TF_epc) (sepc s)"
    by (simp_all add: tf_sd_def)
  have c: "(int (unat (scause s)) = 15) = (scause s = 15)" using assms(1) by auto
  have "\<not> may_touch ?s (PGROUNDDOWN (stval s)) (int (unat (scause s)) = 15)"
    using assms(3) unfolding c by (simp add: may_touch_def Let_def f)
  from refused_fault [OF this] obtain r t where
    "handle_page_fault (stval ?s) (int (unat (scause ?s))) ?s = Ok (r, t)" "phys t = phys ?s" "r \<noteq> 0 \<or> killed (cur s) t"
    unfolding f by blast
  from fault_turned_down [OF _ this] assms(1) obtain s1 where
    "usertrap_fault (cur s) ?s = Ok s1" "killed (cur s) s1" "phys s1 = phys ?s" unfolding f(4) by blast
  moreover have "scause s \<noteq> 8" "scause s \<noteq> SCAUSE_EXTERNAL" "scause s \<noteq> SCAUSE_TIMER"
    using assms(1) by (auto simp: SCAUSE_EXTERNAL_def SCAUSE_TIMER_def)
  ultimately show ?thesis using usertrap_killed_exits [OF assms(2)] unfolding f(5) by blast
qed

definition t0 :: tstate where
  "t0 = ustate.extend u0 \<lparr>sstatus = 0, scause = 13, sepc = 0x1000, stval = 5000, stvec = 0, satp = 0, stimecmp = 0, tp = 0,
     vdrv = vdisk_init, plic_log = []\<rparr>"

definition ka0 :: addresses where
  "ka0 = \<lparr>a_trampoline = 0, a_uservec = 0, a_usertrap = 0, a_kernelvec = 0, a_forkret = 0\<rparr>"

definition hw0 :: hardware where
  "hw0 = \<lparr>hw_plic = (\<lambda>_. 0), hw_lsr = 0, hw_rx = [], hw_time = 0\<rparr>"

lemma t0_simps [simp]:
  "procs t0 = procs k0" "cur t0 = 0" "sstatus t0 = 0" "scause t0 = 13" "stval t0 = 5000" "sepc t0 = 0x1000" "phys t0 = phys k0"
  by (simp_all add: t0_def u0_def ustate.defs kstate.defs k0_def)

theorem invalid_access_exits_witness:
  "\<exists>s1. usertrap ka0 [] (\<lambda>_ s. s) hw0 t0 = exits (kexit (-1) s1)"
proof -
  have "\<exists>s1. usertrap ka0 [] (\<lambda>_ s. s) hw0 t0 = exits (kexit (-1) s1) \<and>
      phys s1 = sd64 (phys t0) (p_trapframe (myproc t0) + of_nat TF_epc) (sepc t0)"
    by (rule invalid_access_exits)
      (simp_all add: may_touch_def get_page_info_def k0_def proc0_def paging0_def PGROUNDDOWN_def PGSIZE_def MAXVA_def)
  then show ?thesis by blast
qed

text \<open>A timer interrupt at the same process, with nobody else running in between.\<close>

theorem usertrap_returns_safely_witness:
  "\<exists>s'. usertrap ka0 [] (\<lambda>_ s. s) hw0 (t0\<lparr>scause := SCAUSE_TIMER\<rparr>) = Ok (Returns (MAKE_SATP 0), s') \<and> ready_for_user ka0 s'"
proof -
  let ?t = "t0\<lparr>scause := SCAUSE_TIMER\<rparr>"
  have "\<exists>w s'. usertrap ka0 [] (\<lambda>_ s. s) hw0 ?t = Ok (Returns w, s') \<and> procs s' 0 = (procs k0 0)\<lparr>p_state := RUNNABLE\<rparr>"
    by (simp add: usertrap_def Let_def devintr_def usertrap_end_def SCAUSE_TIMER_def SCAUSE_EXTERNAL_def killed_def
        clockintr_def yield_def wakeup_def k0_def proc0_def)
  then obtain w s' where r: "usertrap ka0 [] (\<lambda>_ s. s) hw0 ?t = Ok (Returns w, s')"
    "procs s' 0 = (procs k0 0)\<lparr>p_state := RUNNABLE\<rparr>" by blast
  from usertrap_returns_safely [OF r(1)] r show ?thesis by (simp add: k0_def proc0_def)
qed

text \<open>The registers and the frame when \<open>usertrap\<close> calls \<open>syscall\<close>.\<close>

definition at_syscall :: "addresses \<Rightarrow> 'a tstate_scheme \<Rightarrow> 'a tstate_scheme" where
  "at_syscall ka s =
     intr_on (tf_sd (cur s) TF_epc (sepc s + 4) (tf_sd (cur s) TF_epc (sepc s) (s\<lparr>stvec := a_kernelvec ka\<rparr>)))"

lemma tf_ld_simps [simp]: "tf_ld p off (intr_on t) = tf_ld p off t" "tf_ld p off (kprintf fmt ap c) = tf_ld p off c"
  by (simp_all add: tf_ld_def intr_on_def)

lemma at_syscall_simps [simp]:
  "procs (at_syscall ka s) = procs s" "cur (at_syscall ka s) = cur s" "ticks (at_syscall ka s) = ticks s"
  "tf_ld (cur s) TF_epc (at_syscall ka s) = sepc s + 4" "tf_ld (cur s) TF_a7 (at_syscall ka s) = tf_ld (cur s) TF_a7 s"
  unfolding at_syscall_def by (simp add: intr_on_def, simp add: intr_on_def, simp add: intr_on_def tf_sd_def)
    (simp_all add: tf_ld_sd_other tf_offsets)

lemma usertrap_ecall:
  assumes "sstatus s AND SSTATUS_SPP = 0" "scause s = 8" "\<not> killed (cur s) s"
    and "syscall ka pad (at_syscall ka s) = Ok (Returns v, tf_sd (cur s) TF_r0 v s1)"
    and "procs s1 = procs s" "cur s1 = cur s" "tf_ld (cur s) TF_epc s1 = sepc s + 4"
  shows "\<exists>s'. usertrap ka pad resume hw s = Ok (Returns (MAKE_SATP (p_pagetable (myproc s))), s') \<and>
    tf_ld (cur s) TF_r0 s' = v \<and> sepc s' = sepc s + 4 \<and> procs s' = procs s \<and> ready_for_user ka s'"
proof -
  let ?s = "tf_sd (cur s) TF_r0 v s1" and ?s' = "prepare_return ka (tf_sd (cur s) TF_r0 v s1)"
  have k: "killed (cur s) (tf_sd (cur s) TF_epc (sepc s) (s\<lparr>stvec := a_kernelvec ka\<rparr>)) = False" "killed (cur s) ?s = False"
    using assms(3,5) by (simp_all add: killed_def)
  have "usertrap ka pad resume hw s = Ok (Returns (MAKE_SATP (p_pagetable (myproc s))), ?s')"
    using assms(1,2,5) assms(4) [unfolded at_syscall_def] k
    by (simp add: usertrap_def Let_def usertrap_end_def)
  moreover have "tf_ld (cur s) TF_r0 ?s' = v" "sepc ?s' = sepc s + 4"
    using prepare_return_frame(2) [of ?s ka] prepare_return_epc [of ka ?s] assms(6,7)
    by (simp_all add: tf_ld_sd_other tf_offsets)
  ultimately show ?thesis using assms(5) prepare_return_ready by simp
qed

text \<open>The number in \<open>a7\<close> and the value of the calls that only report: an unknown number gives -1.\<close>

definition sysnum :: "'a kstate_scheme \<Rightarrow> int" where
  "sysnum s = sint (ucast (tf_ld (cur s) TF_a7 s) :: uint32)"

definition report :: "'a kstate_scheme \<Rightarrow> uint64" where
  "report s = (if sysnum s = 11 then of_int (p_pid (myproc s)) else if sysnum s = 14 then ucast (ticks s) else -1)"

lemma syscall_reports:
  assumes "sysnum s \<le> 0 \<or> 22 < sysnum s \<or> sysnum s = 11 \<or> sysnum s = 14"
  shows "\<exists>s1. syscall ka pad s = Ok (Returns (report s), tf_sd (cur s) TF_r0 (report s) s1) \<and>
    procs s1 = procs s \<and> cur s1 = cur s \<and> tf_ld (cur s) TF_epc s1 = tf_ld (cur s) TF_epc s"
proof -
  have n: "sint (ucast (tf_ld (cur s) TF_a7 s) :: uint32) = sysnum s" by (simp add: sysnum_def)
  have len: "length (syscalls ka pad :: ('a tstate_scheme \<Rightarrow> _) option list) = 23" by (simp add: syscalls_def)
  consider (u) "sysnum s \<le> 0 \<or> 22 < sysnum s" | (g) "sysnum s = 11" | (t) "sysnum s = 14" using assms by blast
  then show ?thesis
  proof cases
    case u
    then have "\<not> (0 < sysnum s \<and> sysnum s < int 23)" "report s = -1" by (auto simp: report_def)
    then show ?thesis unfolding syscall_def Let_def n len by (simp only: if_False) (auto intro!: exI)
  next
    case g
    have h: "syscalls ka pad ! 11 = Some (\<lambda>s :: 'a tstate_scheme. ret_word (Ok (sys_getpid s)))" by (simp add: syscalls_def)
    show ?thesis unfolding syscall_def Let_def n len g by (simp add: h ret_word_def sys_getpid_def report_def g) (auto intro!: exI)
  next
    case t
    have h: "syscalls ka pad ! 14 = Some (\<lambda>s :: 'a tstate_scheme. ret_word (Ok (sys_uptime s)))" by (simp add: syscalls_def)
    show ?thesis unfolding syscall_def Let_def n len t by (simp add: h ret_word_def sys_uptime_def report_def t) (auto intro!: exI)
  qed
qed

text \<open>
  C22. The round trip of an \<open>ecall\<close> that only asks for a value: \<open>getpid\<close>, \<open>uptime\<close>, or a number the
  table does not have, a negative one included. The process comes back at the instruction after
  the \<open>ecall\<close> with the process id, the ticks or -1 in \<open>a0\<close>; the process table is unchanged.
\<close>

theorem ecall_reports:
  assumes "sstatus s AND SSTATUS_SPP = 0" "scause s = 8" "\<not> killed (cur s) s"
    and "sysnum s \<le> 0 \<or> 22 < sysnum s \<or> sysnum s = 11 \<or> sysnum s = 14"
  shows "\<exists>s'. usertrap ka pad resume hw s = Ok (Returns (MAKE_SATP (p_pagetable (myproc s))), s') \<and>
    tf_ld (cur s) TF_r0 s' = report s \<and> sepc s' = sepc s + 4 \<and> procs s' = procs s \<and> ready_for_user ka s'"
proof -
  let ?s = "at_syscall ka s"
  have n: "sysnum ?s = sysnum s" "report ?s = report s" by (simp_all add: sysnum_def report_def)
  from syscall_reports [of ?s ka pad] assms(4) obtain s1 where
    "syscall ka pad ?s = Ok (Returns (report s), tf_sd (cur s) TF_r0 (report s) s1)"
    "procs s1 = procs s" "cur s1 = cur s" "tf_ld (cur s) TF_epc s1 = sepc s + 4"
    unfolding n at_syscall_simps by blast
  with usertrap_ecall [OF assms(1-3)] show ?thesis by blast
qed

theorem ecall_reports_witness:
  "\<exists>s'. usertrap ka0 [] (\<lambda>_ s. s) hw0 (tf_sd 0 TF_a7 11 (t0\<lparr>scause := 8\<rparr>)) = Ok (Returns (MAKE_SATP 0), s') \<and>
     tf_ld 0 TF_r0 s' = 1 \<and> sepc s' = 0x1004"
proof -
  let ?t = "tf_sd 0 TF_a7 11 (t0\<lparr>scause := 8\<rparr>)"
  have n: "sysnum ?t = 11" by (simp add: sysnum_def)
  have "report ?t = 1" using n by (simp add: report_def k0_def proc0_def)
  with ecall_reports [of ?t ka0 "[]" "\<lambda>_ s. s" hw0] n show ?thesis
    by (auto simp add: killed_def k0_def proc0_def)
qed

end
