(* ===== verification/Uart_Tx.thy ===== *)
theory Uart_Tx
  imports Uart
begin

text \<open>
  The transmit side of \<open>kernel/uart.c\<close> as it runs on several CPUs: any number of processes inside
  \<open>uartwrite\<close>, the interrupt handler \<open>uartintr\<close>, the device, and characters that arrive or that
  \<open>uartputc_sync\<close> puts out from elsewhere. Every step is one access to shared state: a lock, the
  flag \<open>tx_busy\<close>, a device register, or the state of a process. \<open>sleep\<close> and \<open>wakeup\<close> of
  \<open>kernel/proc.c\<close> are written out, with the lock of the process, because the question is whether a
  wakeup can be lost between the test of \<open>tx_busy\<close> and the sleep. The steps may interleave in any
  order; a spinlock that is held blocks who wants it.
\<close>

section \<open>Writers, handler and device\<close>

text \<open>Who takes a step; the first two are also the holders of locks.\<close>

datatype agent = Writer nat | Intr | Device | Echo | Input

text \<open>Where a process is in \<open>uartwrite\<close>, and in the \<open>sleep\<close> it calls.\<close>

datatype wpc =
    WAcquire      \<comment> \<open>\<open>acquire(&tx_lock)\<close>\<close>
  | WLoop         \<comment> \<open>\<open>while(i < n)\<close>\<close>
  | WBusy         \<comment> \<open>\<open>while(tx_busy != 0)\<close>\<close>
  | WSend         \<comment> \<open>\<open>WriteReg(THR, buf[i]); i += 1\<close>\<close>
  | WMark         \<comment> \<open>\<open>tx_busy = 1\<close>\<close>
  | WRelease      \<comment> \<open>\<open>release(&tx_lock)\<close>\<close>
  | WDone
  | WSleep        \<comment> \<open>in \<open>sleep\<close>: \<open>acquire(&p->lock)\<close>\<close>
  | WUnlock       \<comment> \<open>\<open>release(lk)\<close>\<close>
  | WSched        \<comment> \<open>\<open>p->chan = chan; p->state = SLEEPING; sched()\<close>\<close>
  | WAsleep
  | WRunnable     \<comment> \<open>made runnable; the scheduler has yet to take \<open>p->lock\<close> and switch to it\<close>
  | WReacquire    \<comment> \<open>\<open>acquire(lk)\<close> at the end of \<open>sleep\<close>\<close>

text \<open>Where the handler is, and in \<open>wakeup(&tx_chan)\<close> at which process.\<close>

datatype hpc =
    HNone         \<comment> \<open>no interrupt is being served\<close>
  | HAcquire      \<comment> \<open>after \<open>ReadReg(ISR)\<close>: \<open>acquire(&tx_lock)\<close>\<close>
  | HTest         \<comment> \<open>\<open>ReadReg(LSR) & LSR_TX_IDLE\<close>\<close>
  | HClear        \<comment> \<open>\<open>tx_busy = 0\<close>\<close>
  | HWake nat     \<comment> \<open>in \<open>wakeup\<close>: \<open>acquire(&p->lock)\<close>\<close>
  | HCheck nat    \<comment> \<open>\<open>p->state == SLEEPING && p->chan == chan\<close>, then \<open>release(&p->lock)\<close>\<close>
  | HRelease      \<comment> \<open>\<open>release(&tx_lock)\<close>\<close>

text \<open>
  \<open>w_buf\<close> is \<open>buf[i..n-1]\<close> of each writer. \<open>lsr_idle\<close> is what the line status register answers;
  \<open>echoes\<close> and \<open>inputs\<close> are how many characters \<open>uartputc_sync\<close> will still send and how many will
  still arrive. Three fields only record: \<open>thr_log\<close> what the writers put into THR, \<open>unsent\<close> that
  the last such byte has not left the transmitter, \<open>overrun\<close> that a byte was put there on top of it.
\<close>

record txsys =
  w_pc :: "nat \<Rightarrow> wpc"
  w_buf :: "nat \<Rightarrow> uint8 list"
  h_pc :: hpc
  tx_lock :: "agent option"
  p_lock :: "nat \<Rightarrow> agent option"
  txbusy :: bool
  lsr_idle :: bool
  irq :: bool
  echoes :: nat
  inputs :: nat
  thr_log :: "(nat \<times> uint8) list"
  unsent :: bool
  overrun :: bool

definition goto :: "nat \<Rightarrow> wpc \<Rightarrow> txsys \<Rightarrow> txsys" where
  "goto w pc s = s\<lparr>w_pc := (w_pc s)(w := pc)\<rparr>"

text \<open>The next step of a process in \<open>uartwrite\<close>; \<open>None\<close> while it cannot take one.\<close>

definition writer_step :: "nat \<Rightarrow> txsys \<Rightarrow> txsys option" where
  "writer_step w s = (case w_pc s w of
      WAcquire \<Rightarrow> if tx_lock s = None then Some (goto w WLoop (s\<lparr>tx_lock := Some (Writer w)\<rparr>)) else None
    | WLoop \<Rightarrow> Some (goto w (if w_buf s w = [] then WRelease else WBusy) s)
    | WBusy \<Rightarrow> Some (goto w (if txbusy s then WSleep else WSend) s)
    | WSend \<Rightarrow> Some (goto w WMark (s\<lparr>w_buf := (w_buf s)(w := tl (w_buf s w)), lsr_idle := False,
                 thr_log := thr_log s @ [(w, hd (w_buf s w))], overrun := overrun s \<or> unsent s, unsent := True\<rparr>))
    | WMark \<Rightarrow> Some (goto w WLoop (s\<lparr>txbusy := True\<rparr>))
    | WRelease \<Rightarrow> Some (goto w WDone (s\<lparr>tx_lock := None\<rparr>))
    | WDone \<Rightarrow> None
    | WSleep \<Rightarrow> if p_lock s w = None then Some (goto w WUnlock (s\<lparr>p_lock := (p_lock s)(w := Some (Writer w))\<rparr>)) else None
    | WUnlock \<Rightarrow> Some (goto w WSched (s\<lparr>tx_lock := None\<rparr>))
    | WSched \<Rightarrow> Some (goto w WAsleep (s\<lparr>p_lock := (p_lock s)(w := None)\<rparr>))
    | WAsleep \<Rightarrow> None
    | WRunnable \<Rightarrow> if p_lock s w = None then Some (goto w WReacquire s) else None
    | WReacquire \<Rightarrow> if tx_lock s = None then Some (goto w WBusy (s\<lparr>tx_lock := Some (Writer w)\<rparr>)) else None)"

text \<open>
  The next step of \<open>uartintr\<close>, up to its receive loop. \<open>wakeup\<close> goes through all \<open>n\<close> processes; the
  one the interrupt came to is not asleep, so that \<open>wakeup\<close> leaves it out makes no difference.
\<close>

definition intr_step :: "nat \<Rightarrow> txsys \<Rightarrow> txsys option" where
  "intr_step n s = (case h_pc s of
      HNone \<Rightarrow> if irq s then Some (s\<lparr>irq := False, h_pc := HAcquire\<rparr>) else None
    | HAcquire \<Rightarrow> if tx_lock s = None then Some (s\<lparr>tx_lock := Some Intr, h_pc := HTest\<rparr>) else None
    | HTest \<Rightarrow> Some (s\<lparr>h_pc := if lsr_idle s then HClear else HRelease\<rparr>)
    | HClear \<Rightarrow> Some (s\<lparr>txbusy := False, h_pc := HWake 0\<rparr>)
    | HWake k \<Rightarrow>
        if \<not> k < n then Some (s\<lparr>h_pc := HRelease\<rparr>)
        else if p_lock s k = None then Some (s\<lparr>p_lock := (p_lock s)(k := Some Intr), h_pc := HCheck k\<rparr>)
        else None
    | HCheck k \<Rightarrow>
        Some (goto k (if w_pc s k = WAsleep then WRunnable else w_pc s k)
               (s\<lparr>p_lock := (p_lock s)(k := None), h_pc := HWake (Suc k)\<rparr>))
    | HRelease \<Rightarrow> Some (s\<lparr>tx_lock := None, h_pc := HNone\<rparr>))"

text \<open>
  The transmitter finishes what it has and raises the interrupt; \<open>uartputc_sync\<close> on some CPU has seen
  it idle and writes a character; a character arrives and raises the interrupt.
\<close>

fun tx_step :: "nat \<Rightarrow> agent \<Rightarrow> txsys \<Rightarrow> txsys option" where
  "tx_step n (Writer w) s = (if w < n then writer_step w s else None)"
| "tx_step n Intr s = intr_step n s"
| "tx_step n Device s = (if lsr_idle s then None else Some (s\<lparr>lsr_idle := True, irq := True, unsent := False\<rparr>))"
| "tx_step n Echo s =
     (if lsr_idle s \<and> 0 < echoes s then Some (s\<lparr>lsr_idle := False, echoes := echoes s - 1\<rparr>) else None)"
| "tx_step n Input s = (if 0 < inputs s then Some (s\<lparr>irq := True, inputs := inputs s - 1\<rparr>) else None)"

primrec tx_exec :: "nat \<Rightarrow> agent list \<Rightarrow> txsys \<Rightarrow> txsys option" where
  "tx_exec n [] s = Some s"
| "tx_exec n (a # as) s = (case tx_step n a s of None \<Rightarrow> None | Some s \<Rightarrow> tx_exec n as s)"

text \<open>The writers call \<open>uartwrite\<close> with \<open>data\<close>; the transmitter may still be busy with an earlier byte.\<close>

definition tx_start :: "bool \<Rightarrow> nat \<Rightarrow> nat \<Rightarrow> (nat \<Rightarrow> uint8 list) \<Rightarrow> txsys" where
  "tx_start b e i data =
     \<lparr>w_pc = (\<lambda>_. WAcquire), w_buf = data, h_pc = HNone, tx_lock = None, p_lock = (\<lambda>_. None), txbusy = b,
      lsr_idle = (\<not> b), irq = False, echoes = e, inputs = i, thr_log = [], unsent = b, overrun = False\<rparr>"

definition sent_by :: "nat \<Rightarrow> txsys \<Rightarrow> uint8 list" where
  "sent_by w s = map snd (filter (\<lambda>x. fst x = w) (thr_log s))"

section \<open>The invariant\<close>

fun has_tx :: "wpc \<Rightarrow> bool" where
  "has_tx WAcquire = False" | "has_tx WLoop = True" | "has_tx WBusy = True" | "has_tx WSend = True"
| "has_tx WMark = True" | "has_tx WRelease = True" | "has_tx WDone = False" | "has_tx WSleep = True"
| "has_tx WUnlock = True" | "has_tx WSched = False" | "has_tx WAsleep = False" | "has_tx WRunnable = False"
| "has_tx WReacquire = False"

fun handler_has_tx :: "hpc \<Rightarrow> bool" where
  "handler_has_tx HNone = False" | "handler_has_tx HAcquire = False" | "handler_has_tx HTest = True"
| "handler_has_tx HClear = True" | "handler_has_tx (HWake k) = True" | "handler_has_tx (HCheck k) = True"
| "handler_has_tx HRelease = True"

text \<open>The handler will still come to process \<open>w\<close>.\<close>

fun will_wake :: "nat \<Rightarrow> hpc \<Rightarrow> bool" where
  "will_wake w (HWake k) = (k \<le> w)" | "will_wake w (HCheck k) = (k \<le> w)" | "will_wake w _ = False"

text \<open>The transmitter is working, or has finished and the handler will see it idle.\<close>

definition will_clear :: "txsys \<Rightarrow> bool" where
  "will_clear s \<longleftrightarrow> \<not> lsr_idle s \<or> irq s \<or> h_pc s = HAcquire \<or> h_pc s = HTest \<or> h_pc s = HClear"

definition writer_inv :: "(nat \<Rightarrow> uint8 list) \<Rightarrow> txsys \<Rightarrow> nat \<Rightarrow> bool" where
  "writer_inv data s w \<longleftrightarrow>
     (tx_lock s = Some (Writer w) \<longleftrightarrow> has_tx (w_pc s w)) \<and>
     (h_pc s = HCheck w \<longrightarrow> w_pc s w \<notin> {WUnlock, WSched}) \<and>
     p_lock s w = (if w_pc s w \<in> {WUnlock, WSched} then Some (Writer w) else if h_pc s = HCheck w then Some Intr else None) \<and>
     (w_pc s w = WSend \<longrightarrow> \<not> txbusy s) \<and>
     (w_pc s w = WMark \<longrightarrow> will_clear s) \<and>
     (w_pc s w \<in> {WSleep, WUnlock, WSched, WAsleep} \<longrightarrow> txbusy s \<or> will_wake w (h_pc s)) \<and>
     (w_pc s w \<notin> {WAcquire, WLoop, WMark, WRelease, WDone} \<longrightarrow> w_buf s w \<noteq> []) \<and>
     (w_pc s w \<in> {WRelease, WDone} \<longrightarrow> w_buf s w = []) \<and>
     sent_by w s @ w_buf s w = data w"

definition marking :: "txsys \<Rightarrow> bool" where
  "marking s \<longleftrightarrow> (case tx_lock s of Some (Writer w) \<Rightarrow> w_pc s w = WMark | _ \<Rightarrow> False)"

definition shared_inv :: "nat \<Rightarrow> txsys \<Rightarrow> bool" where
  "shared_inv n s \<longleftrightarrow>
     (case tx_lock s of None \<Rightarrow> True | Some (Writer w) \<Rightarrow> w < n | Some a \<Rightarrow> a = Intr) \<and>
     (tx_lock s = Some Intr \<longleftrightarrow> handler_has_tx (h_pc s)) \<and>
     (case h_pc s of HCheck k \<Rightarrow> k < n | _ \<Rightarrow> True) \<and>
     (unsent s \<longrightarrow> \<not> lsr_idle s) \<and>
     (unsent s \<longrightarrow> txbusy s \<or> marking s) \<and>
     (h_pc s = HClear \<longrightarrow> \<not> unsent s) \<and>
     (txbusy s \<longrightarrow> will_clear s) \<and> \<not> overrun s"

definition tx_inv :: "nat \<Rightarrow> (nat \<Rightarrow> uint8 list) \<Rightarrow> txsys \<Rightarrow> bool" where
  "tx_inv n data s \<longleftrightarrow> shared_inv n s \<and> (\<forall>w<n. writer_inv data s w)"

lemma tx_inv_start: "tx_inv n data (tx_start b e i data)"
  by (auto simp: tx_inv_def shared_inv_def writer_inv_def tx_start_def sent_by_def will_clear_def)

lemma goto_simps [simp]:
  "w_pc (goto w pc s) = (w_pc s)(w := pc)" "w_buf (goto w pc s) = w_buf s" "h_pc (goto w pc s) = h_pc s"
  "tx_lock (goto w pc s) = tx_lock s" "p_lock (goto w pc s) = p_lock s" "txbusy (goto w pc s) = txbusy s"
  "lsr_idle (goto w pc s) = lsr_idle s" "irq (goto w pc s) = irq s" "echoes (goto w pc s) = echoes s"
  "inputs (goto w pc s) = inputs s" "thr_log (goto w pc s) = thr_log s" "unsent (goto w pc s) = unsent s"
  "overrun (goto w pc s) = overrun s"
  by (simp_all add: goto_def)

lemma sent_by_log: "thr_log s = thr_log t \<Longrightarrow> sent_by w s = sent_by w t"
  by (simp add: sent_by_def)

lemma will_clear_simps [simp]:
  "will_clear (goto w pc s) = will_clear s" "will_clear (s\<lparr>tx_lock := l\<rparr>) = will_clear s"
  "will_clear (s\<lparr>p_lock := ls\<rparr>) = will_clear s" "will_clear (s\<lparr>txbusy := b\<rparr>) = will_clear s"
  by (simp_all add: will_clear_def)

lemma sent_by_simps [simp]:
  "sent_by v (goto w pc s) = sent_by v s" "sent_by v (s\<lparr>tx_lock := l\<rparr>) = sent_by v s"
  "sent_by v (s\<lparr>p_lock := ls\<rparr>) = sent_by v s" "sent_by v (s\<lparr>txbusy := b\<rparr>) = sent_by v s"
  by (simp_all add: sent_by_def)

lemma writer_invD:
  assumes "writer_inv data s w"
  shows "tx_lock s = Some (Writer w) \<longleftrightarrow> has_tx (w_pc s w)"
    and "h_pc s = HCheck w \<Longrightarrow> w_pc s w \<noteq> WUnlock \<and> w_pc s w \<noteq> WSched"
    and "p_lock s w = (if w_pc s w \<in> {WUnlock, WSched} then Some (Writer w) else if h_pc s = HCheck w then Some Intr else None)"
    and "w_pc s w = WSend \<Longrightarrow> \<not> txbusy s" and "w_pc s w = WMark \<Longrightarrow> will_clear s"
    and "w_pc s w \<in> {WSleep, WUnlock, WSched, WAsleep} \<Longrightarrow> txbusy s \<or> will_wake w (h_pc s)"
    and "w_pc s w \<notin> {WAcquire, WLoop, WMark, WRelease, WDone} \<Longrightarrow> w_buf s w \<noteq> []"
    and "w_pc s w \<in> {WRelease, WDone} \<Longrightarrow> w_buf s w = []"
    and "sent_by w s @ w_buf s w = data w"
  using assms unfolding writer_inv_def by simp_all

lemma shared_invD:
  assumes "shared_inv n s"
  shows "case tx_lock s of None \<Rightarrow> True | Some (Writer w) \<Rightarrow> w < n | Some a \<Rightarrow> a = Intr"
    and "tx_lock s = Some Intr \<longleftrightarrow> handler_has_tx (h_pc s)" and "case h_pc s of HCheck k \<Rightarrow> k < n | _ \<Rightarrow> True"
    and "unsent s \<Longrightarrow> \<not> lsr_idle s" and "unsent s \<Longrightarrow> txbusy s \<or> marking s" and "h_pc s = HClear \<Longrightarrow> \<not> unsent s"
    and "txbusy s \<Longrightarrow> will_clear s" and "\<not> overrun s"
  using assms unfolding shared_inv_def by simp_all

text \<open>Only one process has the lock, and then the handler does not.\<close>

lemma lock_excludes:
  assumes i: "tx_inv n data s" and w: "w < n" "has_tx (w_pc s w)"
  shows "tx_lock s = Some (Writer w)" and "\<not> handler_has_tx (h_pc s)"
    and "\<And>v. v < n \<Longrightarrow> v \<noteq> w \<Longrightarrow> \<not> has_tx (w_pc s v)"
proof -
  have inv: "shared_inv n s" "\<And>v. v < n \<Longrightarrow> writer_inv data s v" using i by (simp_all add: tx_inv_def)
  show l: "tx_lock s = Some (Writer w)" using writer_invD(1) [OF inv(2)] w by blast
  show "\<not> handler_has_tx (h_pc s)" using shared_invD(2) [OF inv(1)] l by simp
  show "\<not> has_tx (w_pc s v)" if "v < n" "v \<noteq> w" for v using writer_invD(1) [OF inv(2) [OF that(1)]] l that(2) by simp
qed

lemma shared_inv_writer:
  assumes i: "tx_inv n data s" and w: "w < n" and st: "writer_step w s = Some s'"
  shows "shared_inv n s'"
proof -
  have sh: "shared_inv n s" and wi: "writer_inv data s w" using i w by (simp_all add: tx_inv_def)
  note sd = shared_invD [OF sh] and wd = writer_invD [OF wi]
  have m: "tx_lock s = Some (Writer w)" "\<not> handler_has_tx (h_pc s)" if "has_tx (w_pc s w)"
    using lock_excludes [OF i w that] by simp_all
  have u: "\<not> unsent s" if "w_pc s w = WSend" using sd(5) wd(4) m(1) that by (auto simp: marking_def)
  have f: "\<not> handler_has_tx (h_pc s)" if "tx_lock s = None" using sd(2) that by simp
  note d = writer_step_def shared_inv_def marking_def
  show ?thesis
  proof (cases "w_pc s w")
    case WAcquire
    then show ?thesis using st w sd f by (auto simp: d split: if_splits)
  next
    case WLoop
    then show ?thesis using st sd m by (auto simp: d)
  next
    case WBusy
    then show ?thesis using st sd m by (auto simp: d)
  next
    case WSend
    then show ?thesis using st w sd(3,8) m u by (auto simp: d will_clear_def)
  next
    case WMark
    then show ?thesis using st sd m wd(5) by (auto simp: d)
  next
    case WRelease
    then show ?thesis using st sd m by (auto simp: d)
  next
    case WSleep
    then show ?thesis using st sd m by (auto simp: d split: if_splits)
  next
    case WUnlock
    then show ?thesis using st sd m by (auto simp: d)
  next
    case WSched
    then have "tx_lock s \<noteq> Some (Writer w)" using wd(1) by simp
    then show ?thesis using st sd WSched by (auto simp: d split: option.splits agent.splits)
  next
    case WRunnable
    then have "tx_lock s \<noteq> Some (Writer w)" using wd(1) by simp
    then show ?thesis using st sd WRunnable by (auto simp: d split: option.splits agent.splits if_splits)
  next
    case WReacquire
    then show ?thesis using st w sd f by (auto simp: d split: if_splits)
  qed (use st in \<open>simp_all add: writer_step_def\<close>)
qed

lemma writer_inv_self:
  assumes i: "tx_inv n data s" and w: "w < n" and st: "writer_step w s = Some s'"
  shows "writer_inv data s' w"
proof -
  have wi: "writer_inv data s w" using i w by (simp add: tx_inv_def)
  note wd = writer_invD [OF wi]
  note d = writer_step_def writer_inv_def
  show ?thesis
  proof (cases "w_pc s w")
    case WAcquire
    then show ?thesis using st wi by (clarsimp simp: d split: if_splits)
  next
    case WLoop
    then show ?thesis using st wi by (clarsimp simp: d split: if_splits)
  next
    case WBusy
    then show ?thesis using st wi by (clarsimp simp: d split: if_splits)
  next
    case WSend
    then have "sent_by w s' = sent_by w s @ [hd (w_buf s w)]" "w_buf s w \<noteq> []"
      using st wd(7) by (auto simp: writer_step_def sent_by_def)
    then show ?thesis using WSend st wd(1,2,3,9) by (auto simp: d will_clear_def)
  next
    case WMark
    then show ?thesis using st wi by (clarsimp simp: d split: if_splits)
  next
    case WRelease
    then show ?thesis using st wi by (clarsimp simp: d split: if_splits)
  next
    case WSleep
    then show ?thesis using st wi by (clarsimp simp: d split: if_splits)
  next
    case WUnlock
    then show ?thesis using st wi by (clarsimp simp: d split: if_splits)
  next
    case WSched
    then show ?thesis using st wi by (clarsimp simp: d split: if_splits)
  next
    case WRunnable
    then show ?thesis using st wi by (clarsimp simp: d split: if_splits)
  next
    case WReacquire
    then show ?thesis using st wi by (clarsimp simp: d split: if_splits)
  qed (use st in \<open>simp_all add: writer_step_def\<close>)
qed

text \<open>What a step of one writer does to the others.\<close>

lemma writer_step_others:
  assumes st: "writer_step w s = Some s'" and v: "v \<noteq> w"
  shows "w_pc s' v = w_pc s v" "w_buf s' v = w_buf s v" "p_lock s' v = p_lock s v" "h_pc s' = h_pc s"
    "sent_by v s' = sent_by v s" "txbusy s \<Longrightarrow> txbusy s'" "will_clear s \<Longrightarrow> will_clear s'"
    "w_pc s w \<noteq> WMark \<Longrightarrow> txbusy s' = txbusy s"
    "tx_lock s' \<noteq> tx_lock s \<Longrightarrow> tx_lock s = None \<and> tx_lock s' = Some (Writer w) \<or> has_tx (w_pc s w) \<and> tx_lock s' = None"
  using st v
  by (cases "w_pc s w"; auto simp: writer_step_def sent_by_def will_clear_def goto_def split: if_splits)+

lemma writer_inv_other:
  assumes i: "tx_inv n data s" and w: "w < n" and st: "writer_step w s = Some s'" and v: "v < n" "v \<noteq> w"
  shows "writer_inv data s' v"
proof -
  have vi: "writer_inv data s v" using i v by (simp_all add: tx_inv_def)
  note o = writer_step_others [OF st v(2)] and vd = writer_invD [OF vi]
  have l: "tx_lock s' = Some (Writer v) \<longleftrightarrow> tx_lock s = Some (Writer v)"
    using o(9) lock_excludes(1) [OF i w] v(2) by (cases "tx_lock s' = tx_lock s") auto
  have b: "\<not> txbusy s'" if "w_pc s v = WSend"
  proof -
    have "w_pc s w \<noteq> WMark" using lock_excludes(3) [OF i v(1), of w] that w v(2) by auto
    then show ?thesis using o(8) vd(4) that by simp
  qed
  show ?thesis
    unfolding writer_inv_def o(1-5) l using vd b o(6,7) by blast
qed

lemma tx_inv_writer:
  assumes "tx_inv n data s" "w < n" "writer_step w s = Some s'"
  shows "tx_inv n data s'"
  unfolding tx_inv_def
  using shared_inv_writer [OF assms] writer_inv_self [OF assms] writer_inv_other [OF assms] by blast

lemma shared_inv_intr:
  assumes i: "tx_inv n data s" and st: "intr_step n s = Some s'"
  shows "shared_inv n s'"
proof -
  have sh: "shared_inv n s" using i by (simp_all add: tx_inv_def)
  note sd = shared_invD [OF sh]
  note d = intr_step_def shared_inv_def marking_def will_clear_def
  show ?thesis
  proof (cases "h_pc s")
    case HNone
    then have "marking s' = marking s" using st by (auto simp: intr_step_def marking_def split: if_splits option.splits agent.splits)
    then show ?thesis using HNone st sd(1,2,4,5,7,8) by (auto simp: intr_step_def shared_inv_def will_clear_def split: if_splits)
  next
    case HAcquire
    then show ?thesis using st sd(4,5,8) by (auto simp: d split: if_splits)
  next
    case HTest
    then show ?thesis using st sd(2,4,5,8) by (auto simp: d split: if_splits)
  next
    case HClear
    then show ?thesis using st sd(2,6,8) by (auto simp: d)
  next
    case (HWake k)
    then show ?thesis using st sd(2,4,5,7,8) by (auto simp: d split: if_splits)
  next
    case (HCheck k)
    then have "marking s' = marking s" using st sd(2) by (auto simp: intr_step_def marking_def)
    then show ?thesis using HCheck st sd(2,4,5,7,8) by (auto simp: intr_step_def shared_inv_def will_clear_def)
  next
    case HRelease
    then show ?thesis using st sd(2,4,5,7,8) by (auto simp: d)
  qed
qed

lemma writer_inv_intr:
  assumes i: "tx_inv n data s" and st: "intr_step n s = Some s'" and w: "w < n"
  shows "writer_inv data s' w"
proof -
  have sh: "shared_inv n s" and wi: "writer_inv data s w" using i w by (simp_all add: tx_inv_def)
  note sd = shared_invD [OF sh] and wd = writer_invD [OF wi]
  note d = intr_step_def writer_inv_def
  have x: "\<not> has_tx (w_pc s w)" "w_pc s w \<noteq> WMark" "w_pc s w \<noteq> WSend" "w_pc s w \<noteq> WSleep" "w_pc s w \<noteq> WUnlock" if "handler_has_tx (h_pc s)"
    using lock_excludes(2) [OF i w] that by auto
  have sb: "sent_by w s' = sent_by w s" using st by (cases "h_pc s") (auto simp: intr_step_def sent_by_def split: if_splits)
  show ?thesis
  proof (cases "h_pc s")
    case HNone
    then have s': "s' = s\<lparr>irq := False, h_pc := HAcquire\<rparr>" using st by (simp add: intr_step_def split: if_splits)
    have "will_clear s'" by (simp add: s' will_clear_def)
    then show ?thesis using wi sb by (simp add: s' writer_inv_def HNone)
  next
    case HAcquire
    then have s': "s' = s\<lparr>tx_lock := Some Intr, h_pc := HTest\<rparr>" "tx_lock s = None" using st by (simp_all add: intr_step_def split: if_splits)
    have "will_clear s'" by (simp add: s' will_clear_def)
    then show ?thesis using wi sb by (simp add: s' writer_inv_def HAcquire)
  next
    case HTest
    then have s': "s' = s\<lparr>h_pc := if lsr_idle s then HClear else HRelease\<rparr>" using st by (simp add: intr_step_def)
    show ?thesis using wi sb x HTest by (simp add: s' writer_inv_def)
  next
    case HClear
    then have s': "s' = s\<lparr>txbusy := False, h_pc := HWake 0\<rparr>" using st by (simp add: intr_step_def)
    show ?thesis using wi sb x HClear by (simp add: s' writer_inv_def)
  next
    case (HWake k)
    then consider "s' = s\<lparr>h_pc := HRelease\<rparr>" "n \<le> k"
      | "s' = s\<lparr>p_lock := (p_lock s)(k := Some Intr), h_pc := HCheck k\<rparr>" "p_lock s k = None"
      using st by (auto simp: intr_step_def split: if_splits)
    then show ?thesis
    proof cases
      case 1
      then have "\<not> k \<le> w" using w by simp
      then show ?thesis using wi sb x HWake by (simp add: 1 writer_inv_def)
    next
      case 2
      show ?thesis
      proof (cases "k = w")
        case True
        then have "w_pc s w \<noteq> WSched" using 2(2) wd(3) by auto
        then show ?thesis using wi sb x HWake True by (simp add: 2 writer_inv_def)
      next
        case False
        then show ?thesis using wi sb x HWake by (simp add: 2 writer_inv_def)
      qed
    qed
  next
    case (HCheck k)
    then have s': "s' = goto k (if w_pc s k = WAsleep then WRunnable else w_pc s k) (s\<lparr>p_lock := (p_lock s)(k := None), h_pc := HWake (Suc k)\<rparr>)"
      using st by (simp add: intr_step_def)
    show ?thesis
    proof (cases "k = w")
      case True
      then show ?thesis using wi sb x HCheck by (simp add: s' writer_inv_def)
    next
      case False
      then have "k \<le> w \<longleftrightarrow> Suc k \<le> w" by auto
      then show ?thesis using wi sb x HCheck False by (simp add: s' writer_inv_def)
    qed
  next
    case HRelease
    then have s': "s' = s\<lparr>tx_lock := None, h_pc := HNone\<rparr>" using st by (simp add: intr_step_def)
    show ?thesis using wi sb x HRelease by (simp add: s' writer_inv_def)
  qed
qed

lemma tx_inv_intr:
  assumes "tx_inv n data s" "intr_step n s = Some s'"
  shows "tx_inv n data s'"
  unfolding tx_inv_def using shared_inv_intr [OF assms] writer_inv_intr [OF assms] by blast

text \<open>The device, \<open>uartputc_sync\<close> and the keyboard touch only the registers.\<close>

lemma tx_inv_registers:
  assumes i: "tx_inv n data s" and imp: "unsent s' \<Longrightarrow> unsent s" "unsent s' \<Longrightarrow> \<not> lsr_idle s'" "will_clear s \<Longrightarrow> will_clear s'"
    and eq: "w_pc s' = w_pc s" "w_buf s' = w_buf s" "h_pc s' = h_pc s" "tx_lock s' = tx_lock s" "p_lock s' = p_lock s"
      "txbusy s' = txbusy s" "thr_log s' = thr_log s" "overrun s' = overrun s"
  shows "tx_inv n data s'"
proof -
  note sd = shared_invD [of n s]
  have sh: "shared_inv n s" and wi: "\<And>w. w < n \<Longrightarrow> writer_inv data s w" using i by (simp_all add: tx_inv_def)
  have m: "marking s' = marking s" unfolding marking_def eq ..
  have "shared_inv n s'" using sd [OF sh] imp unfolding shared_inv_def m eq by blast
  moreover have "writer_inv data s' w" if "w < n" for w
    using writer_invD [OF wi [OF that]] imp(3) unfolding writer_inv_def eq sent_by_log [OF eq(7)] by blast
  ultimately show ?thesis by (simp add: tx_inv_def)
qed

lemma tx_inv_step:
  assumes i: "tx_inv n data s" and st: "tx_step n a s = Some s'"
  shows "tx_inv n data s'"
proof (cases a)
  case (Writer w)
  then show ?thesis using st tx_inv_writer [OF i] by (simp split: if_splits)
next
  case Intr
  then show ?thesis using st tx_inv_intr [OF i] by simp
next
  case Device
  with st have "s' = s\<lparr>lsr_idle := True, irq := True, unsent := False\<rparr>" by (simp split: if_splits)
  then show ?thesis by (intro tx_inv_registers [OF i]) (simp_all add: will_clear_def)
next
  case Echo
  with st have "s' = s\<lparr>lsr_idle := False, echoes := echoes s - 1\<rparr>" by (simp split: if_splits)
  then show ?thesis by (intro tx_inv_registers [OF i]) (simp_all add: will_clear_def)
next
  case Input
  with st have "s' = s\<lparr>irq := True, inputs := inputs s - 1\<rparr>" by (simp split: if_splits)
  then show ?thesis using i
    by (intro tx_inv_registers [OF i]) (simp_all add: will_clear_def tx_inv_def shared_inv_def)
qed

section \<open>Every schedule ends\<close>

text \<open>
  How many steps can still come. A byte costs what its interrupt costs; an interrupt pays for the
  process it may wake, once for each process.
\<close>

fun w_steps :: "wpc \<Rightarrow> nat" where
  "w_steps WAcquire = 9" | "w_steps WLoop = 8" | "w_steps WBusy = 6" | "w_steps WSend = 5"
| "w_steps WMark = 9" | "w_steps WRelease = 1" | "w_steps WDone = 0" | "w_steps WSleep = 5"
| "w_steps WUnlock = 4" | "w_steps WSched = 3" | "w_steps WAsleep = 2" | "w_steps WRunnable = 8"
| "w_steps WReacquire = 7"

fun h_steps :: "nat \<Rightarrow> hpc \<Rightarrow> nat" where
  "h_steps n HNone = 0" | "h_steps n HAcquire = 9 * n + 5" | "h_steps n HTest = 9 * n + 4"
| "h_steps n HClear = 9 * n + 3" | "h_steps n (HWake k) = 9 * (n - k) + 2"
| "h_steps n (HCheck k) = 9 * (n - k) + 1" | "h_steps n HRelease = 1"

definition steps_left :: "nat \<Rightarrow> txsys \<Rightarrow> nat" where
  "steps_left n s =
     (\<Sum>w<n. w_steps (w_pc s w)) + (9 * n + 12) * (\<Sum>w<n. length (w_buf s w)) + h_steps n (h_pc s) +
     (if irq s then 9 * n + 6 else 0) + (if lsr_idle s then 0 else 9 * n + 7) +
     (9 * n + 8) * echoes s + (9 * n + 7) * inputs s"

lemma sum_upd:
  assumes "w < (n :: nat)"
  shows "(\<Sum>v<n. f ((g(w := x)) v)) + f (g w) = (\<Sum>v<n. f (g v)) + (f x :: nat)"
proof -
  have "(\<Sum>v\<in>{..<n} - {w}. f ((g(w := x)) v)) = (\<Sum>v\<in>{..<n} - {w}. f (g v))" by (intro sum.cong) auto
  then show ?thesis
    using sum.remove [of "{..<n}" w "\<lambda>v. f ((g(w := x)) v)"] sum.remove [of "{..<n}" w "\<lambda>v. f (g v)"] assms by simp
qed

lemma steps_left_writer:
  assumes i: "tx_inv n data s" and w: "w < n" and st: "writer_step w s = Some s'"
  shows "steps_left n s' < steps_left n s"
proof -
  let ?W = "\<lambda>s. \<Sum>v<n. w_steps (w_pc s v)" and ?B = "\<lambda>s. \<Sum>v<n. length (w_buf s v)"
  have wi: "writer_inv data s w" using i w by (simp add: tx_inv_def)
  have r: "h_pc s' = h_pc s" "irq s' = irq s" "echoes s' = echoes s" "inputs s' = inputs s"
    using st by (cases "w_pc s w"; auto simp: writer_step_def split: if_splits)+
  have e: "w_pc s' = (w_pc s)(w := w_pc s' w)"
    using st by (cases "w_pc s w") (auto simp: writer_step_def split: if_splits)
  have W: "?W s' + w_steps (w_pc s w) = ?W s + w_steps (w_pc s' w)"
    using sum_upd [OF w, of w_steps "w_pc s" "w_pc s' w"] unfolding e [symmetric] .
  show ?thesis
  proof (cases "w_pc s w = WSend")
    case True
    have b: "w_buf s' = (w_buf s)(w := tl (w_buf s w))" "w_pc s' w = WMark" using True st by (auto simp: writer_step_def)
    have "w_buf s w \<noteq> []" using writer_invD(7) [OF wi] True by simp
    then have B: "?B s' + 1 = ?B s" using sum_upd [OF w, of length "w_buf s" "tl (w_buf s w)"] unfolding b by (cases "w_buf s w") auto
    then have "(9 * n + 12) * ?B s = (9 * n + 12) * ?B s' + (9 * n + 12)" by (metis distrib_left mult.right_neutral)
    then show ?thesis using W unfolding True b(2) steps_left_def r by auto
  next
    case False
    then have "w_buf s' = w_buf s" "lsr_idle s' = lsr_idle s" "w_steps (w_pc s' w) < w_steps (w_pc s w)"
      using st by (cases "w_pc s w"; auto simp: writer_step_def split: if_splits)+
    then show ?thesis using W unfolding steps_left_def r by simp
  qed
qed

lemma steps_left_intr:
  assumes i: "tx_inv n data s" and st: "intr_step n s = Some s'"
  shows "steps_left n s' < steps_left n s"
proof -
  let ?W = "\<lambda>s. \<Sum>v<n. w_steps (w_pc s v)"
  have r: "w_buf s' = w_buf s" "lsr_idle s' = lsr_idle s" "echoes s' = echoes s" "inputs s' = inputs s"
    using st by (cases "h_pc s"; auto simp: intr_step_def split: if_splits)+
  show ?thesis
  proof (cases "\<exists>k. h_pc s = HCheck k")
    case True
    then obtain k where k: "h_pc s = HCheck k" by blast
    then have "k < n" using i by (simp add: tx_inv_def shared_inv_def)
    let ?pc = "if w_pc s k = WAsleep then WRunnable else w_pc s k"
    have s': "w_pc s' = (w_pc s)(k := ?pc)" "h_pc s' = HWake (Suc k)" "irq s' = irq s" using st k by (auto simp: intr_step_def)
    have "?W s' + w_steps (w_pc s k) = ?W s + w_steps ?pc" using sum_upd [OF \<open>k < n\<close>, of w_steps "w_pc s" ?pc] unfolding s' .
    then have "?W s' \<le> ?W s + 6" by (auto split: if_splits)
    then show ?thesis using \<open>k < n\<close> unfolding steps_left_def r s'(2,3) k by auto
  next
    case False
    then have "w_pc s' = w_pc s" using st by (cases "h_pc s") (auto simp: intr_step_def split: if_splits)
    then show ?thesis using False st unfolding steps_left_def r
      by (cases "h_pc s") (auto simp: intr_step_def split: if_splits)
  qed
qed

lemma steps_left_step:
  assumes i: "tx_inv n data s" and st: "tx_step n a s = Some s'"
  shows "steps_left n s' < steps_left n s"
proof (cases a)
  case (Writer w)
  then show ?thesis using st steps_left_writer [OF i] by (simp split: if_splits)
next
  case Intr
  then show ?thesis using st steps_left_intr [OF i] by simp
next
  case Device
  then show ?thesis using st by (auto simp: steps_left_def split: if_splits)
next
  case Echo
  then show ?thesis using st by (cases "echoes s") (auto simp: steps_left_def split: if_splits)
next
  case Input
  then show ?thesis using st by (cases "inputs s") (auto simp: steps_left_def split: if_splits)
qed

lemma tx_exec_inv:
  assumes "tx_exec n as s = Some s'" "tx_inv n data s"
  shows "tx_inv n data s' \<and> length as + steps_left n s' \<le> steps_left n s"
  using assms
proof (induction as arbitrary: s)
  case (Cons a as)
  then obtain t where t: "tx_step n a s = Some t" "tx_exec n as t = Some s'" by (auto split: option.splits)
  from Cons.IH [OF t(2) tx_inv_step [OF Cons.prems(2) t(1)]] steps_left_step [OF Cons.prems(2) t(1)]
  show ?case by auto
qed simp

section \<open>No wakeup is lost\<close>

text \<open>When nobody can take a step, every writer has returned.\<close>

lemma stuck_done:
  assumes i: "tx_inv n data s" and stuck: "\<And>a. tx_step n a s = None" and w: "w < n"
  shows "w_pc s w = WDone"
proof -
  have sh: "shared_inv n s" and wi: "\<And>v. v < n \<Longrightarrow> writer_inv data s v" using i by (simp_all add: tx_inv_def)
  note sd = shared_invD [OF sh]
  have idle: "lsr_idle s" using stuck [of Device] by (simp split: if_splits)
  have wr: "writer_step v s = None" if "v < n" for v using stuck [of "Writer v"] that by simp
  have it: "intr_step n s = None" using stuck [of Intr] by simp
  have nc: "h_pc s \<noteq> HCheck k" for k using it by (auto simp: intr_step_def)
  have pl: "p_lock s v = None" if "v < n" for v
    using writer_invD(3) [OF wi [OF that]] wr [OF that] nc by (auto simp: writer_step_def)
  have nt: "\<not> has_tx (w_pc s v)" if "v < n" for v
    using wr [OF that] pl [OF that] by (cases "w_pc s v") (auto simp: writer_step_def)
  have nh: "\<not> handler_has_tx (h_pc s)"
    using it pl by (cases "h_pc s") (auto simp: intr_step_def split: if_splits)
  have free: "tx_lock s = None"
    using sd(1,2) nh nt writer_invD(1) [OF wi] by (cases "tx_lock s"; cases "the (tx_lock s)") auto
  then have "h_pc s = HNone" "\<not> irq s" using it nh by (cases "h_pc s"; auto simp: intr_step_def split: if_splits)+
  then have "\<not> txbusy s" "\<not> will_wake w (h_pc s)" using sd(7) idle by (auto simp: will_clear_def)
  then have "w_pc s w \<noteq> WAsleep" using writer_invD(6) [OF wi [OF w]] by auto
  then show ?thesis using wr [OF w] free pl [OF w] by (cases "w_pc s w") (auto simp: writer_step_def split: if_splits)
qed

text \<open>
  C26. Any number of processes write to the console at once, with interrupts, arriving characters and
  characters put out by the kernel itself in any interleaving with the steps of \<open>uartwrite\<close>, \<open>sleep\<close>,
  \<open>uartintr\<close> and \<open>wakeup\<close>. Every schedule is finite, with a bound on its length; when no more steps
  are possible every \<open>uartwrite\<close> has returned, so no writer sleeps through its wakeup. The bytes a
  writer has put into THR are at each moment the first ones of its buffer in their order, and in
  the end all of it; and no writer puts a byte there while an earlier one of \<open>uartwrite\<close> is in the
  transmitter.
\<close>

theorem uartwrite_completes:
  assumes "tx_exec n as (tx_start b e i data) = Some s"
  shows "length as \<le> (9 * n + 12) * (n + (\<Sum>w<n. length (data w)) + e + i + 1) \<and> \<not> overrun s \<and>
    (\<forall>w<n. sent_by w s @ w_buf s w = data w) \<and>
    ((\<forall>a. tx_step n a s = None) \<longrightarrow> (\<forall>w<n. w_pc s w = WDone \<and> sent_by w s = data w))"
proof (intro conjI)
  note x = tx_exec_inv [OF assms tx_inv_start]
  have "steps_left n (tx_start b e i data) \<le> (9 * n + 12) * (n + (\<Sum>w<n. length (data w)) + e + i + 1)"
    by (simp add: steps_left_def tx_start_def algebra_simps)
  with x show "length as \<le> (9 * n + 12) * (n + (\<Sum>w<n. length (data w)) + e + i + 1)" by linarith
  have sh: "shared_inv n s" and wi: "\<And>w. w < n \<Longrightarrow> writer_inv data s w" using x by (simp_all add: tx_inv_def)
  show "\<not> overrun s" by (rule shared_invD(8) [OF sh])
  show all: "\<forall>w<n. sent_by w s @ w_buf s w = data w" using writer_invD(9) [OF wi] by blast
  show "(\<forall>a. tx_step n a s = None) \<longrightarrow> (\<forall>w<n. w_pc s w = WDone \<and> sent_by w s = data w)"
  proof (intro impI allI)
    fix w assume st: "\<forall>a. tx_step n a s = None" and w: "w < n"
    have dn: "w_pc s w = WDone" using stuck_done [of n data s] x st w by blast
    then have "w_buf s w = []" using writer_invD(8) [OF wi [OF w]] by simp
    then show "w_pc s w = WDone \<and> sent_by w s = data w" using dn all w by auto
  qed
qed

text \<open>
  Two writers with a byte each. The second finds the transmitter busy and sleeps; the interrupt wakes it.
\<close>

definition two_writers :: "nat \<Rightarrow> uint8 list" where
  "two_writers w = (if w = 0 then [104] else [105])"

definition two_writers_schedule :: "agent list" where
  "two_writers_schedule =
     replicate 7 (Writer 0) @ replicate 6 (Writer 1) @ [Device] @ replicate 10 Intr @ replicate 7 (Writer 1) @ [Device] @ replicate 10 Intr"

theorem uartwrite_completes_witness:
  "\<exists>s. tx_exec 2 two_writers_schedule (tx_start False 0 0 two_writers) = Some s \<and> \<not> overrun s \<and>
     (\<forall>w<2. w_pc s w = WDone \<and> sent_by w s = two_writers w) \<and> length two_writers_schedule \<le> 150"
proof -
  have "\<exists>s. tx_exec 2 two_writers_schedule (tx_start False 0 0 two_writers) = Some s \<and> (\<forall>a. tx_step 2 a s = None)"
  proof -
    obtain s where s: "tx_exec 2 two_writers_schedule (tx_start False 0 0 two_writers) = Some s"
      and f: "w_pc s 0 = WDone" "w_pc s 1 = WDone" "h_pc s = HNone" "\<not> irq s" "lsr_idle s" "echoes s = 0" "inputs s = 0"
      by (simp add: two_writers_schedule_def tx_start_def two_writers_def numeral_eq_Suc writer_step_def intr_step_def goto_def)
    have "tx_step 2 a s = None" for a
    proof (cases a)
      case (Writer w)
      then show ?thesis using f by (cases "w = 0"; cases "w = 1") (auto simp: writer_step_def)
    qed (use f in \<open>simp_all add: intr_step_def\<close>)
    with s show ?thesis by blast
  qed
  then obtain s where s: "tx_exec 2 two_writers_schedule (tx_start False 0 0 two_writers) = Some s" "\<forall>a. tx_step 2 a s = None" by blast
  have "(\<Sum>w<2. length (two_writers w)) = 2" by (simp add: two_writers_def numeral_2_eq_2)
  with uartwrite_completes [OF s(1)] s show ?thesis by (intro exI [of _ s]) auto
qed

section \<open>A writer that is not disturbed\<close>

text \<open>
  From \<open>acquire(&tx_lock)\<close> to its \<open>sleep\<close> or \<open>release\<close> a writer holds the lock. Running it alone from the
  loop on sends the bytes and leaves the flag as \<open>uartwrite\<close> of the sequential theory says.
\<close>

lemma writer_alone:
  assumes "w < n" "w_pc s w = WLoop" "txbusy s = tx_busy u" "uartwrite (w_buf s w) u = (rest, u')"
  shows "\<exists>k s'. tx_exec n (replicate k (Writer w)) s = Some s' \<and> w_pc s' w = (if rest = [] then WRelease else WSleep) \<and>
    w_buf s' w = rest \<and> txbusy s' = tx_busy u' \<and> sent_by w s' @ rest = sent_by w s @ w_buf s w"
  using assms
proof (induction "w_buf s w" arbitrary: s u)
  case Nil
  then show ?case by (intro exI [of _ "Suc 0"]) (auto simp: writer_step_def)
next
  case (Cons c cs)
  note b = Cons.hyps(2) [symmetric]
  show ?case
  proof (cases "tx_busy u")
    case True
    then have r: "rest = w_buf s w" "tx_busy u'" using Cons.prems b by (auto simp: sleep_enter_def upd_proc_def)
    show ?thesis using Cons.prems True b r by (intro exI [of _ "Suc (Suc 0)"]) (auto simp: writer_step_def)
  next
    case False
    define t where "t = goto w WLoop (s\<lparr>w_buf := (w_buf s)(w := cs), lsr_idle := False, thr_log := thr_log s @ [(w, c)],
      overrun := overrun s \<or> unsent s, unsent := True, txbusy := True\<rparr>)"
    have run: "tx_exec n (replicate (4 + k) (Writer w)) s = tx_exec n (replicate k (Writer w)) t" for k
      using Cons.prems False b by (simp add: numeral_eq_Suc writer_step_def t_def goto_def)
    have tt: "w_buf t w = cs" "w_pc t w = WLoop" "txbusy t" "sent_by w t = sent_by w s @ [c]"
      by (simp_all add: t_def sent_by_def)
    have "uartwrite cs ((send_byte c u)\<lparr>tx_busy := True\<rparr>) = (rest, u')" using Cons.prems False b by simp
    with Cons.hyps(1) [of t "(send_byte c u)\<lparr>tx_busy := True\<rparr>"] tt Cons.prems(1) obtain k s' where
      "tx_exec n (replicate k (Writer w)) t = Some s'" "w_pc s' w = (if rest = [] then WRelease else WSleep)"
      "w_buf s' w = rest" "txbusy s' = tx_busy u'" "sent_by w s' @ rest = sent_by w t @ w_buf t w"
      by auto
    then show ?thesis using run [of k] tt b by (intro exI [of _ "4 + k"] exI [of _ s']) simp
  qed
qed

end
