(* ===== verification/Umalloc.thy ===== *)
theory Umalloc
  imports Main
begin

text \<open>
  The user-space allocator, \<open>user/umalloc.c\<close>. Addresses are counted in units of \<open>sizeof(Header)\<close>, 16
  bytes; the break of a process is a multiple of it as long as only the allocator moves it. The
  fields of a header are read and written by its address; \<open>size\<close> is a \<open>uint\<close>, so its sums are taken
  modulo \<open>2 ^ 32\<close>. Whether the kernel grants a request of \<open>sbrk\<close> is an argument. The loops over the
  circular list run forever if the list is damaged, which is the value \<open>None\<close>.
\<close>

section \<open>Operations\<close>

record heap =
  hptr :: "nat \<Rightarrow> nat"
  hsize :: "nat \<Rightarrow> nat"
  hbase :: nat
  freep :: nat
  brk :: nat

definition uint_add :: "nat \<Rightarrow> nat \<Rightarrow> nat" where
  "uint_add a b = (a + b) mod 2 ^ 32"

definition set_ptr :: "nat \<Rightarrow> nat \<Rightarrow> heap \<Rightarrow> heap" where
  "set_ptr p v h = h\<lparr>hptr := (hptr h)(p := v)\<rparr>"

definition set_size :: "nat \<Rightarrow> nat \<Rightarrow> heap \<Rightarrow> heap" where
  "set_size p v h = h\<lparr>hsize := (hsize h)(p := v)\<rparr>"

partial_function (option) find_slot :: "heap \<Rightarrow> nat \<Rightarrow> nat \<Rightarrow> nat option" where
  "find_slot h bp p =
     (if bp > p \<and> bp < hptr h p then Some p
      else if p \<ge> hptr h p \<and> (bp > p \<or> bp < hptr h p) then Some p
      else find_slot h bp (hptr h p))"

definition join_next :: "nat \<Rightarrow> nat \<Rightarrow> heap \<Rightarrow> heap" where
  "join_next bp p h =
     (let z = hptr h p in
      if bp + hsize h bp = z
      then set_ptr bp (hptr h z) (set_size bp (uint_add (hsize h bp) (hsize h z)) h)
      else set_ptr bp z h)"

definition join_prev :: "nat \<Rightarrow> nat \<Rightarrow> heap \<Rightarrow> heap" where
  "join_prev bp p h =
     (if p + hsize h p = bp
      then set_ptr p (hptr h bp) (set_size p (uint_add (hsize h p) (hsize h bp)) h)
      else set_ptr p bp h)"

definition free :: "nat \<Rightarrow> heap \<Rightarrow> heap option" where
  "free ap h =
     (let bp = ap - 1 in
      case find_slot h bp (freep h) of
        None \<Rightarrow> None
      | Some p \<Rightarrow> Some ((join_prev bp p (join_next bp p h))\<lparr>freep := p\<rparr>))"

text \<open>The argument of \<open>sbrk\<close> is an \<open>int\<close>.\<close>

definition to_int32 :: "nat \<Rightarrow> int" where
  "to_int32 n = (int n + 2 ^ 31) mod 2 ^ 32 - 2 ^ 31"

definition sbrk :: "(int \<Rightarrow> heap \<Rightarrow> bool) \<Rightarrow> int \<Rightarrow> heap \<Rightarrow> nat option \<times> heap" where
  "sbrk grant n h = (if grant n h then (Some (brk h), h\<lparr>brk := nat (int (brk h) + n div 16)\<rparr>) else (None, h))"

definition morecore :: "(int \<Rightarrow> heap \<Rightarrow> bool) \<Rightarrow> nat \<Rightarrow> heap \<Rightarrow> (nat \<times> heap) option" where
  "morecore grant nu h =
     (let nu = (if nu < 4096 then 4096 else nu) in
      case sbrk grant (to_int32 (nu * 16)) h of
        (None, h) \<Rightarrow> Some (0, h)
      | (Some hp, h) \<Rightarrow>
          (case free (hp + 1) (set_size hp nu h) of None \<Rightarrow> None | Some h \<Rightarrow> Some (freep h, h)))"

definition take_block :: "nat \<Rightarrow> nat \<Rightarrow> nat \<Rightarrow> heap \<Rightarrow> nat \<times> heap" where
  "take_block nunits prevp p h =
     (if hsize h p = nunits then (p + 1, (set_ptr prevp (hptr h p) h)\<lparr>freep := prevp\<rparr>)
      else
        let h = set_size p (hsize h p - nunits) h; p = p + hsize h p; h = set_size p nunits h
        in (p + 1, h\<lparr>freep := prevp\<rparr>))"

partial_function (option) malloc_loop :: "(int \<Rightarrow> heap \<Rightarrow> bool) \<Rightarrow> nat \<Rightarrow> nat \<Rightarrow> nat \<Rightarrow> heap \<Rightarrow> (nat \<times> heap) option" where
  "malloc_loop grant nunits prevp p h =
     (if hsize h p \<ge> nunits then Some (take_block nunits prevp p h)
      else if p = freep h then
        (case morecore grant nunits h of
           None \<Rightarrow> None
         | Some (q, h) \<Rightarrow> if q = 0 then Some (0, h) else malloc_loop grant nunits q (hptr h q) h)
      else malloc_loop grant nunits p (hptr h p) h)"

definition nunits_of :: "nat \<Rightarrow> nat" where
  "nunits_of nbytes = (nbytes + 16 - 1) div 16 + 1"

definition malloc_init :: "heap \<Rightarrow> heap" where
  "malloc_init h =
     (if freep h = 0 then (set_size (hbase h) 0 (set_ptr (hbase h) (hbase h) h))\<lparr>freep := hbase h\<rparr> else h)"

definition malloc :: "(int \<Rightarrow> heap \<Rightarrow> bool) \<Rightarrow> nat \<Rightarrow> heap \<Rightarrow> (nat \<times> heap) option" where
  "malloc grant nbytes h =
     (let h = malloc_init h in malloc_loop grant (nunits_of nbytes) (freep h) (hptr h (freep h)) h)"

section \<open>The free list\<close>

text \<open>\<open>succ S x z\<close>: going round the set \<open>S\<close> of addresses upwards, \<open>z\<close> comes after \<open>x\<close>.\<close>

definition succ_in :: "nat set \<Rightarrow> nat \<Rightarrow> nat \<Rightarrow> bool" where
  "succ_in S x z \<longleftrightarrow> z \<in> S \<and> (if x < z then \<forall>y\<in>S. \<not> (x < y \<and> y < z) else \<forall>y\<in>S. y \<le> x \<and> z \<le> y)"

text \<open>The list consists of the headers at \<open>S\<close>, in the order of their addresses, with the base first; blocks do not overlap.\<close>

definition ring_inv :: "nat set \<Rightarrow> heap \<Rightarrow> bool" where
  "ring_inv S h \<longleftrightarrow>
     finite S \<and> hbase h \<in> S \<and> (\<forall>x\<in>S. hbase h \<le> x) \<and> (\<forall>x\<in>S. succ_in S x (hptr h x)) \<and>
     hsize h (hbase h) = 0 \<and> (\<forall>x\<in>S. x \<noteq> hbase h \<longrightarrow> 0 < hsize h x) \<and>
     (\<forall>x\<in>S. \<forall>y\<in>S. x < y \<longrightarrow> x + hsize h x \<le> y) \<and> (\<forall>x\<in>S. x + hsize h x \<le> brk h)"

definition block :: "heap \<Rightarrow> nat \<Rightarrow> nat set" where
  "block h b = {b..<b + hsize h b}"

definition units :: "nat set \<Rightarrow> heap \<Rightarrow> nat set" where
  "units S h = (\<Union>x\<in>S. block h x)"

lemma set_simps [simp]:
  "hptr (set_ptr p v h) = (hptr h)(p := v)" "hsize (set_ptr p v h) = hsize h" "hbase (set_ptr p v h) = hbase h"
  "freep (set_ptr p v h) = freep h" "brk (set_ptr p v h) = brk h"
  "hptr (set_size p v h) = hptr h" "hsize (set_size p v h) = (hsize h)(p := v)" "hbase (set_size p v h) = hbase h"
  "freep (set_size p v h) = freep h" "brk (set_size p v h) = brk h"
  by (simp_all add: set_ptr_def set_size_def)

lemma ring_invD:
  assumes "ring_inv S h"
  shows "finite S" "hbase h \<in> S" "\<And>x. x \<in> S \<Longrightarrow> hbase h \<le> x" "\<And>x. x \<in> S \<Longrightarrow> succ_in S x (hptr h x)"
    "hsize h (hbase h) = 0" "\<And>x. x \<in> S \<Longrightarrow> x \<noteq> hbase h \<Longrightarrow> 0 < hsize h x"
    "\<And>x y. x \<in> S \<Longrightarrow> y \<in> S \<Longrightarrow> x < y \<Longrightarrow> x + hsize h x \<le> y" "\<And>x. x \<in> S \<Longrightarrow> x + hsize h x \<le> brk h"
  using assms by (simp_all add: ring_inv_def)

section \<open>The loop of free\<close>

definition pred_of :: "nat set \<Rightarrow> nat \<Rightarrow> nat \<Rightarrow> bool" where
  "pred_of S bp q \<longleftrightarrow> q \<in> S \<and> q < bp \<and> (\<forall>y\<in>S. \<not> (q < y \<and> y < bp))"

lemma find_slot_step:
  assumes "\<And>x. x \<in> S \<Longrightarrow> succ_in S x (hptr h x)" "p \<in> S" "bp \<notin> S" "b \<in> S" "b < bp" and n: "\<not> pred_of S bp p"
  shows "find_slot h bp p = find_slot h bp (hptr h p)"
proof -
  have s: "succ_in S p (hptr h p)" using assms by blast
  have "\<not> (bp > p \<and> bp < hptr h p)"
    using s n assms(2) by (fastforce simp: succ_in_def pred_of_def)
  moreover have "\<not> (p \<ge> hptr h p \<and> (bp > p \<or> bp < hptr h p))"
  proof
    assume a: "p \<ge> hptr h p \<and> (bp > p \<or> bp < hptr h p)"
    then have "\<forall>y\<in>S. y \<le> p \<and> hptr h p \<le> y" using s by (simp add: succ_in_def)
    with a n assms(2,4,5) show False by (fastforce simp: pred_of_def)
  qed
  ultimately show ?thesis by (subst find_slot.simps) (simp only: if_False)
qed

lemma find_slot_stop:
  assumes "succ_in S p (hptr h p)" "p \<in> S" "bp \<notin> S" "pred_of S bp p"
  shows "find_slot h bp p = Some p"
proof -
  have "hptr h p \<noteq> bp" using assms(1,3) by (auto simp: succ_in_def)
  then have "(bp > p \<and> bp < hptr h p) \<or> (p \<ge> hptr h p \<and> bp > p)"
    using assms(1,4) unfolding succ_in_def pred_of_def by (metis linorder_neqE_nat not_le)
  then show ?thesis by (subst find_slot.simps) auto
qed

lemma find_slot_pred:
  assumes "finite S" and s: "\<And>x. x \<in> S \<Longrightarrow> succ_in S x (hptr h x)" and "bp \<notin> S" "b \<in> S" "b < bp" "p \<in> S"
  shows "\<exists>q. find_slot h bp p = Some q \<and> pred_of S bp q"
  using \<open>p \<in> S\<close>
proof (induction "if p < bp then card {y\<in>S. p < y \<and> y < bp} else card S + card {y\<in>S. p < y}" arbitrary: p rule: less_induct)
  case less
  show ?case
  proof (cases "pred_of S bp p")
    case True
    then show ?thesis using find_slot_stop [OF s] less.prems assms(3) by blast
  next
    case False
    let ?z = "hptr h p"
    have z: "succ_in S p ?z" "?z \<in> S" using s [OF less.prems] by (auto simp: succ_in_def)
    have "(if ?z < bp then card {y\<in>S. ?z < y \<and> y < bp} else card S + card {y\<in>S. ?z < y}) <
        (if p < bp then card {y\<in>S. p < y \<and> y < bp} else card S + card {y\<in>S. p < y})"
    proof (cases "p < bp")
      case True
      then obtain y where y: "y \<in> S" "p < y" "y < bp" using False less.prems by (auto simp: pred_of_def)
      then have zz: "p < ?z" "?z < bp" using z unfolding succ_in_def by (metis leD le_less_linear le_less_trans)+
      then have "{y\<in>S. ?z < y \<and> y < bp} \<subset> {y\<in>S. p < y \<and> y < bp}" using z(2) by auto
      then show ?thesis using zz True assms(1) by (simp add: psubset_card_mono)
    next
      case p: False
      show ?thesis
      proof (cases "?z < bp")
        case True
        have "{y\<in>S. ?z < y \<and> y < bp} \<subset> S" using z(2) by auto
        then show ?thesis using True p assms(1) by (simp add: psubset_card_mono trans_less_add1)
      next
        case zb: False
        have "p < ?z"
        proof (rule ccontr)
          assume "\<not> p < ?z"
          then have "?z \<le> b" using z assms(4) by (simp add: succ_in_def)
          then show False using zb assms(5) by simp
        qed
        then have "{y\<in>S. ?z < y} \<subset> {y\<in>S. p < y}" using z(2) by auto
        then show ?thesis using zb p assms(1) by (simp add: psubset_card_mono)
      qed
    qed
    from less.hyps [OF this z(2)] show ?thesis using find_slot_step [OF s less.prems assms(3-5) False] by simp
  qed
qed

section \<open>Inserting and joining\<close>

lemma succ_in_inj:
  assumes "succ_in S x z" "succ_in S y z" "x \<in> S" "y \<in> S"
  shows "x = y"
proof (rule linorder_cases [of x y])
  assume "x < y"
  then show ?thesis using assms by (cases "x < z"; cases "y < z") (fastforce simp: succ_in_def)+
next
  assume "y < x"
  then show ?thesis using assms by (cases "x < z"; cases "y < z") (fastforce simp: succ_in_def)+
qed simp

lemma succ_insert:
  assumes s: "\<And>x. x \<in> S \<Longrightarrow> succ_in S x (f x)" and q: "pred_of S bp q" and "bp \<notin> S" and x: "x \<in> insert bp S"
  shows "succ_in (insert bp S) x ((f(bp := f q, q := bp)) x)"
proof -
  have qS: "q \<in> S" "q < bp" and gap: "\<And>y. y \<in> S \<Longrightarrow> \<not> (q < y \<and> y < bp)" using q by (auto simp: pred_of_def)
  have sq: "succ_in S q (f q)" using s qS by blast
  consider "x = q" | "x = bp" | "x \<in> S" "x \<noteq> q" "x \<noteq> bp" using x by blast
  then show ?thesis
  proof cases
    case 1
    then show ?thesis using qS gap by (auto simp: succ_in_def)
  next
    case 2
    show ?thesis
    proof (cases "q < f q")
      case True
      with sq have f: "f q \<in> S" "\<And>y. y \<in> S \<Longrightarrow> \<not> (q < y \<and> y < f q)" by (auto simp: succ_in_def)
      then have "bp < f q" using gap [of "f q"] True assms(3) by (metis linorder_neqE_nat)
      then show ?thesis using 2 qS f by (fastforce simp: succ_in_def)
    next
      case False
      with sq have f: "f q \<in> S" "\<And>y. y \<in> S \<Longrightarrow> y \<le> q \<and> f q \<le> y" by (auto simp: succ_in_def)
      then show ?thesis using 2 qS by (fastforce simp: succ_in_def)
    qed
  next
    case 3
    have sx: "succ_in S x (f x)" using s 3 by blast
    show ?thesis
    proof (cases "x < f x")
      case True
      have "\<not> (x < bp \<and> bp < f x)"
      proof
        assume a: "x < bp \<and> bp < f x"
        then have "x < q" using gap [OF 3(1)] 3(2) by (metis linorder_neqE_nat)
        then show False using sx qS a True by (fastforce simp: succ_in_def)
      qed
      then show ?thesis using sx 3 True by (simp add: succ_in_def)
    next
      case False
      then have m: "\<And>y. y \<in> S \<Longrightarrow> y \<le> x \<and> f x \<le> y" using sx by (simp add: succ_in_def)
      then have "q < x" "f x \<le> q" using qS 3(2) by (metis le_neq_implies_less)+
      then have "bp \<le> x" "f x \<le> bp" using gap [OF 3(1)] qS by auto
      then show ?thesis using sx 3 False m by (simp add: succ_in_def)
    qed
  qed
qed

lemma succ_remove:
  assumes s: "\<And>y. y \<in> S \<Longrightarrow> succ_in S y (f y)" and x: "x \<in> S" "f x \<noteq> x" and y: "y \<in> S - {f x}"
  shows "succ_in (S - {f x}) y ((f(x := f (f x))) y)"
proof -
  let ?z = "f x"
  have sx: "succ_in S x ?z" and zS: "?z \<in> S" using s [OF x(1)] by (auto simp: succ_in_def)
  have sz: "succ_in S ?z (f ?z)" using s [OF zS] .
  show ?thesis
  proof (cases "y = x")
    case True
    have n: "f ?z \<noteq> ?z"
    proof
      assume "f ?z = ?z"
      then have "succ_in S ?z ?z" using sz by simp
      from succ_in_inj [OF sx this x(1) zS] x(2) show False by simp
    qed
    have "f ?z \<in> S" using sz by (simp add: succ_in_def)
    then show ?thesis using True sx sz n x zS
      by (cases "x < ?z"; cases "?z < f ?z"; cases "x < f ?z") (fastforce simp: succ_in_def)+
  next
    case False
    have "f y \<noteq> ?z" using succ_in_inj [of S y ?z x] s sx x y False by fastforce
    then show ?thesis using s [of y] y False by (auto simp: succ_in_def split: if_splits)
  qed
qed

definition insert_block :: "nat \<Rightarrow> nat \<Rightarrow> heap \<Rightarrow> heap" where
  "insert_block bp q h = set_ptr q bp (set_ptr bp (hptr h q) h)"

definition merge_next :: "nat \<Rightarrow> heap \<Rightarrow> heap" where
  "merge_next x h =
     (let z = hptr h x in set_ptr x (hptr h z) (set_size x (uint_add (hsize h x) (hsize h z)) h))"

lemma join_cases:
  assumes "q < bp" "z = hptr h q" "bp + hsize h bp = z \<Longrightarrow> bp < z"
  shows "join_prev bp q (join_next bp q h) =
    (let h1 = insert_block bp q h; h2 = (if bp + hsize h bp = z then merge_next bp h1 else h1)
     in if q + hsize h q = bp then merge_next q h2 else h2)"
proof -
  have "q \<noteq> bp" using assms(1) by simp
  moreover have "z \<noteq> q \<and> z \<noteq> bp" if "bp + hsize h bp = z" using assms(1) assms(3) [OF that] by simp
  ultimately show ?thesis
    using assms(2)
    by (cases "bp + hsize h bp = z"; cases "q + hsize h q = bp")
      (auto simp: join_prev_def join_next_def insert_block_def merge_next_def set_ptr_def set_size_def Let_def fun_upd_twist)
qed

lemma block_free:
  assumes "ring_inv S h" "x \<in> S" "x \<noteq> hbase h"
  shows "x \<in> units S h"
  using ring_invD(6) [OF assms] assms(2) by (auto simp: units_def block_def)

lemma insert_block_ok:
  assumes "ring_inv S h" "pred_of S bp q" and b: "hbase h < bp" "0 < hsize h bp" "bp + hsize h bp \<le> brk h"
    and d: "block h bp \<inter> units S h = {}"
  shows "ring_inv (insert bp S) (insert_block bp q h)"
    and "units (insert bp S) (insert_block bp q h) = units S h \<union> block h bp"
proof -
  note i = ring_invD [OF assms(1)]
  have "bp \<in> block h bp" using b by (simp add: block_def)
  then have n: "bp \<notin> S" using d b(1) block_free [OF assms(1), of bp] by auto
  have u: "hsize (insert_block bp q h) = hsize h" "hbase (insert_block bp q h) = hbase h" "brk (insert_block bp q h) = brk h"
    by (simp_all add: insert_block_def)
  have up: "x + hsize h x \<le> bp" if "x \<in> S" "x < bp" for x
  proof (rule ccontr)
    assume "\<not> x + hsize h x \<le> bp"
    then have "bp \<in> units S h" using that by (auto simp: units_def block_def intro!: bexI [of _ x])
    then show False using d \<open>bp \<in> block h bp\<close> by blast
  qed
  have down: "bp + hsize h bp \<le> y" if "y \<in> S" "bp < y" for y
  proof (rule ccontr)
    assume "\<not> bp + hsize h bp \<le> y"
    then have "y \<in> block h bp" using that by (simp add: block_def)
    moreover have "y \<in> units S h" using block_free [OF assms(1) that(1)] that(2) b(1) by simp
    ultimately show False using d by blast
  qed
  have "succ_in (insert bp S) x (hptr (insert_block bp q h) x)" if "x \<in> insert bp S" for x
    using succ_insert [of S "hptr h", OF i(4) assms(2) n that] by (simp add: insert_block_def)
  then show "ring_inv (insert bp S) (insert_block bp q h)"
    unfolding ring_inv_def u using i b up down by auto
  show "units (insert bp S) (insert_block bp q h) = units S h \<union> block h bp"
    by (auto simp: units_def block_def u)
qed

lemma merge_next_ok:
  assumes "ring_inv S h" "x \<in> S" "x < hptr h x" "x + hsize h x = hptr h x" "brk h < 2 ^ 32"
  shows "ring_inv (S - {hptr h x}) (merge_next x h)" and "units (S - {hptr h x}) (merge_next x h) = units S h"
    and "hsize (merge_next x h) x = hsize h x + hsize h (hptr h x)"
proof -
  note i = ring_invD [OF assms(1)]
  let ?z = "hptr h x"
  have sx: "succ_in S x ?z" and z: "?z \<in> S" using i(4) [OF assms(2)] by (auto simp: succ_in_def)
  have gap: "?z < y" if "y \<in> S" "x < y" "y \<noteq> ?z" for y
    using sx that assms(3) by (metis linorder_neqE_nat succ_in_def)
  have zb: "?z \<noteq> hbase h" using i(3) [OF assms(2)] assms(3) by simp
  have sum: "uint_add (hsize h x) (hsize h ?z) = hsize h x + hsize h ?z"
    using i(8) [OF z] assms(4,5) by (simp add: uint_add_def)
  have xb: "x \<noteq> hbase h" using assms(3,4) i(5) by auto
  have u: "hsize (merge_next x h) = (hsize h)(x := hsize h x + hsize h ?z)" "hbase (merge_next x h) = hbase h"
    "brk (merge_next x h) = brk h" "hptr (merge_next x h) = (hptr h)(x := hptr h ?z)"
    by (simp_all add: merge_next_def Let_def sum)
  have "succ_in (S - {?z}) y (hptr (merge_next x h) y)" if "y \<in> S - {?z}" for y
    using succ_remove [of S "hptr h", OF i(4) assms(2) _ that] assms(3) by (simp add: u)
  moreover have "x + (hsize h x + hsize h ?z) \<le> y" if "y \<in> S" "x < y" "y \<noteq> ?z" for y
    using i(7) [OF z that(1) gap [OF that]] assms(4) by simp
  moreover have "x + (hsize h x + hsize h ?z) \<le> brk h" using i(8) [OF z] assms(4) by simp
  ultimately show "ring_inv (S - {?z}) (merge_next x h)"
    unfolding ring_inv_def u using i zb xb by auto
  show "hsize (merge_next x h) x = hsize h x + hsize h ?z" by (simp add: u)
  have m: "block (merge_next x h) y = (if y = x then block h x \<union> block h ?z else block h y)" for y
    using assms(4) by (auto simp: block_def u)
  show "units (S - {?z}) (merge_next x h) = units S h"
  proof (rule set_eqI)
    fix e
    have "e \<in> units (S - {?z}) (merge_next x h)" if "y \<in> S" "e \<in> block h y" for y
      using that assms(2,3) m unfolding units_def by (cases "y = ?z") (auto intro!: bexI [of _ x] bexI [of _ y])
    moreover have "e \<in> units S h" if "y \<in> S" "e \<in> block (merge_next x h) y" for y
      using that assms(2) z m [of y] unfolding units_def by (auto split: if_splits)
    ultimately show "e \<in> units (S - {?z}) (merge_next x h) \<longleftrightarrow> e \<in> units S h"
      unfolding units_def by blast
  qed
qed

section \<open>Free\<close>

text \<open>\<open>free\<close> returns, and adds exactly the block to the free ones; only headers of free blocks change.\<close>

lemma free_ok:
  assumes "ring_inv S h" "freep h \<in> S" and b: "hbase h < bp" "0 < hsize h bp" "bp + hsize h bp \<le> brk h" "brk h < 2 ^ 32"
    and d: "block h bp \<inter> units S h = {}"
  shows "\<exists>S' h'. free (bp + 1) h = Some h' \<and> ring_inv S' h' \<and> freep h' \<in> S' \<and> units S' h' = units S h \<union> block h bp \<and>
    brk h' = brk h \<and> hbase h' = hbase h \<and> (\<forall>y. y \<notin> units S h \<union> block h bp \<longrightarrow> hsize h' y = hsize h y) \<and>
    (\<exists>t\<in>S'. hsize h bp \<le> hsize h' t)"
proof -
  note i = ring_invD [OF assms(1)]
  have "bp \<in> block h bp" using b by (simp add: block_def)
  then have n: "bp \<notin> S" using d b(1) block_free [OF assms(1), of bp] by auto
  from find_slot_pred [of S h, OF i(1) i(4) n i(2) b(1) assms(2)] obtain q where
    f: "find_slot h bp (freep h) = Some q" and q: "pred_of S bp q" by blast
  have q': "q \<in> S" "q < bp" using q by (auto simp: pred_of_def)
  define z where "z = hptr h q"
  define h1 where "h1 = insert_block bp q h"
  define h2 where "h2 = (if bp + hsize h bp = z then merge_next bp h1 else h1)"
  define S2 where "S2 = (if bp + hsize h bp = z then insert bp S - {z} else insert bp S)"
  define h3 where "h3 = (if q + hsize h q = bp then merge_next q h2 else h2)"
  define S3 where "S3 = (if q + hsize h q = bp then S2 - {bp} else S2)"
  have e: "free (bp + 1) h = Some (h3\<lparr>freep := q\<rparr>)"
    using f join_cases [OF q'(2) z_def] b(2) by (simp add: free_def h3_def h2_def h1_def Let_def)
  have i1: "ring_inv (insert bp S) h1" "units (insert bp S) h1 = units S h \<union> block h bp"
    using insert_block_ok [OF assms(1) q b(1-3) d] by (simp_all add: h1_def)
  have f1: "hptr h1 bp = z" "hptr h1 q = bp" "hsize h1 = hsize h" "brk h1 = brk h" "hbase h1 = hbase h"
    using q' by (simp_all add: h1_def insert_block_def z_def)
  have i2: "ring_inv S2 h2 \<and> units S2 h2 = units S h \<union> block h bp"
    using i1 merge_next_ok [OF i1(1), of bp] b by (simp add: h2_def S2_def f1)
  have f2: "hptr h2 q = bp" "hsize h2 q = hsize h q" "brk h2 = brk h" "hbase h2 = hbase h" "q \<in> S2"
    using q' f1 b(2) by (auto simp: h2_def S2_def merge_next_def Let_def)
  have g2: "hsize h bp \<le> hsize h2 bp" "bp \<in> S2" using merge_next_ok(3) [OF i1(1), of bp] b by (auto simp: h2_def S2_def f1)
  have i3: "ring_inv S3 h3 \<and> units S3 h3 = units S h \<union> block h bp"
    using i2 merge_next_ok [of S2 h2 q] q' f2 b(4) by (simp add: h3_def S3_def)
  have "\<exists>t\<in>S3. hsize h bp \<le> hsize h3 t"
  proof (cases "q + hsize h q = bp")
    case True
    have "hsize h3 q = hsize h2 q + hsize h2 bp"
      using merge_next_ok(3) [of S2 h2 q] i2 q' f2 b(4) True by (simp add: h3_def)
    then show ?thesis using g2 f2 q' by (intro bexI [of _ q]) (auto simp: S3_def)
  next
    case False
    then show ?thesis using g2 by (intro bexI [of _ bp]) (simp_all add: S3_def h3_def)
  qed
  moreover have "q \<in> S3" using f2 q' by (simp add: S3_def)
  moreover have "ring_inv S3 (h3\<lparr>freep := q\<rparr>)" "units S3 (h3\<lparr>freep := q\<rparr>) = units S h \<union> block h bp"
    using i3 by (simp_all add: ring_inv_def units_def block_def)
  moreover have "brk h3 = brk h" "hbase h3 = hbase h" using f2 by (simp_all add: h3_def merge_next_def Let_def)
  moreover have "hsize h3 y = hsize h y" if "y \<notin> units S h \<union> block h bp" for y
  proof -
    have "y \<noteq> bp" using that \<open>bp \<in> block h bp\<close> by blast
    moreover have "y \<noteq> q" if "q + hsize h q = bp"
      using block_free [OF assms(1) q'(1)] \<open>y \<notin> _\<close> that q'(2) i(5) by fastforce
    ultimately show ?thesis by (auto simp: h3_def h2_def merge_next_def Let_def f1)
  qed
  ultimately show ?thesis using e by (intro exI [of _ S3] exI [of _ "h3\<lparr>freep := q\<rparr>"]) simp
qed

section \<open>Taking a block\<close>

lemma take_block_ok:
  assumes "ring_inv S h" "prevp \<in> S" "p = hptr h prevp" "0 < n" "n \<le> hsize h p"
  shows "\<exists>S' b h'. take_block n prevp p h = (b + 1, h') \<and> ring_inv S' h' \<and> freep h' \<in> S' \<and> hsize h' b = n \<and> hbase h < b \<and>
    block h' b \<inter> units S' h' = {} \<and> units S' h' \<union> block h' b = units S h \<and> brk h' = brk h \<and> hbase h' = hbase h \<and>
    (\<forall>y. y \<notin> units S h \<longrightarrow> hsize h' y = hsize h y)"
proof -
  note i = ring_invD [OF assms(1)]
  have pS: "p \<in> S" and sp: "succ_in S prevp p" using i(4) [OF assms(2)] assms(3) by (auto simp: succ_in_def)
  have pb: "p \<noteq> hbase h" using assms(4,5) i(5) by auto
  then have bp: "hbase h < p" using i(3) [OF pS] by simp
  have pp: "prevp \<noteq> p"
  proof
    assume "prevp = p"
    then have "p \<le> hbase h" using sp i(2) by (simp add: succ_in_def)
    then show False using bp by simp
  qed
  have disj: "block h x \<inter> block h y = {}" if "x \<in> S" "y \<in> S" "x \<noteq> y" for x y
    using i(7) [OF that(1,2)] i(7) [OF that(2,1)] that(3) by (fastforce simp: block_def)
  show ?thesis
  proof (cases "hsize h p = n")
    case True
    let ?h = "(set_ptr prevp (hptr h p) h)\<lparr>freep := prevp\<rparr>"
    have bl: "block ?h = block h" by (auto simp: block_def)
    have "succ_in (S - {p}) y (hptr ?h y)" if "y \<in> S - {p}" for y
      using succ_remove [of S "hptr h", OF i(4) assms(2), folded assms(3), OF _ pp [symmetric] that] by simp
    then have "ring_inv (S - {p}) ?h" using i pb by (simp add: ring_inv_def)
    moreover have "block ?h p \<inter> units (S - {p}) ?h = {}" using disj [OF pS] by (auto simp: units_def bl)
    moreover have "units (S - {p}) ?h \<union> block ?h p = units S h" using pS by (auto simp: units_def bl)
    ultimately show ?thesis using True assms(2) pp bp
      by (intro exI [of _ "S - {p}"] exI [of _ p] exI [of _ ?h]) (simp add: take_block_def)
  next
    case False
    define m where "m = hsize h p - n"
    define b where "b = p + m"
    have m: "0 < m" "m + n = hsize h p" using False assms(5) by (simp_all add: m_def)
    let ?h = "(set_size b n (set_size p m h))\<lparr>freep := prevp\<rparr>"
    have bn: "b \<notin> S" using i(7) [OF pS, of b] m assms(4) by (auto simp: b_def)
    have e: "take_block n prevp p h = (b + 1, ?h)" using False by (simp add: take_block_def Let_def b_def m_def)
    have bl: "block ?h x = (if x = b then {b..<b + n} else if x = p then {p..<b} else block h x)" for x
      using m by (simp add: block_def b_def)
    have pb2: "block h p = {p..<b} \<union> {b..<b + n}" using m by (auto simp: block_def b_def)
    have sz: "hsize ?h x \<le> hsize h x" "x \<noteq> hbase h \<longrightarrow> 0 < hsize ?h x" if "x \<in> S" for x
      using that bn m i(6) by auto
    have "ring_inv S ?h"
      unfolding ring_inv_def
    proof (intro conjI ballI impI)
      fix x y assume a: "x \<in> S" "y \<in> S" "x < y"
      show "x + hsize ?h x \<le> y" using i(7) [OF a] sz(1) [OF a(1)] by simp
    next
      fix x assume a: "x \<in> S"
      show "x + hsize ?h x \<le> brk ?h" using i(8) [OF a] sz(1) [OF a] by simp
    next
      show "hsize ?h (hbase ?h) = 0" using sz(1) [OF i(2)] i(5) by simp
    qed (use i sz in simp_all)
    moreover have "block ?h b \<inter> units S ?h = {}"
      using disj [OF pS] bn unfolding units_def bl by (auto simp: pb2 split: if_splits)
    moreover have "units S ?h \<union> block ?h b = units S h"
    proof -
      have U: "units S g = block g p \<union> (\<Union>x\<in>S - {p}. block g x)" for g using pS by (auto simp: units_def)
      have "(\<Union>x\<in>S - {p}. block ?h x) = (\<Union>x\<in>S - {p}. block h x)"
        by (rule SUP_cong) (use bn bl in auto)
      moreover have "block ?h p = {p..<b}" "block ?h b = {b..<b + n}" using bl m by (simp_all add: b_def)
      ultimately show ?thesis unfolding U pb2 by auto
    qed
    moreover have "hsize ?h y = hsize h y" if "y \<notin> units S h" for y
    proof -
      have "y \<noteq> b" "y \<noteq> p" using that pS pb2 assms(4) m by (auto simp: units_def b_def)
      then show ?thesis by simp
    qed
    ultimately show ?thesis using e assms(2) bp m
      by (intro exI [of _ S] exI [of _ b] exI [of _ ?h]) (simp add: b_def)
  qed
qed

section \<open>The loop of malloc\<close>

lemma ring_reaches:
  assumes "ring_inv S h" "p \<in> S" "t \<in> S"
  shows "\<exists>k. (hptr h ^^ k) p = t"
  using assms(2)
proof (induction "if p \<le> t then card {y\<in>S. p < y \<and> y \<le> t} else card S + card {y\<in>S. p < y}" arbitrary: p rule: less_induct)
  case less
  note i = ring_invD [OF assms(1)]
  show ?case
  proof (cases "p = t")
    case True
    then show ?thesis by (intro exI [of _ 0]) simp
  next
    case False
    let ?z = "hptr h p"
    have z: "succ_in S p ?z" "?z \<in> S" using i(4) [OF less.prems] by (auto simp: succ_in_def)
    have "(if ?z \<le> t then card {y\<in>S. ?z < y \<and> y \<le> t} else card S + card {y\<in>S. ?z < y}) <
        (if p \<le> t then card {y\<in>S. p < y \<and> y \<le> t} else card S + card {y\<in>S. p < y})"
    proof (cases "p \<le> t")
      case True
      then have pt: "p < t" using False by simp
      have zz: "p < ?z" using z(1) pt assms(3) by (fastforce simp: succ_in_def split: if_splits)
      then have zt: "?z \<le> t" using z(1) pt assms(3) by (fastforce simp: succ_in_def)
      have "{y\<in>S. ?z < y \<and> y \<le> t} \<subset> {y\<in>S. p < y \<and> y \<le> t}" using zz zt z(2) by auto
      then show ?thesis using zt True i(1) by (simp add: psubset_card_mono)
    next
      case p: False
      show ?thesis
      proof (cases "?z \<le> t")
        case True
        have "{y\<in>S. ?z < y \<and> y \<le> t} \<subset> S" using z(2) by auto
        then show ?thesis using True p i(1) by (simp add: psubset_card_mono trans_less_add1)
      next
        case zt: False
        have "p < ?z" using z(1) zt assms(3) by (fastforce simp: succ_in_def split: if_splits)
        then have "{y\<in>S. ?z < y} \<subset> {y\<in>S. p < y}" using z(2) by auto
        then show ?thesis using zt p i(1) by (simp add: psubset_card_mono)
      qed
    qed
    from less.hyps [OF this z(2)] obtain k where "(hptr h ^^ k) ?z = t" by blast
    then show ?thesis by (intro exI [of _ "Suc k"]) (simp add: funpow_swap1)
  qed
qed

text \<open>The shortest way from the block after \<open>freep\<close> to a block does not pass \<open>freep\<close>.\<close>

lemma ring_reaches_first:
  assumes "ring_inv S h" "freep h \<in> S" "t \<in> S"
  obtains k where "(hptr h ^^ k) (hptr h (freep h)) = t" "\<And>i. i < k \<Longrightarrow> (hptr h ^^ i) (hptr h (freep h)) \<noteq> freep h"
proof -
  let ?f = "hptr h" and ?p = "hptr h (freep h)"
  define k where "k = (LEAST k. (?f ^^ k) ?p = t)"
  have "?p \<in> S" using ring_invD(4) [OF assms(1,2)] by (simp add: succ_in_def)
  from ring_reaches [OF assms(1) this assms(3)] have k: "(?f ^^ k) ?p = t" unfolding k_def by (rule LeastI_ex)
  have "(?f ^^ i) ?p \<noteq> freep h" if "i < k" for i
  proof
    assume "(?f ^^ i) ?p = freep h"
    then have "(?f ^^ Suc i) ?p = ?p" by simp
    moreover have "k = (k - Suc i) + Suc i" using that by simp
    ultimately have "(?f ^^ (k - Suc i)) ?p = t" using k by (metis comp_apply funpow_add)
    then have "k \<le> k - Suc i" unfolding k_def by (rule Least_le)
    then show False using that by simp
  qed
  with k that show thesis by blast
qed

lemma malloc_walk:
  assumes "ring_inv S h" "prevp \<in> S" "\<And>i. i < k \<Longrightarrow> (hptr h ^^ i) (hptr h prevp) \<noteq> freep h"
  shows "\<exists>prev\<in>S. malloc_loop grant n prevp (hptr h prevp) h = malloc_loop grant n prev (hptr h prev) h \<and>
    (n \<le> hsize h (hptr h prev) \<or> hptr h prev = (hptr h ^^ k) (hptr h prevp))"
  using assms(2,3)
proof (induction k arbitrary: prevp)
  case 0
  then show ?case by auto
next
  case (Suc k)
  let ?p = "hptr h prevp"
  show ?case
  proof (cases "n \<le> hsize h ?p")
    case True
    then show ?thesis using Suc.prems(1) by blast
  next
    case False
    have "?p \<noteq> freep h" using Suc.prems(2) [of 0] by simp
    then have l: "malloc_loop grant n prevp ?p h = malloc_loop grant n ?p (hptr h ?p) h"
      using False by (subst malloc_loop.simps) simp
    have "?p \<in> S" using ring_invD(4) [OF assms(1) Suc.prems(1)] by (simp add: succ_in_def)
    moreover have "(hptr h ^^ i) (hptr h ?p) \<noteq> freep h" if "i < k" for i
      using Suc.prems(2) [of "Suc i"] that by (simp add: funpow_swap1)
    ultimately show ?thesis using Suc.IH [of ?p] unfolding l by (simp add: funpow_swap1)
  qed
qed

lemma malloc_found:
  assumes "ring_inv S h" "freep h \<in> S" "t \<in> S" "n \<le> hsize h t"
  shows "\<exists>prev\<in>S. n \<le> hsize h (hptr h prev) \<and>
    malloc_loop grant n (freep h) (hptr h (freep h)) h = Some (take_block n prev (hptr h prev) h)"
proof -
  obtain k where k: "(hptr h ^^ k) (hptr h (freep h)) = t" "\<And>i. i < k \<Longrightarrow> (hptr h ^^ i) (hptr h (freep h)) \<noteq> freep h"
    using ring_reaches_first [OF assms(1-3)] by blast
  from malloc_walk [OF assms(1,2) k(2)] obtain prev where p: "prev \<in> S"
    "malloc_loop grant n (freep h) (hptr h (freep h)) h = malloc_loop grant n prev (hptr h prev) h"
    "n \<le> hsize h (hptr h prev)" using k(1) assms(4) by metis
  have "malloc_loop grant n prev (hptr h prev) h = Some (take_block n prev (hptr h prev) h)"
    using p(3) by (subst malloc_loop.simps) simp
  then show ?thesis using p by auto
qed

lemma malloc_not_found:
  assumes "ring_inv S h" "freep h \<in> S" "\<forall>t\<in>S. hsize h t < n"
  shows "malloc_loop grant n (freep h) (hptr h (freep h)) h =
    (case morecore grant n h of None \<Rightarrow> None
     | Some (q, h) \<Rightarrow> if q = 0 then Some (0, h) else malloc_loop grant n q (hptr h q) h)"
proof -
  obtain k where k: "(hptr h ^^ k) (hptr h (freep h)) = freep h" "\<And>i. i < k \<Longrightarrow> (hptr h ^^ i) (hptr h (freep h)) \<noteq> freep h"
    using ring_reaches_first [OF assms(1,2,2)] by blast
  have S: "hptr h x \<in> S" if "x \<in> S" for x using ring_invD(4) [OF assms(1) that] by (simp add: succ_in_def)
  from malloc_walk [OF assms(1,2) k(2)] obtain prev where p: "prev \<in> S"
    "malloc_loop grant n (freep h) (hptr h (freep h)) h = malloc_loop grant n prev (hptr h prev) h"
    "hptr h prev = freep h" using k(1) assms(3) S by (metis leD)
  have "\<not> n \<le> hsize h (freep h)" using assms(2,3) by (simp add: not_le)
  then show ?thesis unfolding p(2,3) by (subst malloc_loop.simps) simp
qed

text \<open>The kernel grants a process less than 64 GiB.\<close>

definition limited :: "(int \<Rightarrow> heap \<Rightarrow> bool) \<Rightarrow> bool" where
  "limited grant \<longleftrightarrow> (\<forall>m h. grant m h \<longrightarrow> int (brk h) + m div 16 < 2 ^ 32)"

lemma to_int32_small: "n < 2 ^ 31 \<Longrightarrow> to_int32 n = int n"
  by (simp add: to_int32_def)

text \<open>A request of 2 GiB reaches the kernel as a negative number, which shrinks the process.\<close>

lemma sbrk_argument_negative:
  assumes "2 ^ 27 \<le> nu" "nu < 2 ^ 28"
  shows "to_int32 (nu * 16) < 0"
proof -
  have "(int (nu * 16) + 2 ^ 31) mod 2 ^ 32 = (int (nu * 16) + 2 ^ 31 - 2 ^ 32) mod 2 ^ 32" by (rule minus_mod_self2 [symmetric])
  also have "\<dots> = int (nu * 16) + 2 ^ 31 - 2 ^ 32" using assms by (intro mod_pos_pos_trivial) simp_all
  finally show ?thesis using assms by (simp add: to_int32_def)
qed

lemma morecore_ok:
  assumes i: "ring_inv S h" "freep h \<in> S" "hbase h < brk h" "0 < hbase h" "n < 2 ^ 27"
    and g: "limited grant"
  shows "morecore grant n h = Some (0, h) \<or>
    (\<exists>S' h'. morecore grant n h = Some (freep h', h') \<and> ring_inv S' h' \<and> freep h' \<in> S' \<and> freep h' \<noteq> 0 \<and>
      hbase h' = hbase h \<and> brk h \<le> brk h' \<and> brk h' < 2 ^ 32 \<and> units S' h' = units S h \<union> {brk h..<brk h'} \<and>
      (\<forall>y. y \<notin> units S h \<union> {brk h..<brk h'} \<longrightarrow> hsize h' y = hsize h y) \<and> (\<exists>t\<in>S'. n \<le> hsize h' t))"
proof -
  define nu where "nu = max n 4096"
  have m: "(if n < 4096 then 4096 else n) = nu" "nu < 2 ^ 27" "0 < nu" "n \<le> nu" using i(5) by (auto simp: nu_def)
  have t: "to_int32 (nu * 16) = int (nu * 16)" using m(2) by (intro to_int32_small) simp
  show ?thesis
  proof (cases "grant (int (nu * 16)) h")
    case False
    then show ?thesis by (simp add: morecore_def m(1) t sbrk_def)
  next
    case True
    let ?b = "brk h"
    let ?h = "set_size ?b nu (h\<lparr>brk := ?b + nu\<rparr>)"
    have lim: "?b + nu < 2 ^ 32" using g True by (fastforce simp: limited_def)
    have bS: "?b \<notin> S" using ring_invD(6,8) [OF i(1), of ?b] i(3) by fastforce
    then have inv: "ring_inv S ?h" using i(1) i(3) by (auto simp: ring_inv_def intro: trans_le_add1)
    have u: "units S ?h = units S h" unfolding units_def by (rule SUP_cong) (use bS in \<open>auto simp: block_def\<close>)
    have bl: "block ?h ?b = {?b..<?b + nu}" by (simp add: block_def)
    have d: "block ?h ?b \<inter> units S ?h = {}"
      using ring_invD(8) [OF i(1)] unfolding u bl by (fastforce simp: units_def block_def)
    have "nat (int ?b + int (nu * 16) div 16) = ?b + nu" by simp
    then have mc: "morecore grant n h = (case free (?b + 1) ?h of None \<Rightarrow> None | Some h \<Rightarrow> Some (freep h, h))"
      using True by (simp add: morecore_def m(1) t sbrk_def)
    from free_ok [of S ?h ?b, OF inv _ _ _ _ _ d] obtain S' h' where f: "free (?b + 1) ?h = Some h'" "ring_inv S' h'"
      "freep h' \<in> S'" "units S' h' = units S ?h \<union> block ?h ?b" "brk h' = ?b + nu" "hbase h' = hbase h"
      "\<forall>y. y \<notin> units S ?h \<union> block ?h ?b \<longrightarrow> hsize h' y = hsize ?h y" "\<exists>t\<in>S'. nu \<le> hsize h' t"
      using i m lim by auto
    have "freep h' \<noteq> 0" using ring_invD(3) [OF f(2,3)] f(6) i(4) by simp
    moreover have "hsize h' y = hsize h y" if "y \<notin> units S h \<union> {?b..<?b + nu}" for y
      using f(7) [unfolded u bl] that m(3) by (cases "y = ?b") auto
    moreover have "\<exists>t\<in>S'. n \<le> hsize h' t" using f(8) m(4) le_trans by blast
    ultimately show ?thesis using f mc lim unfolding u bl
      by (intro disjI2 exI [of _ S'] exI [of _ h']) simp
  qed
qed

text \<open>What \<open>malloc\<close> gives and leaves, from a list in order.\<close>

definition gives :: "nat set \<Rightarrow> heap \<Rightarrow> nat \<Rightarrow> nat \<Rightarrow> nat set \<Rightarrow> heap \<Rightarrow> bool" where
  "gives S h n r S' h' \<longleftrightarrow>
     ring_inv S' h' \<and> freep h' \<in> S' \<and> hbase h' = hbase h \<and> brk h \<le> brk h' \<and> brk h' < 2 ^ 32 \<and>
     (\<forall>y. y \<notin> units S h \<union> {brk h..<brk h'} \<longrightarrow> hsize h' y = hsize h y) \<and>
     (if r = 0 then units S' h' = units S h \<and> brk h' = brk h
      else hbase h < r - 1 \<and> hsize h' (r - 1) = n \<and> block h' (r - 1) \<inter> units S' h' = {} \<and>
        units S' h' \<union> block h' (r - 1) = units S h \<union> {brk h..<brk h'})"

lemma take_gives:
  assumes "ring_inv S h" "prevp \<in> S" "0 < n" "n \<le> hsize h (hptr h prevp)" "brk h < 2 ^ 32"
  shows "\<exists>r S' h'. take_block n prevp (hptr h prevp) h = (r, h') \<and> gives S h n r S' h'"
proof -
  from take_block_ok [OF assms(1,2) refl assms(3,4)] obtain S' b h' where
    t: "take_block n prevp (hptr h prevp) h = (b + 1, h')" "ring_inv S' h'" "freep h' \<in> S'" "hsize h' b = n" "hbase h < b"
    "block h' b \<inter> units S' h' = {}" "units S' h' \<union> block h' b = units S h" "brk h' = brk h" "hbase h' = hbase h"
    "\<forall>y. y \<notin> units S h \<longrightarrow> hsize h' y = hsize h y" by blast
  then have "gives S h n (b + 1) S' h'" using assms(5) by (simp add: gives_def)
  with t(1) show ?thesis by blast
qed

lemma malloc_loop_gives:
  assumes i: "ring_inv S h" "freep h \<in> S" "hbase h < brk h" "0 < hbase h" "brk h < 2 ^ 32" "0 < n" "n < 2 ^ 27"
    and g: "limited grant"
  shows "\<exists>r S' h'. malloc_loop grant n (freep h) (hptr h (freep h)) h = Some (r, h') \<and> gives S h n r S' h'"
proof (cases "\<exists>t\<in>S. n \<le> hsize h t")
  case True
  then obtain t where "t \<in> S" "n \<le> hsize h t" by blast
  from malloc_found [OF i(1,2) this, of grant] obtain prev where "prev \<in> S" "n \<le> hsize h (hptr h prev)"
    and l: "malloc_loop grant n (freep h) (hptr h (freep h)) h = Some (take_block n prev (hptr h prev) h)" by blast
  from take_gives [OF i(1) this(1) i(6) this(2) i(5)] show ?thesis unfolding l by simp
next
  case False
  then have nf: "\<forall>t\<in>S. hsize h t < n" by (meson not_le)
  note l = malloc_not_found [OF i(1,2) nf, of grant]
  from morecore_ok [OF i(1-4,7) g] show ?thesis
  proof (elim disjE exE conjE)
    assume "morecore grant n h = Some (0, h)"
    moreover have "gives S h n 0 S h" using i by (simp add: gives_def)
    ultimately show ?thesis unfolding l by auto
  next
    fix S1 h1
    assume m: "morecore grant n h = Some (freep h1, h1)" "ring_inv S1 h1" "freep h1 \<in> S1" "freep h1 \<noteq> 0"
      "hbase h1 = hbase h" "brk h \<le> brk h1" "brk h1 < 2 ^ 32" "units S1 h1 = units S h \<union> {brk h..<brk h1}"
      "\<forall>y. y \<notin> units S h \<union> {brk h..<brk h1} \<longrightarrow> hsize h1 y = hsize h y" "\<exists>t\<in>S1. n \<le> hsize h1 t"
    then obtain t where "t \<in> S1" "n \<le> hsize h1 t" by blast
    from malloc_found [OF m(2,3) this, of grant] obtain prev where p: "prev \<in> S1" "n \<le> hsize h1 (hptr h1 prev)"
      and l1: "malloc_loop grant n (freep h1) (hptr h1 (freep h1)) h1 = Some (take_block n prev (hptr h1 prev) h1)" by blast
    from take_block_ok [OF m(2) p(1) refl i(6) p(2)] obtain S' b h' where
      t: "take_block n prev (hptr h1 prev) h1 = (b + 1, h')" "ring_inv S' h'" "freep h' \<in> S'" "hsize h' b = n" "hbase h1 < b"
      "block h' b \<inter> units S' h' = {}" "units S' h' \<union> block h' b = units S1 h1" "brk h' = brk h1" "hbase h' = hbase h1"
      "\<forall>y. y \<notin> units S1 h1 \<longrightarrow> hsize h' y = hsize h1 y" by blast
    have "gives S h n (b + 1) S' h'" using t m by (simp add: gives_def)
    moreover have "malloc_loop grant n (freep h) (hptr h (freep h)) h = Some (b + 1, h')"
      unfolding l using m(1,4) l1 t(1) by simp
    ultimately show ?thesis by blast
  qed
qed

section \<open>Programs that allocate\<close>

text \<open>
  The calls of a program: \<open>A\<close> is the set of pointers it has got from \<open>malloc\<close> and not yet freed. It
  asks for less than 2 GiB at a time, and writes only into the blocks it has, not into headers.
\<close>

inductive mrun :: "(int \<Rightarrow> heap \<Rightarrow> bool) \<Rightarrow> heap \<Rightarrow> heap \<Rightarrow> nat set \<Rightarrow> bool" for grant h0 where
  mrun_start: "mrun grant h0 h0 {}"
| mrun_malloc: "mrun grant h0 h A \<Longrightarrow> nbytes < 2 ^ 31 - 32 \<Longrightarrow> malloc grant nbytes h = Some (p, h') \<Longrightarrow>
    mrun grant h0 h' (if p = 0 then A else insert p A)"
| mrun_free: "mrun grant h0 h A \<Longrightarrow> p \<in> A \<Longrightarrow> free p h = Some h' \<Longrightarrow> mrun grant h0 h' (A - {p})"

text \<open>A program before its first allocation: the break lies above its data, \<open>base\<close> included.\<close>

definition fresh :: "heap \<Rightarrow> bool" where
  "fresh h \<longleftrightarrow> freep h = 0 \<and> 0 < hbase h \<and> hbase h < brk h \<and> brk h < 2 ^ 32"

text \<open>Blocks in use are disjoint from each other and from the free ones, and with them make up all that was got from the kernel.\<close>

definition accounted :: "heap \<Rightarrow> nat set \<Rightarrow> heap \<Rightarrow> nat set \<Rightarrow> bool" where
  "accounted h0 S h A \<longleftrightarrow>
     ring_inv S h \<and> freep h \<in> S \<and> hbase h = hbase h0 \<and> brk h0 \<le> brk h \<and> brk h < 2 ^ 32 \<and>
     (\<forall>p\<in>A. 0 < p \<and> hbase h < p - 1 \<and> 0 < hsize h (p - 1) \<and> block h (p - 1) \<inter> units S h = {}) \<and>
     (\<forall>p\<in>A. \<forall>q\<in>A. p \<noteq> q \<longrightarrow> block h (p - 1) \<inter> block h (q - 1) = {}) \<and>
     units S h \<union> (\<Union>p\<in>A. block h (p - 1)) = {brk h0..<brk h}"

lemma accountedD:
  assumes "accounted h0 S h A"
  shows "ring_inv S h" "freep h \<in> S" "hbase h = hbase h0" "brk h0 \<le> brk h" "brk h < 2 ^ 32"
    "\<And>p. p \<in> A \<Longrightarrow> 0 < p \<and> hbase h < p - 1 \<and> 0 < hsize h (p - 1) \<and> block h (p - 1) \<inter> units S h = {}"
    "\<And>p q. p \<in> A \<Longrightarrow> q \<in> A \<Longrightarrow> p \<noteq> q \<Longrightarrow> block h (p - 1) \<inter> block h (q - 1) = {}"
    "units S h \<union> (\<Union>p\<in>A. block h (p - 1)) = {brk h0..<brk h}"
  using assms unfolding accounted_def by blast+

lemma block_ends:
  assumes "0 < hsize h b"
  shows "b \<in> block h b" "b + hsize h b - 1 \<in> block h b"
  using assms by (auto simp: block_def)

lemma nunits_bounds:
  assumes "nbytes < 2 ^ 31 - 32"
  shows "0 < nunits_of nbytes" "nunits_of nbytes < 2 ^ 27" "nbytes \<le> 16 * (nunits_of nbytes - 1)"
  using assms by (simp_all add: nunits_of_def)

lemma accounted_init:
  assumes "fresh h"
  shows "accounted h {hbase h} (malloc_init h) {}"
  using assms by (auto simp: fresh_def accounted_def malloc_init_def ring_inv_def succ_in_def units_def block_def)

lemma accounted_malloc:
  assumes a: "accounted h0 S h A" and f: "fresh h0" and n: "nbytes < 2 ^ 31 - 32"
    and g: "limited grant"
  shows "\<exists>p S' h'. malloc grant nbytes h = Some (p, h') \<and> accounted h0 S' h' (if p = 0 then A else insert p A) \<and>
    (p \<noteq> 0 \<longrightarrow> p \<notin> A \<and> nbytes \<le> 16 * (hsize h' (p - 1) - 1))"
proof -
  note c = accountedD(1-5) [OF a] and A = accountedD(6) [OF a] and AA = accountedD(7) [OF a] and U = accountedD(8) [OF a]
  have fr: "freep h \<noteq> 0" "hbase h < brk h" "0 < hbase h" using c f ring_invD(3) [OF c(1,2)] by (auto simp: fresh_def)
  from malloc_loop_gives [OF c(1,2) fr(2,3) c(5) nunits_bounds(1,2) [OF n] g] obtain r S' h' where
    m: "malloc_loop grant (nunits_of nbytes) (freep h) (hptr h (freep h)) h = Some (r, h')"
    and gi: "gives S h (nunits_of nbytes) r S' h'" by blast
  have mm: "malloc grant nbytes h = Some (r, h')" using m fr(1) by (simp add: malloc_def malloc_init_def Let_def)
  have hd: "hsize h' (p - 1) = hsize h (p - 1)" if "p \<in> A" for p
  proof -
    have "p - 1 \<in> block h (p - 1)" using A [OF that] block_ends(1) by blast
    then have "p - 1 \<notin> units S h" "p - 1 < brk h" using A [OF that] that U by auto
    then show ?thesis using gi by (simp add: gives_def)
  qed
  have bl: "block h' (p - 1) = block h (p - 1)" if "p \<in> A" for p using hd [OF that] by (simp add: block_def)
  have old: "block h (p - 1) \<inter> (units S h \<union> {brk h..<brk h'}) = {}" if "p \<in> A" for p
  proof -
    have "block h (p - 1) \<subseteq> {brk h0..<brk h}" using U that by blast
    then show ?thesis using A [OF that] by auto
  qed
  have UA: "(\<Union>p\<in>A. block h' (p - 1)) = (\<Union>p\<in>A. block h (p - 1))" using bl by simp
  have G: "ring_inv S' h'" "freep h' \<in> S'" "hbase h' = hbase h" "brk h \<le> brk h'" "brk h' < 2 ^ 32"
    using gi by (simp_all add: gives_def)
  show ?thesis
  proof (cases "r = 0")
    case True
    then have same: "units S' h' = units S h" "brk h' = brk h" using gi by (simp_all add: gives_def)
    have "0 < p \<and> hbase h' < p - 1 \<and> 0 < hsize h' (p - 1) \<and> block h' (p - 1) \<inter> units S' h' = {}" if "p \<in> A" for p
      using A [OF that] bl [OF that] hd [OF that] G(3) same(1) by simp
    moreover have "block h' (p - 1) \<inter> block h' (q - 1) = {}" if "p \<in> A" "q \<in> A" "p \<noteq> q" for p q
      using AA [OF that] bl [OF that(1)] bl [OF that(2)] by simp
    moreover have "hbase h' = hbase h0" "brk h0 \<le> brk h'" using G c by simp_all
    moreover have "units S' h' \<union> (\<Union>p\<in>A. block h' (p - 1)) = {brk h0..<brk h'}" unfolding UA same by (rule U)
    ultimately have "accounted h0 S' h' A" unfolding accounted_def using G(1,2,5) by blast
    then show ?thesis using mm True by auto
  next
    case False
    then have R: "hbase h < r - 1" "hsize h' (r - 1) = nunits_of nbytes" "block h' (r - 1) \<inter> units S' h' = {}"
      "units S' h' \<union> block h' (r - 1) = units S h \<union> {brk h..<brk h'}" using gi by (simp_all add: gives_def)
    have dis: "block h' (p - 1) \<inter> block h' (r - 1) = {}" "block h' (p - 1) \<inter> units S' h' = {}" if "p \<in> A" for p
      using old [OF that] R(4) unfolding bl [OF that] by blast+
    have new: "r \<notin> A"
    proof
      assume "r \<in> A"
      moreover have "r - 1 \<in> block h' (r - 1)" using R(2) nunits_bounds(1) [OF n] by (intro block_ends(1)) simp
      ultimately show False using dis(1) by blast
    qed
    have "units S' h' \<union> (\<Union>p\<in>insert r A. block h' (p - 1)) = {brk h0..<brk h'}"
    proof -
      have "units S' h' \<union> (\<Union>p\<in>insert r A. block h' (p - 1)) = (units S h \<union> (\<Union>p\<in>A. block h (p - 1))) \<union> {brk h..<brk h'}"
        using R(4) UA by auto
      also have "\<dots> = {brk h0..<brk h'}" unfolding U using c(4) G(4) by auto
      finally show ?thesis .
    qed
    moreover have "0 < p \<and> hbase h' < p - 1 \<and> 0 < hsize h' (p - 1) \<and> block h' (p - 1) \<inter> units S' h' = {}"
      if "p \<in> insert r A" for p
    proof (cases "p = r")
      case True
      then show ?thesis using False R nunits_bounds(1) [OF n] G(3) by simp
    next
      case p: False
      then show ?thesis using that A [of p] hd [of p] dis(2) [of p] G(3) by simp
    qed
    moreover have "block h' (p - 1) \<inter> block h' (q - 1) = {}" if "p \<in> insert r A" "q \<in> insert r A" "p \<noteq> q" for p q
    proof (cases "p = r \<or> q = r")
      case True
      then show ?thesis using that dis(1) by blast
    next
      case p: False
      then show ?thesis using that AA [of p q] bl [of p] bl [of q] by simp
    qed
    moreover have "hbase h' = hbase h0" "brk h0 \<le> brk h'" using G c by simp_all
    ultimately have "accounted h0 S' h' (insert r A)" unfolding accounted_def using G(1,2,5) by blast
    then show ?thesis using mm False new R(2) nunits_bounds(3) [OF n] by auto
  qed
qed

lemma accounted_free:
  assumes a: "accounted h0 S h A" and f: "fresh h0" and p: "p \<in> A"
  shows "\<exists>S' h'. free p h = Some h' \<and> accounted h0 S' h' (A - {p})"
proof -
  note c = accountedD(1-5) [OF a] and A = accountedD(6) [OF a] and AA = accountedD(7) [OF a] and U = accountedD(8) [OF a]
  have sub: "block h (p - 1) \<subseteq> {brk h0..<brk h}" using U p by blast
  have A1: "hbase h < p - 1" "0 < hsize h (p - 1)" "block h (p - 1) \<inter> units S h = {}" using A [OF p] by blast+
  have "p - 1 + hsize h (p - 1) - 1 \<in> block h (p - 1)" using A1(2) by (rule block_ends(2))
  then have le: "p - 1 + hsize h (p - 1) \<le> brk h" using sub by fastforce
  have P: "p - 1 + 1 = p" using A [OF p] by simp
  from free_ok [OF c(1,2) A1(1,2) le c(5) A1(3)] obtain S' h' where
    r: "free p h = Some h'" "ring_inv S' h'" "freep h' \<in> S'" "units S' h' = units S h \<union> block h (p - 1)"
    "brk h' = brk h" "hbase h' = hbase h" "\<forall>y. y \<notin> units S h \<union> block h (p - 1) \<longrightarrow> hsize h' y = hsize h y"
    unfolding P by blast
  have hd: "hsize h' (q - 1) = hsize h (q - 1)" if "q \<in> A - {p}" for q
  proof -
    have "q - 1 \<in> block h (q - 1)" using A [of q] that block_ends(1) by blast
    then have "q - 1 \<notin> units S h \<union> block h (p - 1)" using A [of q] AA [of q p] that p by blast
    then show ?thesis using r(7) by blast
  qed
  then have bl: "block h' (q - 1) = block h (q - 1)" if "q \<in> A - {p}" for q using that by (simp add: block_def)
  have "units S' h' \<union> (\<Union>q\<in>A - {p}. block h' (q - 1)) = {brk h0..<brk h'}"
    using U p bl unfolding r(4,5) by auto
  moreover have "\<forall>q\<in>A - {p}. 0 < q \<and> hbase h' < q - 1 \<and> 0 < hsize h' (q - 1) \<and> block h' (q - 1) \<inter> units S' h' = {}"
  proof
    fix q assume q: "q \<in> A - {p}"
    then show "0 < q \<and> hbase h' < q - 1 \<and> 0 < hsize h' (q - 1) \<and> block h' (q - 1) \<inter> units S' h' = {}"
      using A [of q] AA [of q p] p unfolding r(4,6) bl [OF q] hd [OF q] by auto
  qed
  moreover have "\<forall>q\<in>A - {p}. \<forall>s\<in>A - {p}. q \<noteq> s \<longrightarrow> block h' (q - 1) \<inter> block h' (s - 1) = {}"
    using AA bl by simp
  ultimately have "accounted h0 S' h' (A - {p})" unfolding accounted_def using r c by simp
  then show ?thesis using r(1) by blast
qed

lemma malloc_after_init: "malloc grant nbytes (malloc_init h) = malloc grant nbytes h" if "0 < hbase h"
  using that by (simp add: malloc_def malloc_init_def Let_def)

lemma mrun_accounted:
  assumes "mrun grant h0 h A" "fresh h0" and g: "limited grant"
  shows "\<exists>S. accounted h0 S (malloc_init h) A"
    and "h = h0 \<and> A = {} \<or> malloc_init h = h"
proof -
  have "(\<exists>S. accounted h0 S (malloc_init h) A) \<and> (h = h0 \<and> A = {} \<or> malloc_init h = h)"
    using assms(1)
  proof induction
    case mrun_start
    then show ?case using accounted_init [OF assms(2)] by blast
  next
    case (mrun_malloc h A nbytes p h')
    then obtain S where S: "accounted h0 S (malloc_init h) A" by blast
    have "0 < hbase h" using accountedD(3) [OF S] assms(2) by (simp add: fresh_def malloc_init_def split: if_splits)
    then have "malloc grant nbytes (malloc_init h) = Some (p, h')" using mrun_malloc malloc_after_init by simp
    with accounted_malloc [OF S assms(2) mrun_malloc.hyps(2) g] obtain S' where
      S': "accounted h0 S' h' (if p = 0 then A else insert p A)" by auto
    have "freep h' \<noteq> 0" using accountedD(1-3) [OF S'] ring_invD(3) assms(2) by (fastforce simp: fresh_def)
    then have "malloc_init h' = h'" by (simp add: malloc_init_def)
    then show ?case using S' by auto
  next
    case (mrun_free h A p h')
    then have h: "malloc_init h = h" by auto
    with mrun_free obtain S where S: "accounted h0 S h A" by auto
    from accounted_free [OF S assms(2) mrun_free.hyps(2)] mrun_free.hyps(3) obtain S' where
      S': "accounted h0 S' h' (A - {p})" by auto
    have "freep h' \<noteq> 0" using accountedD(1-3) [OF S'] ring_invD(3) assms(2) by (fastforce simp: fresh_def)
    then have "malloc_init h' = h'" by (simp add: malloc_init_def)
    then show ?case using S' by auto
  qed
  then show "\<exists>S. accounted h0 S (malloc_init h) A" and "h = h0 \<and> A = {} \<or> malloc_init h = h" by blast+
qed

text \<open>
  C7. However a program mixes \<open>malloc\<close> and \<open>free\<close>, from its first allocation on, and whatever the kernel
  grants below 64 GiB: blocks it has not freed never overlap, neither with each other nor with a
  block on the free list, and together with the free list they make up all the memory got from the
  kernel, so none is lost.
\<close>

theorem umalloc_accounts_for_memory:
  assumes "mrun grant h0 h A" "fresh h0" "limited grant"
  shows "\<exists>S. accounted h0 S (malloc_init h) A"
  using mrun_accounted(1) [OF assms] .

text \<open>
  C15. At every point of such a program \<open>malloc\<close> and \<open>free\<close> return: their loops over the circular list
  end. A pointer that \<open>malloc\<close> returns is none of those in use, and its block has room for the bytes
  asked for behind the header.
\<close>

theorem umalloc_returns:
  assumes "mrun grant h0 h A" "fresh h0" "limited grant" "nbytes < 2 ^ 31 - 32"
  shows "(\<exists>p h'. malloc grant nbytes h = Some (p, h') \<and> (p = 0 \<or> p \<notin> A \<and> nbytes \<le> 16 * (hsize h' (p - 1) - 1))) \<and>
    (\<forall>p\<in>A. \<exists>h'. free p h = Some h')"
proof -
  from mrun_accounted(1) [OF assms(1-3)] obtain S where S: "accounted h0 S (malloc_init h) A" by blast
  have "0 < hbase h" using accountedD(3) [OF S] assms(2) by (simp add: fresh_def malloc_init_def split: if_splits)
  then have m: "malloc grant nbytes (malloc_init h) = malloc grant nbytes h" by (rule malloc_after_init)
  from accounted_malloc [OF S assms(2,4,3)] have "\<exists>p h'. malloc grant nbytes h = Some (p, h') \<and>
      (p = 0 \<or> p \<notin> A \<and> nbytes \<le> 16 * (hsize h' (p - 1) - 1))" unfolding m by (elim exE conjE) (intro exI conjI, assumption, blast)
  moreover have "\<exists>h'. free p h = Some h'" if "p \<in> A" for p
    using mrun_accounted(2) [OF assms(1-3)] accounted_free [OF S assms(2) that] that by auto
  ultimately show ?thesis by blast
qed

definition uheap0 :: heap where
  "uheap0 = \<lparr>hptr = (\<lambda>_. 0), hsize = (\<lambda>_. 0), hbase = 100, freep = 0, brk = 512\<rparr>"

definition grant0 :: "int \<Rightarrow> heap \<Rightarrow> bool" where
  "grant0 m h \<longleftrightarrow> 0 \<le> m \<and> int (brk h) + m div 16 < 2 ^ 24"

lemma fresh_uheap0: "fresh uheap0"
  by (simp add: fresh_def uheap0_def)

lemma grant0_limit: "limited grant0"
  by (simp add: limited_def grant0_def)

text \<open>A program that asks for 100 bytes gets the end of the first 64 KiB from the kernel.\<close>

lemma malloc_first:
  "malloc grant0 100 uheap0 =
     Some (4601, \<lparr>hptr = (\<lambda>_. 0)(100 := 512, 512 := 100), hsize = (\<lambda>_. 0)(100 := 0, 512 := 4088, 4600 := 8), hbase = 100, freep = 100, brk = 4608\<rparr>)"
  by (simp add: malloc_def malloc_init_def nunits_of_def uheap0_def malloc_loop.simps find_slot.simps morecore_def sbrk_def
      grant0_def to_int32_def free_def join_next_def join_prev_def take_block_def set_ptr_def set_size_def fun_upd_twist)

theorem umalloc_accounts_for_memory_witness:
  "\<exists>h S. mrun grant0 uheap0 h {4601} \<and> accounted uheap0 S (malloc_init h) {4601}"
proof -
  from mrun_malloc [OF mrun_start _ malloc_first] obtain h where r: "mrun grant0 uheap0 h {4601}" by auto
  from umalloc_accounts_for_memory [OF r fresh_uheap0 grant0_limit] r show ?thesis by blast
qed

theorem umalloc_returns_witness: "\<exists>h h'. mrun grant0 uheap0 h {4601} \<and> free 4601 h = Some h'"
proof -
  from mrun_malloc [OF mrun_start _ malloc_first] obtain h where r: "mrun grant0 uheap0 h {4601}" by auto
  from umalloc_returns [OF r fresh_uheap0 grant0_limit, where nbytes = 100] r show ?thesis by auto
qed

end
