(* ===== verification/Spec2Isabelle.thy ===== *)
theory Spec2Isabelle
  imports Pagetable_Correct Bufring Runcmd Trap Uart_Tx Umalloc
begin

text \<open>
  A verification of the xv6-riscv kernel with demand paging and swapping under \<open>src/xv6-riscv\<close>, and of
  some of the programs that run on it.

  \<^bold>\<open>The program.\<close> A Unix-like kernel for several RISC-V CPUs. Spinlocks protect its tables
  (\<open>kernel/spinlock.c\<close>), sleep-locks the objects a process holds while it waits for the disk
  (\<open>kernel/sleeplock.c\<close>). Pages of physical memory come from a free list (\<open>kernel/kalloc.c\<close>); page tables
  are built from them (\<open>kernel/vm.c\<close>). Files are kept by layers: a cache of disk blocks (\<open>kernel/bio.c\<close>), a
  redo log that makes operations crash-atomic (\<open>kernel/log.c\<close>), and blocks, inodes, directories and
  paths (\<open>kernel/fs.c\<close>). Processes (\<open>kernel/proc.c\<close>) get their pages when they touch them: the page-fault
  handler in \<open>kernel/vm.c\<close> loads them from the executable, takes them from a swap file or clears them,
  and evicts the oldest page when memory runs out. Pipes (\<open>kernel/pipe.c\<close>) connect processes. The
  shell and \<open>grep\<close> are user programs (\<open>user/sh.c\<close>, \<open>user/grep.c\<close>).

  \<^bold>\<open>The state.\<close> Every operation takes the state and returns it: \<open>'a res\<close> of \<^theory_text>\<open>Prelude\<close> is \<open>Ok\<close> with a
  result, \<open>Panic\<close> with the message of the call of \<open>panic\<close>, or \<open>Block\<close> with the channel on which the
  operation goes to sleep (the model does not follow it further). Using a null pointer in the
  kernel is the panic of \<open>kerneltrap\<close>. The state is a chain of records, one extension per layer:
  \<open>kmem\<close> (physical memory and the free list), \<open>bstate\<close> (disk, order of disk writes, buffers), \<open>lstate\<close>
  (log), \<open>fstate\<close> (superblock, inode table), \<open>kstate\<close> (processes, open files, pipes), \<open>cstate\<close> and \<open>ustate\<close>
  (console and UART), \<open>tstate\<close> (control registers and the disk driver). An operation of a
  layer is polymorphic in the extensions above it. Machine integers are words of their width;
  physical memory is a function from 64-bit addresses to bytes, with page tables and the free list
  stored in it as the code stores them; blocks are functions from offsets to bytes, with on-disk
  structures decoded from them.

  \<^bold>\<open>The theories.\<close>
  \<^item> \<^theory_text>\<open>Prelude\<close>, \<^theory_text>\<open>Encoding\<close>, \<^theory_text>\<open>Riscv\<close>: outcomes, loops and scans, little-endian loads and stores, and the
    constants and macros of \<open>riscv.h\<close> and \<open>memlayout.h\<close>.
  \<^item> \<^theory_text>\<open>Cstring\<close>: \<open>kernel/string.c\<close>. \<open>memmove\<close> copies also between overlapping ranges, \<open>safestrcpy\<close> always
    terminates its result, \<open>strncmp\<close> decides equality of bounded strings.
  \<^item> \<^theory_text>\<open>Kalloc\<close>: \<open>kernel/kalloc.c\<close>, with the invariant that the list threaded through the free pages
    consists of distinct pages of RAM.
  \<^item> \<^theory_text>\<open>Pagetable\<close>, \<^theory_text>\<open>Pagetable_Correct\<close>: \<open>walk\<close>, \<open>mappages\<close>, \<open>uvmunmap\<close>, \<open>uvmalloc\<close>, \<open>uvmcopy\<close>, \<open>freewalk\<close>, \<open>kvmmake\<close>,
    \<open>proc_pagetable\<close> and the others; a tree invariant (no page is shared within a table or with the
    free list), what mapping and unmapping change, and what a later lookup finds.
  \<^item> \<^theory_text>\<open>Spinlock\<close>, \<^theory_text>\<open>Sleeplock\<close>: all CPUs interleaved at the atomic accesses of \<open>acquire\<close> and \<open>release\<close>; mutual
    exclusion as an invariant of the step relation, and the matching of \<open>push_off\<close> and \<open>pop_off\<close>.
  \<^item> \<^theory_text>\<open>Bio\<close>, \<^theory_text>\<open>Bufring\<close>: the buffer cache and its invariant, the locale \<open>block_cache\<close> as the contract its
    clients use, and the pointer-level recency list, which implements the list used by \<^theory_text>\<open>Bio\<close>.
  \<^item> \<^theory_text>\<open>Virtio\<close>: the disk driver \<open>kernel/virtio_disk.c\<close> as a system of processes, interrupt handler and device
    that take steps in any order. The device is a parameter that conforms to the documented effect of
    a request, which it may also report as failed. The only panic is the one for a failed request, no
    descriptor is lost, and a request that succeeds is, byte for byte, the block transfer that
    \<^theory_text>\<open>Bio\<close> assumes.
  \<^item> \<^theory_text>\<open>Journal\<close>: the log, with every disk write in order; a crash at any point of a commit followed by
    recovery leaves all of the transaction's writes or none, and reserved log space is never exceeded.
  \<^item> \<^theory_text>\<open>Fs\<close>, \<^theory_text>\<open>Fs_Correct\<close>: all of \<open>kernel/fs.c\<close>; block allocation, inode encoding, uniqueness of in-memory
    inodes, the size limit of files. Copies between the kernel and a caller are an argument of
    \<open>readi\<close> and \<open>writei\<close>, as \<open>either_copyout\<close> decides at run time.
  \<^item> \<^theory_text>\<open>Kstate\<close>: the process table, \<open>sleep\<close>, \<open>wakeup\<close>, \<open>kkill\<close>, \<open>reparent\<close> and the scheduler's loop, where
    the other CPUs and the process that runs are arguments; no runnable process is passed over.
  \<^item> \<^theory_text>\<open>Create\<close>: the file table and \<open>create\<close> of \<open>kernel/sysfile.c\<close>, which the swap file needs.
  \<^item> \<^theory_text>\<open>Paging\<close>, \<^theory_text>\<open>Paging_Correct\<close>: swap slots, eviction, swapping in and out, the page-fault handler, and
    the copies to and from user memory that fault pages in. The order of eviction is the order in
    which pages came in, as long as the sequence counter, an \<open>int\<close>, has not overflowed; slots are given
    out once; a clean page of the executable is unmapped and freed without a write; and the error paths.
  \<^item> \<^theory_text>\<open>Ring\<close>, \<^theory_text>\<open>Pipe\<close>: a ring buffer with free-running counters of any width is a queue (locale \<open>ring\<close>), and
    \<open>kernel/pipe.c\<close> on top of it. An operation that has to wait in the middle ends with \<open>Wait\<close> and the
    number of bytes done so far.
  \<^item> \<^theory_text>\<open>File\<close>: \<open>kernel/file.c\<close> and \<open>pipealloc\<close>. The table of device functions is an argument. A \<open>pipealloc\<close> that
    fails leaves the file table as it was.
  \<^item> \<^theory_text>\<open>Proc\<close>: \<open>allocproc\<close>, \<open>freeproc\<close>, \<open>userinit\<close>, \<open>growproc\<close>, \<open>kfork\<close>, \<open>kexit\<close> and \<open>kwait\<close> of \<open>kernel/proc.c\<close>; which pages a
    forked child has, and when a waiting parent sleeps.
  \<^item> \<^theory_text>\<open>Sysfile\<close>: fetching arguments (\<open>kernel/syscall.c\<close>) and the system calls of \<open>kernel/sysfile.c\<close>;
    descriptor tables stay well typed, with exact reference counts.
  \<^item> \<^theory_text>\<open>Sysproc\<close>: the system calls of \<open>kernel/sysproc.c\<close>; every word of the structure \<open>memstat\<close> fills in.
  \<^item> \<^theory_text>\<open>Exec\<close>: \<open>kernel/exec.c\<close> and \<open>sys_exec\<close>; where the arguments of a new program lie.
  \<^item> \<^theory_text>\<open>Console\<close>: line editing and reading in \<open>kernel/console.c\<close>, a second use of \<open>ring\<close>, and \<open>procdump\<close>; no key
    damages input that is complete.
  \<^item> \<^theory_text>\<open>Uart\<close>: \<open>kernel/uart.c\<close>, \<open>consolewrite\<close> and \<open>kernel/plic.c\<close>. What a register answers is an argument.
  \<^item> \<^theory_text>\<open>Uart_Tx\<close>: \<open>uartwrite\<close>, the \<open>sleep\<close> it calls, \<open>uartintr\<close> and its \<open>wakeup\<close> as small steps on the locks, the flag and
    the device registers, of any number of writers in any interleaving: every schedule ends, with all
    bytes of every writer sent, and no wakeup is lost.
  \<^item> \<^theory_text>\<open>Trap\<close>: the table of system calls in \<open>kernel/syscall.c\<close>, over the handlers of the other theories, and
    \<open>kernel/trap.c\<close> over a record of the control registers. It puts the components together: every
    return to user space is safe, an access the fault handler does not serve ends the process, a
    system call returns behind its \<open>ecall\<close>.
  \<^item> \<^theory_text>\<open>Printf\<close>: the two implementations of \<open>printf\<close> and \<open>atoi\<close>.
  \<^item> \<^theory_text>\<open>Grep\<close>, \<^theory_text>\<open>Shell\<close>: the matcher of \<open>grep\<close> against a declarative meaning of patterns and its read loop;
    the tokeniser and parser of the shell, whose loops end because each pass moves past a symbol.
  \<^item> \<^theory_text>\<open>Runcmd\<close>: \<open>runcmd\<close> of the shell as a tree of processes with their open files; the programs of a
    pipeline hold exactly the end of the pipe they use, and the shell that waits for them holds none.
  \<^item> \<^theory_text>\<open>Umalloc\<close>: the allocator of user programs, \<open>user/umalloc.c\<close>, on its circular list. Its loops are partial
    functions, and are proved to end; whatever a program allocates and frees, blocks never overlap
    and no memory is lost, as long as the heap stays below 64 GiB.

  \<^bold>\<open>Bounds and fuel.\<close> Loops over tables and byte counts are total functions with their measure. Two
  recursions have fuel: \<open>freewalk\<close>, whose depth is that of a page table (three levels; the fuel is
  the depth at which the kernel stack would be used up, and running out is a fault), and the parser
  of the shell, which is given fuel from the length of the line and is proved never to run out of it. Loops that may run
  forever, the polling of the transmitter and the walks of the allocator, are partial functions whose
  value is then \<open>None\<close>.

  \<^bold>\<open>Not modelled.\<close> Assembly (\<open>entry.S\<close>, \<open>swtch.S\<close>, \<open>kernelvec.S\<close>, \<open>trampoline.S\<close>) and boot (\<open>start.c\<close>, \<open>main.c\<close>) work
  on hardware registers; the switch to another process in \<open>sched\<close> is therefore the end of an
  operation or an argument.  The remaining user programs are
  sequences of system calls or tests. Concurrency is modelled for spinlocks, for the scheduler, for
  the disk driver and for console output; elsewhere an operation runs between two points at which
  it sleeps.
\<close>

end
